(* ===== verification/Prelude.thy ===== *)
theory Prelude
  imports Main "HOL-Library.Word" "HOL-Library.AList"
begin

text \<open>
  Shared vocabulary of the vm-sync development: the machine types of the Go sources, the
  state-and-error operations in which the stateful components are written, the big-endian
  byte encodings of \<^verbatim>\<open>encoding/binary\<close>, and the generic lemmas that the component
  theories use. Nothing here is specific to one component.
\<close>

section \<open>Machine types\<close>

type_synonym byte = "8 word"
type_synonym bytes = "8 word list"
type_synonym u8 = "8 word"
type_synonym u16 = "16 word"
type_synonym u32 = "32 word"
type_synonym u64 = "64 word"

text \<open>
  Go's \<^verbatim>\<open>int64\<close> (times, durations, offsets) is \<open>int\<close>; where an
  operation of the code can leave the range, the wrap-around is written out with
  \<open>wrap64\<close>.
\<close>

definition wrap64 :: "int \<Rightarrow> int" where
  "wrap64 x = (x + 2 ^ 63) mod 2 ^ 64 - 2 ^ 63"

definition in_i64 :: "int \<Rightarrow> bool" where
  "in_i64 x \<longleftrightarrow> - (2 ^ 63) \<le> x \<and> x < 2 ^ 63"

lemma wrap64_id: "in_i64 x \<Longrightarrow> wrap64 x = x"
  by (simp add: wrap64_def in_i64_def)

lemma wrap64_range: "in_i64 (wrap64 x)"
  by (simp add: wrap64_def in_i64_def)

text \<open>Integer division of Go truncates towards zero.\<close>

definition quot :: "int \<Rightarrow> int \<Rightarrow> int" where
  "quot a b = sgn a * sgn b * (\<bar>a\<bar> div \<bar>b\<bar>)"

lemma quot_nonneg: "0 \<le> a \<Longrightarrow> 0 < b \<Longrightarrow> quot a b = a div b"
  by (cases "a = 0") (simp_all add: quot_def)


section \<open>Operations on a state that may fail\<close>

text \<open>
  An operation of a component takes the component's state and returns an error or a value
  together with the state it leaves. A Go function that returns early with an error keeps the
  writes it has done before: the state comes back in both cases.
\<close>

type_synonym ('s, 'e, 'a) op = "'s \<Rightarrow> ('e + 'a) \<times> 's"

definition retE :: "'a \<Rightarrow> ('s, 'e, 'a) op" where
  "retE a s = (Inr a, s)"

definition throwE :: "'e \<Rightarrow> ('s, 'e, 'a) op" where
  "throwE e s = (Inl e, s)"

definition bindE :: "('s, 'e, 'a) op \<Rightarrow> ('a \<Rightarrow> ('s, 'e, 'b) op) \<Rightarrow> ('s, 'e, 'b) op" where
  "bindE m f s = (case m s of (r, s') \<Rightarrow> (case r of Inl e \<Rightarrow> (Inl e, s') | Inr a \<Rightarrow> f a s'))"

definition thenE :: "('s, 'e, 'a) op \<Rightarrow> ('s, 'e, 'b) op \<Rightarrow> ('s, 'e, 'b) op" where
  "thenE m n = bindE m (\<lambda>_. n)"

definition getE :: "('s \<Rightarrow> ('s, 'e, 'a) op) \<Rightarrow> ('s, 'e, 'a) op" where
  "getE f s = f s s"

definition modifyE :: "('s \<Rightarrow> 's) \<Rightarrow> ('s, 'e, unit) op" where
  "modifyE f s = (Inr (), f s)"

lemma thenE_assoc: "thenE (thenE a b) c = thenE a (thenE b c)"
  by (auto simp: thenE_def bindE_def fun_eq_iff split: prod.splits sum.splits)

lemma thenE_modify: "thenE (modifyE f) m s = m (f s)"
  by (simp add: thenE_def bindE_def modifyE_def)

lemma bindE_cases:
  assumes "bindE m f s = (r, s')"
  obtains (err) e where "m s = (Inl e, s')" and "r = Inl e"
  | (ok) a t where "m s = (Inr a, t)" and "f a t = (r, s')"
  using assms by (auto simp: bindE_def split: prod.splits sum.splits)

lemma thenE_cases:
  assumes "thenE m n s = (r, s')"
  obtains (err) e where "m s = (Inl e, s')" and "r = Inl e"
  | (ok) a t where "m s = (Inr a, t)" and "n t = (r, s')"
  using assms by (auto simp: thenE_def elim: bindE_cases)

lemmas op_defs = retE_def throwE_def bindE_def thenE_def getE_def modifyE_def

text \<open>
  \<open>keeps I m\<close>: whatever \<open>m\<close> returns, it keeps \<open>I\<close>. The rules below
  push the property through a sequence of steps, so that an invariant of a whole operation is
  reduced to the invariance of its primitive steps.
\<close>

definition keeps :: "('s \<Rightarrow> bool) \<Rightarrow> ('s, 'e, 'a) op \<Rightarrow> bool" where
  "keeps I m \<longleftrightarrow> (\<forall>s. I s \<longrightarrow> I (snd (m s)))"

named_theorems keeps_intro

lemma keepsD: "keeps I m \<Longrightarrow> I s \<Longrightarrow> m s = (r, s') \<Longrightarrow> I s'"
  by (auto simp: keeps_def dest: spec [of _ s])

lemma keepsI: "(\<And>s r s'. I s \<Longrightarrow> m s = (r, s') \<Longrightarrow> I s') \<Longrightarrow> keeps I m"
  unfolding keeps_def by (metis prod.collapse)

lemma keeps_ret [keeps_intro]: "keeps I (retE a)"
  by (simp add: keeps_def retE_def)

lemma keeps_throw [keeps_intro]: "keeps I (throwE e)"
  by (simp add: keeps_def throwE_def)

lemma keeps_bind [keeps_intro]:
  "keeps I m \<Longrightarrow> (\<And>a. keeps I (f a)) \<Longrightarrow> keeps I (bindE m f)"
  by (fastforce simp: keeps_def bindE_def split: prod.splits sum.splits dest: spec)

lemma keeps_then [keeps_intro]: "keeps I m \<Longrightarrow> keeps I n \<Longrightarrow> keeps I (thenE m n)"
  by (simp add: thenE_def keeps_bind)

lemma keeps_get [keeps_intro]: "(\<And>s. keeps I (f s)) \<Longrightarrow> keeps I (getE f)"
  by (simp add: keeps_def getE_def)

lemma keeps_modify: "(\<And>s. I s \<Longrightarrow> I (f s)) \<Longrightarrow> keeps I (modifyE f)"
  by (simp add: keeps_def modifyE_def)

lemma keeps_if [keeps_intro]:
  "(b \<Longrightarrow> keeps I m) \<Longrightarrow> (\<not> b \<Longrightarrow> keeps I n) \<Longrightarrow> keeps I (if b then m else n)"
  by simp

text \<open>
  \<open>hoare P m Q E\<close>: from a state with \<open>P\<close>, a normal return establishes
  \<open>Q\<close> and an error establishes \<open>E\<close>. Used where an operation goes through
  intermediate states that do not have the invariant.
\<close>

definition hoare ::
  "('s \<Rightarrow> bool) \<Rightarrow> ('s, 'e, 'a) op \<Rightarrow> ('a \<Rightarrow> 's \<Rightarrow> bool) \<Rightarrow> ('e \<Rightarrow> 's \<Rightarrow> bool) \<Rightarrow> bool" where
  "hoare P m Q E \<longleftrightarrow>
     (\<forall>s. P s \<longrightarrow> (case m s of (r, s') \<Rightarrow> (case r of Inl e \<Rightarrow> E e s' | Inr a \<Rightarrow> Q a s')))"

lemma hoareI:
  assumes "\<And>s r s'. P s \<Longrightarrow> m s = (r, s') \<Longrightarrow> (case r of Inl e \<Rightarrow> E e s' | Inr a \<Rightarrow> Q a s')"
  shows "hoare P m Q E"
  using assms by (auto simp: hoare_def split: prod.splits)

lemma hoareD:
  "hoare P m Q E \<Longrightarrow> P s \<Longrightarrow> m s = (Inr a, s') \<Longrightarrow> Q a s'"
  "hoare P m Q E \<Longrightarrow> P s \<Longrightarrow> m s = (Inl e, s') \<Longrightarrow> E e s'"
  by (fastforce simp: hoare_def)+

lemma hoare_ret: "(\<And>s. P s \<Longrightarrow> Q a s) \<Longrightarrow> hoare P (retE a) Q E"
  by (simp add: hoare_def retE_def)

lemma hoare_throw: "(\<And>s. P s \<Longrightarrow> E e s) \<Longrightarrow> hoare P (throwE e) Q E"
  by (simp add: hoare_def throwE_def)

lemma hoare_modify: "(\<And>s. P s \<Longrightarrow> Q () (f s)) \<Longrightarrow> hoare P (modifyE f) Q E"
  by (simp add: hoare_def modifyE_def)

lemma hoare_bind:
  "hoare P m R E \<Longrightarrow> (\<And>a. hoare (R a) (f a) Q E) \<Longrightarrow> hoare P (bindE m f) Q E"
  by (fastforce simp: hoare_def bindE_def split: prod.splits sum.splits)

lemma hoare_then: "hoare P m R E \<Longrightarrow> (\<And>a. hoare (R a) n Q E) \<Longrightarrow> hoare P (thenE m n) Q E"
  by (simp add: thenE_def hoare_bind)

lemma hoare_get: "(\<And>s0. hoare (\<lambda>s. P s \<and> s = s0) (f s0) Q E) \<Longrightarrow> hoare P (getE f) Q E"
  by (simp add: hoare_def getE_def)

lemma hoare_pre: "hoare P' m Q E \<Longrightarrow> (\<And>s. P s \<Longrightarrow> P' s) \<Longrightarrow> hoare P m Q E"
  by (simp add: hoare_def)

lemma hoare_conseq:
  "hoare P m Q' E' \<Longrightarrow> (\<And>a s. Q' a s \<Longrightarrow> Q a s) \<Longrightarrow> (\<And>e s. E' e s \<Longrightarrow> E e s) \<Longrightarrow> hoare P m Q E"
  by (fastforce simp: hoare_def split: sum.splits prod.splits)

lemma hoare_if:
  "(b \<Longrightarrow> hoare P m Q E) \<Longrightarrow> (\<not> b \<Longrightarrow> hoare P n Q E) \<Longrightarrow> hoare P (if b then m else n) Q E"
  by simp

lemma case_sum_const [simp]: "(case r of Inl e \<Rightarrow> x | Inr a \<Rightarrow> x) = x"
  by (cases r) simp_all

lemma keeps_iff_hoare: "keeps I m \<longleftrightarrow> hoare I m (\<lambda>_. I) (\<lambda>_. I)"
  by (simp add: keeps_def hoare_def case_prod_beta)

lemma keeps_hoare: "keeps I m \<Longrightarrow> hoare I m (\<lambda>_. I) (\<lambda>_. I)"
  by (simp add: keeps_iff_hoare)


section \<open>Big-endian integers\<close>

text \<open>
  \<^verbatim>\<open>binary.BigEndian.PutUint16/32/64\<close> write the bytes of a number, most significant
  first; \<^verbatim>\<open>Uint16/32/64\<close> read them back.
\<close>

fun be_bytes :: "nat \<Rightarrow> nat \<Rightarrow> bytes" where
  "be_bytes 0 v = []"
| "be_bytes (Suc n) v = word_of_nat (v div 256 ^ n) # be_bytes n v"

definition be_step :: "nat \<Rightarrow> byte \<Rightarrow> nat" where
  "be_step a b = a * 256 + unat b"

definition be_nat :: "bytes \<Rightarrow> nat" where
  "be_nat bs = foldl be_step 0 bs"

definition putUint16 :: "u16 \<Rightarrow> bytes" where
  "putUint16 v = be_bytes 2 (unat v)"

definition putUint32 :: "u32 \<Rightarrow> bytes" where
  "putUint32 v = be_bytes 4 (unat v)"

definition putUint64 :: "u64 \<Rightarrow> bytes" where
  "putUint64 v = be_bytes 8 (unat v)"

definition getUint16 :: "bytes \<Rightarrow> u16" where
  "getUint16 bs = word_of_nat (be_nat bs)"

definition getUint32 :: "bytes \<Rightarrow> u32" where
  "getUint32 bs = word_of_nat (be_nat bs)"

definition getUint64 :: "bytes \<Rightarrow> u64" where
  "getUint64 bs = word_of_nat (be_nat bs)"

lemma length_be_bytes [simp]: "length (be_bytes n v) = n"
  by (induction n) auto

lemma length_putUint [simp]:
  "length (putUint16 a) = 2" "length (putUint32 b) = 4" "length (putUint64 c) = 8"
  by (simp_all add: putUint16_def putUint32_def putUint64_def)

lemma unat_byte: "unat (word_of_nat k :: byte) = k mod 256"
  by (simp add: unat_of_nat)

lemma unat_byte_lt: "unat (b :: byte) < 256"
  using unsigned_less [where ?'a = nat, of b] by simp

lemma foldl_be: "foldl be_step x (be_bytes n v) = x * 256 ^ n + v mod 256 ^ n"
proof (induction n arbitrary: x)
  case 0
  show ?case by simp
next
  case (Suc n)
  have "v mod (256 ^ n * 256) = 256 ^ n * (v div 256 ^ n mod 256) + v mod 256 ^ n"
    by (rule mod_mult2_eq)
  moreover have "foldl be_step x (be_bytes (Suc n) v) =
      (x * 256 + v div 256 ^ n mod 256) * 256 ^ n + v mod 256 ^ n"
    by (simp only: be_bytes.simps foldl_Cons Suc.IH) (simp add: be_step_def unat_byte)
  ultimately show ?case
    by (simp add: algebra_simps)
qed

lemma be_nat_be_bytes: "be_nat (be_bytes n v) = v mod 256 ^ n"
  by (simp add: be_nat_def foldl_be)

lemma foldl_be_lin:
  "foldl be_step x bs = x * 256 ^ length bs + be_nat bs"
  for bs :: bytes
proof (induction bs arbitrary: x rule: rev_induct)
  case Nil
  show ?case by (simp add: be_nat_def)
next
  case (snoc b bs)
  then show ?case by (simp add: be_nat_def be_step_def algebra_simps)
qed

lemma be_nat_Cons: "be_nat (b # bs) = unat b * 256 ^ length bs + be_nat bs"
proof -
  have "be_nat (b # bs) = foldl be_step (unat b) bs"
    by (simp add: be_nat_def be_step_def)
  then show ?thesis by (simp only: foldl_be_lin)
qed

lemma be_nat_bound: "be_nat bs < 256 ^ length bs"
proof (induction bs)
  case Nil
  show ?case by (simp add: be_nat_def)
next
  case (Cons b bs)
  have "unat b + 1 \<le> 256" using unat_byte_lt [of b] by simp
  then have "(unat b + 1) * 256 ^ length bs \<le> 256 * 256 ^ length bs"
    by (rule mult_right_mono) simp
  then have "unat b * 256 ^ length bs + 256 ^ length bs \<le> 256 * 256 ^ length bs"
    by (simp only: add_mult_distrib mult_1)
  with Cons show ?case by (simp only: be_nat_Cons length_Cons power_Suc)
qed

lemma be_bytes_be_nat: "length bs = n \<Longrightarrow> be_bytes n (k * 256 ^ n + be_nat bs) = bs"
proof (induction bs arbitrary: n k)
  case Nil
  then show ?case by simp
next
  case (Cons b bs)
  let ?m = "length bs"
  have lt: "be_nat bs < 256 ^ ?m" by (rule be_nat_bound)
  have n: "n = Suc ?m" using Cons.prems by simp
  have eq: "k * 256 ^ n + be_nat (b # bs) = (k * 256 + unat b) * 256 ^ ?m + be_nat bs"
    by (simp add: be_nat_Cons n algebra_simps)
  have "(k * 256 ^ n + be_nat (b # bs)) div 256 ^ ?m = k * 256 + unat b"
    using lt by (simp only: eq) simp
  moreover have "(word_of_nat (k * 256 + unat b) :: byte) = b"
  proof -
    have "unat (word_of_nat (k * 256 + unat b) :: byte) = unat b"
      using unat_byte_lt [of b] by (simp only: unat_byte) simp
    then show ?thesis by (simp only: word_unat_eq_iff)
  qed
  moreover have "be_bytes ?m ((k * 256 + unat b) * 256 ^ ?m + be_nat bs) = bs"
    by (rule Cons.IH) simp
  ultimately show ?case using eq n by (simp only: be_bytes.simps)
qed

lemma be_bytes_be_nat0 [simp]: "length bs = n \<Longrightarrow> be_bytes n (be_nat bs) = bs"
  using be_bytes_be_nat [of bs n 0] by simp

lemma get_put_uint [simp]:
  "getUint16 (putUint16 a) = a" "getUint32 (putUint32 b) = b" "getUint64 (putUint64 c) = c"
  using unsigned_less [where ?'a = nat, of a] unsigned_less [where ?'a = nat, of b]
    unsigned_less [where ?'a = nat, of c]
  by (simp_all add: getUint16_def putUint16_def getUint32_def putUint32_def
      getUint64_def putUint64_def be_nat_be_bytes)

lemma put_get_uint [simp]:
  "length bs = 2 \<Longrightarrow> putUint16 (getUint16 bs) = bs"
  "length bs = 4 \<Longrightarrow> putUint32 (getUint32 bs) = bs"
  "length bs = 8 \<Longrightarrow> putUint64 (getUint64 bs) = bs"
  using be_nat_bound [of bs]
  by (simp_all add: getUint16_def putUint16_def getUint32_def putUint32_def
      getUint64_def putUint64_def unat_of_nat)


lemma word_less_succ:
  fixes m :: u64
  assumes "m \<noteq> - 1"
  shows "m < m + 1"
proof -
  have "unat m \<noteq> 2 ^ 64 - 1"
  proof
    assume "unat m = 2 ^ 64 - 1"
    then have "unat m = unat (- 1 :: u64)" by (simp add: unsigned_minus_1_eq_mask mask_eq_exp_minus_1)
    with assms show False by (simp only: word_unat_eq_iff)
  qed
  moreover have "unat m < 2 ^ 64" using unsigned_less [where ?'a = nat, of m] by simp
  ultimately have "unat (m + 1) = unat m + 1" by (simp add: unat_word_ariths)
  then show ?thesis by (simp add: word_less_nat_alt)
qed


section \<open>Slices\<close>

text \<open>\<^verbatim>\<open>b[i:j]\<close> of Go, for indices inside the goslice.\<close>

definition goslice :: "nat \<Rightarrow> nat \<Rightarrow> 'a list \<Rightarrow> 'a list" where
  "goslice i j xs = take (j - i) (drop i xs)"

lemma length_goslice [simp]: "j \<le> length xs \<Longrightarrow> length (goslice i j xs) = j - i"
  by (simp add: goslice_def)

lemma goslice_append_mid: "i = length xs \<Longrightarrow> j = i + length ys \<Longrightarrow> goslice i j (xs @ ys @ zs) = ys"
  by (simp add: goslice_def)

lemma goslice_append_right [simp]:
  "length xs \<le> i \<Longrightarrow> goslice i j (xs @ ys) = goslice (i - length xs) (j - length xs) ys"
  by (cases "j \<le> i") (simp_all add: goslice_def)

lemma goslice_append_left [simp]: "j \<le> length xs \<Longrightarrow> goslice i j (xs @ ys) = goslice i j xs"
  by (cases "i \<le> j") (simp_all add: goslice_def)

lemma goslice_all [simp]: "goslice 0 (length xs) xs = xs"
  by (simp add: goslice_def)

lemma goslice_take [simp]: "j \<le> n \<Longrightarrow> goslice i j (take n xs) = goslice i j xs"
proof -
  assume "j \<le> n"
  then have "min (j - i) (n - i) = j - i" by arith
  then show ?thesis by (simp add: goslice_def drop_take min.commute)
qed

end
