(* ===== verification/Protocol.thy ===== *)
theory Protocol
  imports Prelude
begin

unbundle bit_operations_syntax

text \<open>
  The ISFP frame codec, \<^verbatim>\<open>src/internal/protocol/frame.go\<close> and
  \<^verbatim>\<open>codec.go\<close>: the 20-byte header, the encoder and decoder of frames, and the
  decompression of a frame's payload under the size limit. The checksum is CRC-32 (IEEE) as
  \<^verbatim>\<open>hash/crc32\<close> computes it. The compressors (gzip, zstd) are parameters, the record
  \<open>codec\<close>.
\<close>

section \<open>Constants, frames and headers\<close>

definition Magic :: u16 where "Magic = 0x5057"
definition Version :: u8 where "Version = 1"
definition HeaderSize :: nat where "HeaderSize = 20"
definition MaxFrameLen :: nat where "MaxFrameLen = 1048576"
definition MaxDecompressedLen :: nat where "MaxDecompressedLen = 16777216"

definition TypeData :: u8 where "TypeData = 0x01"
definition TypeHeartbeat :: u8 where "TypeHeartbeat = 0x02"
definition TypeControl :: u8 where "TypeControl = 0x03"
definition TypeDataZstd :: u8 where "TypeDataZstd = 0x04"
definition TypeError :: u8 where "TypeError = 0xFF"

definition AckSuccess :: byte where "AckSuccess = 0xff"
definition AckFail :: byte where "AckFail = 0x00"

lemmas frame_consts =
  Magic_def Version_def HeaderSize_def MaxFrameLen_def MaxDecompressedLen_def
lemmas type_consts =
  TypeData_def TypeHeartbeat_def TypeControl_def TypeDataZstd_def TypeError_def
lemmas ack_consts = AckSuccess_def AckFail_def

lemma frame_types_distinct [simp]:
  "TypeData \<noteq> TypeHeartbeat" "TypeDataZstd \<noteq> TypeHeartbeat" "TypeData \<noteq> TypeDataZstd"
  "TypeHeartbeat \<noteq> TypeData" "TypeHeartbeat \<noteq> TypeDataZstd" "TypeDataZstd \<noteq> TypeData"
  by (simp_all add: type_consts)

lemma acks_distinct [simp]: "AckSuccess \<noteq> AckFail" "AckFail \<noteq> AckSuccess"
  by (simp_all add: ack_consts)

datatype proto_err =
    HeartbeatPayload
  | ErrTooLarge nat
  | UnsupportedType u8
  | GzipErr string
  | ZstdErr string
  | HeaderTooShort nat
  | FrameTooShort nat
  | ErrBadMagic u16
  | ErrBadVersion u8
  | LengthMismatch nat nat
  | ErrBadCRC u64
  | DecompressedTooLarge

record Frame =
  fVersion :: u8
  fType :: u8
  fSeq :: u64
  fCRC :: u32
  fPayload :: bytes

record Header =
  hMagic :: u16
  hVersion :: u8
  hType :: u8
  hSeq :: u64
  hLength :: u32
  hCRC :: u32

definition IsHeartbeat :: "Frame \<Rightarrow> bool" where
  "IsHeartbeat f \<longleftrightarrow> fType f = TypeHeartbeat"

definition IsData :: "Frame \<Rightarrow> bool" where
  "IsData f \<longleftrightarrow> fType f = TypeData"

definition IsDataZstd :: "Frame \<Rightarrow> bool" where
  "IsDataZstd f \<longleftrightarrow> fType f = TypeDataZstd"


section \<open>CRC-32\<close>

text \<open>\<^verbatim>\<open>crc32.ChecksumIEEE\<close>: the reflected polynomial \<open>0xEDB88320\<close>, bit by bit.\<close>

definition crc32_shift :: "u32 \<Rightarrow> u32" where
  "crc32_shift c = (if bit c 0 then drop_bit 1 c XOR 0xEDB88320 else drop_bit 1 c)"

definition crc32_byte :: "u32 \<Rightarrow> byte \<Rightarrow> u32" where
  "crc32_byte c b = (crc32_shift ^^ 8) (c XOR ucast b)"

definition ChecksumIEEE :: "bytes \<Rightarrow> u32" where
  "ChecksumIEEE bs = NOT (foldl crc32_byte (NOT 0) bs)"


section \<open>Encoding\<close>

text \<open>
  The compressors of the codec. A compressing call returns the compressed bytes; gzip's writer
  may fail. A reader over compressed bytes either cannot be opened, or delivers some bytes and
  then ends: at the end of the stream (\<open>None\<close>) or with an error.
\<close>

record codec =
  gzip_write :: "bytes \<Rightarrow> string + bytes"
  zstd_encode :: "bytes \<Rightarrow> bytes"
  gzip_read :: "bytes \<Rightarrow> string + (bytes \<times> string option)"
  zstd_read :: "bytes \<Rightarrow> string + (bytes \<times> string option)"

definition putHeader :: "Header \<Rightarrow> bytes" where
  "putHeader h = putUint16 (hMagic h) @ [hVersion h, hType h] @ putUint64 (hSeq h) @
     putUint32 (hLength h) @ putUint32 (hCRC h)"

definition encodeRaw :: "u8 \<Rightarrow> u64 \<Rightarrow> bytes \<Rightarrow> u32 \<Rightarrow> bytes" where
  "encodeRaw typ seq payload crc =
     putHeader \<lparr>hMagic = Magic, hVersion = Version, hType = typ, hSeq = seq,
       hLength = word_of_nat (length payload), hCRC = crc\<rparr> @ payload"

definition gzipCompress :: "codec \<Rightarrow> bytes \<Rightarrow> proto_err + bytes" where
  "gzipCompress cd payload = (case gzip_write cd payload of Inl e \<Rightarrow> Inl (GzipErr e) | Inr b \<Rightarrow> Inr b)"

definition Encode :: "codec \<Rightarrow> u8 \<Rightarrow> u64 \<Rightarrow> bytes \<Rightarrow> proto_err + bytes" where
  "Encode cd typ seq payload =
     (if typ = TypeHeartbeat then
        (if length payload \<noteq> 0 then Inl HeartbeatPayload else Inr (encodeRaw typ seq [] 0))
      else if length payload > MaxDecompressedLen then Inl (ErrTooLarge (length payload))
      else
        (case (if typ = TypeData then gzipCompress cd payload
               else if typ = TypeDataZstd then Inr (zstd_encode cd payload)
               else Inl (UnsupportedType typ)) of
           Inl e \<Rightarrow> Inl e
         | Inr compressed \<Rightarrow>
             if HeaderSize + length compressed > MaxFrameLen
             then Inl (ErrTooLarge (HeaderSize + length compressed))
             else Inr (encodeRaw typ seq compressed (ChecksumIEEE compressed))))"

definition EncodeData :: "codec \<Rightarrow> u64 \<Rightarrow> bytes \<Rightarrow> proto_err + bytes" where
  "EncodeData cd seq lineProtocol = Encode cd TypeData seq lineProtocol"

definition EncodeDataZstd :: "codec \<Rightarrow> u64 \<Rightarrow> bytes \<Rightarrow> proto_err + bytes" where
  "EncodeDataZstd cd seq lineProtocol = Encode cd TypeDataZstd seq lineProtocol"

definition EncodeHeartbeat :: "codec \<Rightarrow> u64 \<Rightarrow> proto_err + bytes" where
  "EncodeHeartbeat cd seq = Encode cd TypeHeartbeat seq []"

text \<open>\<^verbatim>\<open>errors.Is(err, protocol.ErrTooLarge)\<close>.\<close>

fun is_too_large :: "proto_err \<Rightarrow> bool" where
  "is_too_large (ErrTooLarge _) = True"
| "is_too_large _ = False"


section \<open>Decoding\<close>

definition read_header :: "bytes \<Rightarrow> Header" where
  "read_header buf = \<lparr>hMagic = getUint16 (goslice 0 2 buf), hVersion = buf ! 2, hType = buf ! 3,
     hSeq = getUint64 (goslice 4 12 buf), hLength = getUint32 (goslice 12 16 buf),
     hCRC = getUint32 (goslice 16 20 buf)\<rparr>"

definition ParseHeader :: "bytes \<Rightarrow> proto_err + Header" where
  "ParseHeader buf =
     (if length buf < HeaderSize then Inl (HeaderTooShort (length buf))
      else let h = read_header buf in
        if hMagic h \<noteq> Magic then Inl (ErrBadMagic (hMagic h))
        else if hVersion h \<noteq> Version then Inl (ErrBadVersion (hVersion h))
        else if HeaderSize + unat (hLength h) > MaxFrameLen then Inl (ErrTooLarge (unat (hLength h)))
        else Inr h)"

definition Decode :: "bytes \<Rightarrow> proto_err + Frame" where
  "Decode fb =
     (if length fb < HeaderSize then Inl (FrameTooShort (length fb))
      else (case ParseHeader (take HeaderSize fb) of
        Inl e \<Rightarrow> Inl e
      | Inr h \<Rightarrow>
          if length fb \<noteq> HeaderSize + unat (hLength h)
          then Inl (LengthMismatch (unat (hLength h)) (length fb - HeaderSize))
          else let payload = drop HeaderSize fb in
            if ChecksumIEEE payload \<noteq> hCRC h then Inl (ErrBadCRC (hSeq h))
            else Inr \<lparr>fVersion = hVersion h, fType = hType h, fSeq = hSeq h, fCRC = hCRC h,
                   fPayload = payload\<rparr>))"

text \<open>
  \<^verbatim>\<open>io.ReadAll\<close> over a \<^verbatim>\<open>LimitedReader\<close> of \<open>n\<close> bytes: reading stops
  without an error once \<open>n\<close> bytes have been delivered.
\<close>

definition limitedReadAll :: "nat \<Rightarrow> bytes \<times> string option \<Rightarrow> string + bytes" where
  "limitedReadAll n st =
     (if n \<le> length (fst st) then Inr (take n (fst st))
      else case snd st of None \<Rightarrow> Inr (fst st) | Some e \<Rightarrow> Inl e)"

definition gunzip :: "codec \<Rightarrow> bytes \<Rightarrow> proto_err + bytes" where
  "gunzip cd payload =
     (case gzip_read cd payload of
        Inl e \<Rightarrow> Inl (GzipErr e)
      | Inr st \<Rightarrow> (case limitedReadAll (MaxDecompressedLen + 1) st of
          Inl e \<Rightarrow> Inl (GzipErr e) | Inr out \<Rightarrow> Inr out))"

definition Decompress :: "codec \<Rightarrow> Frame \<Rightarrow> proto_err + bytes" where
  "Decompress cd f =
     (case (if fType f = TypeData then gunzip cd (fPayload f)
            else if fType f = TypeDataZstd then
              (case zstd_read cd (fPayload f) of
                 Inl e \<Rightarrow> Inl (ZstdErr e)
               | Inr st \<Rightarrow> (case limitedReadAll (MaxDecompressedLen + 1) st of
                   Inl e \<Rightarrow> Inl (ZstdErr e) | Inr out \<Rightarrow> Inr out))
            else Inl (UnsupportedType (fType f))) of
        Inl e \<Rightarrow> Inl e
      | Inr out \<Rightarrow> if length out > MaxDecompressedLen then Inl DecompressedTooLarge else Inr out)"

text \<open>
  The sequence number of an encoded frame is rewritten in place by the WAL
  (\<^verbatim>\<open>binary.BigEndian.PutUint64(fb[4:12], seq)\<close>).
\<close>

definition rewriteSeq :: "u64 \<Rightarrow> bytes \<Rightarrow> bytes" where
  "rewriteSeq seq fb = take 4 fb @ putUint64 seq @ drop 12 fb"


section \<open>Headers: layout and round trip\<close>

lemma length_putHeader [simp]: "length (putHeader h) = HeaderSize"
  by (simp add: putHeader_def HeaderSize_def)

lemma length_encodeRaw [simp]: "length (encodeRaw typ seq p crc) = HeaderSize + length p"
  by (simp add: encodeRaw_def)

lemma read_putHeader [simp]: "read_header (putHeader h @ rest) = h"
proof -
  have "read_header (putHeader h @ rest) = \<lparr>hMagic = hMagic h, hVersion = hVersion h,
      hType = hType h, hSeq = hSeq h, hLength = hLength h, hCRC = hCRC h\<rparr>"
    by (simp add: read_header_def putHeader_def goslice_def nth_append)
  then show ?thesis by simp
qed

lemma split_header:
  assumes "length buf = 20"
  shows "buf = goslice 0 2 buf @ [buf ! 2, buf ! 3] @ goslice 4 12 buf @ goslice 12 16 buf @ goslice 16 20 buf"
proof (rule nth_equalityI)
  show "length buf = length (goslice 0 2 buf @ [buf ! 2, buf ! 3] @ goslice 4 12 buf @
      goslice 12 16 buf @ goslice 16 20 buf)"
    using assms by simp
  fix i assume "i < length buf"
  with assms have "i \<in> {0..<20}" by simp
  with assms show "buf ! i = (goslice 0 2 buf @ [buf ! 2, buf ! 3] @ goslice 4 12 buf @
      goslice 12 16 buf @ goslice 16 20 buf) ! i"
    by (auto simp: nth_append goslice_def nth_Cons' less_Suc_eq numeral_eq_Suc)
qed

lemma put_read_header [simp]: "length buf = HeaderSize \<Longrightarrow> putHeader (read_header buf) = buf"
  using split_header [of buf] by (simp add: putHeader_def read_header_def HeaderSize_def)

lemma ParseHeader_putHeader:
  assumes "hMagic h = Magic" and "hVersion h = Version"
    and "HeaderSize + unat (hLength h) \<le> MaxFrameLen"
  shows "ParseHeader (putHeader h) = Inr h"
  using assms read_putHeader [of h "[]"]
  by (simp add: ParseHeader_def Let_def del: read_putHeader)

lemma ParseHeader_InrD:
  assumes "ParseHeader buf = Inr h"
  shows "hMagic h = Magic" and "hVersion h = Version"
    and "HeaderSize + unat (hLength h) \<le> MaxFrameLen"
    and "HeaderSize \<le> length buf" and "h = read_header buf"
  using assms by (auto simp: ParseHeader_def Let_def not_less split: if_splits)


section \<open>Frames: decoding inverts encoding\<close>

lemma unat_of_length32: "n < 2 ^ 32 \<Longrightarrow> unat (word_of_nat n :: u32) = n"
  by (simp add: unat_of_nat)

lemma Checksum_empty [simp]: "ChecksumIEEE [] = 0"
  by (simp add: ChecksumIEEE_def)

lemma Decode_encodeRaw:
  assumes "HeaderSize + length p \<le> MaxFrameLen"
  shows "Decode (encodeRaw typ seq p (ChecksumIEEE p)) =
    Inr \<lparr>fVersion = Version, fType = typ, fSeq = seq, fCRC = ChecksumIEEE p, fPayload = p\<rparr>"
proof -
  have len: "unat (word_of_nat (length p) :: u32) = length p"
    using assms by (intro unat_of_length32) (simp add: frame_consts)
  show ?thesis
    using assms by (simp add: Decode_def encodeRaw_def ParseHeader_putHeader len)
qed

lemma Decode_InrD:
  assumes "Decode fb = Inr f"
  shows "fb = encodeRaw (fType f) (fSeq f) (fPayload f) (fCRC f)"
    and "fCRC f = ChecksumIEEE (fPayload f)"
    and "fVersion f = Version"
    and "length fb = HeaderSize + length (fPayload f)"
    and "length fb \<le> MaxFrameLen"
proof -
  have ge: "HeaderSize \<le> length fb"
    using assms by (auto simp: Decode_def not_less split: if_splits)
  from assms obtain h where ph: "ParseHeader (take HeaderSize fb) = Inr h"
    and len: "length fb = HeaderSize + unat (hLength h)"
    and crc: "ChecksumIEEE (drop HeaderSize fb) = hCRC h"
    and f: "f = \<lparr>fVersion = hVersion h, fType = hType h, fSeq = hSeq h, fCRC = hCRC h,
      fPayload = drop HeaderSize fb\<rparr>"
    by (auto simp: Decode_def Let_def split: if_splits sum.splits)
  note H = ParseHeader_InrD [OF ph]
  have "hLength h = word_of_nat (length (drop HeaderSize fb))"
    using len by simp
  then have hd: "\<lparr>hMagic = Magic, hVersion = Version, hType = hType h, hSeq = hSeq h,
      hLength = word_of_nat (length (drop HeaderSize fb)), hCRC = hCRC h\<rparr> = h"
    using H(1,2) by simp
  have "putHeader h = take HeaderSize fb"
    using H(5) ge by simp
  with hd have "encodeRaw (hType h) (hSeq h) (drop HeaderSize fb) (hCRC h) =
      take HeaderSize fb @ drop HeaderSize fb"
    by (simp only: encodeRaw_def)
  then show "fb = encodeRaw (fType f) (fSeq f) (fPayload f) (fCRC f)"
    by (simp add: f)
  show "fCRC f = ChecksumIEEE (fPayload f)" using crc by (simp add: f)
  show "fVersion f = Version" using H(2) by (simp add: f)
  show "length fb = HeaderSize + length (fPayload f)" using ge by (simp add: f)
  show "length fb \<le> MaxFrameLen" using H(3) len by simp
qed

lemma Encode_InrD:
  assumes "Encode cd typ seq payload = Inr fb"
  shows "\<exists>p. fb = encodeRaw typ seq p (ChecksumIEEE p) \<and> HeaderSize + length p \<le> MaxFrameLen \<and>
    (typ = TypeHeartbeat \<and> payload = [] \<and> p = [] \<or>
     typ = TypeData \<and> gzip_write cd payload = Inr p \<or>
     typ = TypeDataZstd \<and> zstd_encode cd payload = p) \<and>
    length payload \<le> MaxDecompressedLen"
  using assms
  by (auto simp: Encode_def gzipCompress_def frame_consts not_less split: if_splits sum.splits)


section \<open>The sequence number of a frame\<close>

lemma encodeRaw_split:
  "encodeRaw typ seq p crc =
    (putUint16 Magic @ [Version, typ]) @ putUint64 seq @
    (putUint32 (word_of_nat (length p)) @ putUint32 crc) @ p"
  by (simp add: encodeRaw_def putHeader_def)

lemma rewriteSeq_encodeRaw: "rewriteSeq s (encodeRaw typ seq p crc) = encodeRaw typ s p crc"
  by (simp add: encodeRaw_split rewriteSeq_def)

lemma length_rewriteSeq: "12 \<le> length fb \<Longrightarrow> length (rewriteSeq s fb) = length fb"
  by (simp add: rewriteSeq_def)

lemma Decode_rewriteSeq:
  assumes "Decode fb = Inr f"
  shows "Decode (rewriteSeq s fb) = Inr (f\<lparr>fSeq := s\<rparr>)"
proof -
  note D = Decode_InrD [OF assms]
  have "rewriteSeq s fb = encodeRaw (fType f) s (fPayload f) (ChecksumIEEE (fPayload f))"
    using D(1,2) rewriteSeq_encodeRaw by metis
  then show ?thesis
    using D(2,3,4,5) Decode_encodeRaw [of "fPayload f" "fType f" s] by simp
qed


section \<open>Decompression\<close>

text \<open>
  What the encoder relies on of the compressors: reading back what was written delivers the
  original bytes and then the end of the stream.
\<close>

definition codec_roundtrip :: "codec \<Rightarrow> bytes \<Rightarrow> bool" where
  "codec_roundtrip cd payload \<longleftrightarrow>
     (\<forall>c. gzip_write cd payload = Inr c \<longrightarrow> gzip_read cd c = Inr (payload, None)) \<and>
     zstd_read cd (zstd_encode cd payload) = Inr (payload, None)"

lemma limitedReadAll_Inr:
  assumes "limitedReadAll (n + 1) st = Inr out" and "length out \<le> n"
  shows "st = (out, None)"
  using assms by (cases st) (auto simp: limitedReadAll_def split: if_splits option.splits)

lemma limitedReadAll_full: "length d \<le> n \<Longrightarrow> limitedReadAll (n + 1) (d, None) = Inr d"
  by (simp add: limitedReadAll_def)

text \<open>The reader that belongs to a frame type.\<close>

definition frame_reader :: "codec \<Rightarrow> u8 \<Rightarrow> bytes \<Rightarrow> string + (bytes \<times> string option)" where
  "frame_reader cd typ p = (if typ = TypeData then gzip_read cd p else zstd_read cd p)"

lemma Decompress_InrD:
  assumes "Decompress cd f = Inr out"
  shows "frame_reader cd (fType f) (fPayload f) = Inr (out, None)"
    and "length out \<le> MaxDecompressedLen"
    and "fType f = TypeData \<or> fType f = TypeDataZstd"
proof -
  show le: "length out \<le> MaxDecompressedLen"
    using assms by (auto simp: Decompress_def not_less split: if_splits sum.splits)
  show ty: "fType f = TypeData \<or> fType f = TypeDataZstd"
    using assms by (auto simp: Decompress_def split: if_splits sum.splits)
  from assms ty obtain st where "frame_reader cd (fType f) (fPayload f) = Inr st"
    and "limitedReadAll (MaxDecompressedLen + 1) st = Inr out"
    by (auto simp: Decompress_def gunzip_def frame_reader_def split: if_splits sum.splits)
  then show "frame_reader cd (fType f) (fPayload f) = Inr (out, None)"
    using le limitedReadAll_Inr by metis
qed

lemma Decompress_written:
  assumes "frame_reader cd (fType f) (fPayload f) = Inr (out, None)"
    and "length out \<le> MaxDecompressedLen" and "fType f = TypeData \<or> fType f = TypeDataZstd"
  shows "Decompress cd f = Inr out"
  using assms limitedReadAll_full [OF assms(2)]
  by (auto simp: Decompress_def gunzip_def frame_reader_def)

section \<open>Properties of the codec\<close>

lemma Encode_decodes:
  assumes "Encode cd typ seq payload = Inr fb" and "typ \<noteq> TypeHeartbeat"
    and "codec_roundtrip cd payload"
  shows "\<exists>f. Decode fb = Inr f \<and> fType f = typ \<and> fSeq f = seq \<and> length fb \<le> MaxFrameLen \<and>
    fCRC f = ChecksumIEEE (fPayload f) \<and> Decompress cd f = Inr payload"
proof -
  from Encode_InrD [OF assms(1)] assms(2) obtain p
    where fb: "fb = encodeRaw typ seq p (ChecksumIEEE p)" and fits: "HeaderSize + length p \<le> MaxFrameLen"
      and p: "typ = TypeData \<and> gzip_write cd payload = Inr p \<or> typ = TypeDataZstd \<and> zstd_encode cd payload = p"
      and le: "length payload \<le> MaxDecompressedLen" by blast
  have "frame_reader cd typ p = Inr (payload, None)"
    using p assms(3) by (auto simp: frame_reader_def codec_roundtrip_def)
  then show ?thesis
    using fb fits p le Decode_encodeRaw [OF fits, of _ seq] by (auto intro: Decompress_written)
qed

text \<open>
  C21: What the encoder writes, the decoder reads: a data frame decodes to its type, sequence
  number and checksum, and decompresses to the payload that was encoded; the frame fits the size
  limit and the payload the limit of the decompressor. The compressor is only assumed to read
  back this payload.
\<close>

theorem encode_decode_decompress:
  assumes "Encode cd typ seq payload = Inr fb" and "typ \<noteq> TypeHeartbeat"
    and "codec_roundtrip cd payload"
  shows "\<exists>f. Decode fb = Inr f \<and> fType f = typ \<and> fSeq f = seq \<and> length fb \<le> MaxFrameLen \<and>
    fCRC f = ChecksumIEEE (fPayload f) \<and> Decompress cd f = Inr payload"
  using assms by (rule Encode_decodes)

text \<open>
  C22: A byte string decodes to a frame exactly when it is the canonical encoding of that frame
  with a matching checksum, within the frame size limit: no two frames share an encoding and
  nothing is read that the encoder could not have written.
\<close>

theorem Decode_canonical:
  "Decode fb = Inr f \<longleftrightarrow>
    fb = encodeRaw (fType f) (fSeq f) (fPayload f) (ChecksumIEEE (fPayload f)) \<and>
    fCRC f = ChecksumIEEE (fPayload f) \<and> fVersion f = Version \<and> length fb \<le> MaxFrameLen"
    (is "?l \<longleftrightarrow> ?r")
proof
  assume ?l
  then show ?r using Decode_InrD [of fb f] by simp
next
  assume r: ?r
  then have "length fb = HeaderSize + length (fPayload f)" by (metis length_encodeRaw)
  with r Decode_encodeRaw [of "fPayload f" "fType f" "fSeq f"] show ?l by simp
qed

text \<open>
  Decompression succeeds exactly when the compressed stream is complete and its whole
  content is within the limit, and then it returns the whole content: a stream that is cut, ends
  in an error or is over the limit is an error, never a silently shortened payload.
\<close>

theorem Decompress_complete:
  "Decompress cd f = Inr out \<longleftrightarrow>
    (fType f = TypeData \<and> gzip_read cd (fPayload f) = Inr (out, None) \<or>
     fType f = TypeDataZstd \<and> zstd_read cd (fPayload f) = Inr (out, None)) \<and>
    length out \<le> MaxDecompressedLen"
  using Decompress_InrD [of cd f out] Decompress_written [of cd f out]
  by (auto simp: frame_reader_def)

text \<open>
  The WAL may give an encoded frame its sequence number afterwards: rewriting the number
  in place leaves a frame that decodes to the same frame with the new number, since the checksum
  covers only the payload.
\<close>

theorem rewriteSeq_decodes:
  assumes "Decode fb = Inr f"
  shows "Decode (rewriteSeq seq fb) = Inr (f\<lparr>fSeq := seq\<rparr>)"
  using assms by (rule Decode_rewriteSeq)

text \<open>A codec that stores its input, for concrete frames.\<close>

definition stored_codec :: codec where
  "stored_codec = \<lparr>gzip_write = Inr, zstd_encode = id, gzip_read = (\<lambda>b. Inr (b, None)),
     zstd_read = (\<lambda>b. Inr (b, None))\<rparr>"

lemma stored_codec_roundtrip: "codec_roundtrip stored_codec p"
  by (simp add: codec_roundtrip_def stored_codec_def)

lemma Encode_stored:
  assumes "typ = TypeData \<or> typ = TypeDataZstd" and "HeaderSize + length p \<le> MaxFrameLen"
  shows "Encode stored_codec typ seq p = Inr (encodeRaw typ seq p (ChecksumIEEE p))"
  using assms by (auto simp: Encode_def gzipCompress_def stored_codec_def frame_consts)

theorem encode_decode_decompress_witness:
  "\<exists>fb f. Encode stored_codec TypeDataZstd 7 [0x61] = Inr fb \<and> Decode fb = Inr f \<and>
    fSeq f = 7 \<and> fCRC f = 0xE8B7BE43 \<and> Decompress stored_codec f = Inr [0x61]"
proof -
  have len: "HeaderSize + length [0x61 :: byte] \<le> MaxFrameLen" by (simp add: frame_consts)
  have crc: "ChecksumIEEE [0x61] = 0xE8B7BE43" by code_simp
  have e: "Encode stored_codec TypeDataZstd 7 [0x61] =
      Inr (encodeRaw TypeDataZstd 7 [0x61] 0xE8B7BE43)"
    using Encode_stored [OF disjI2 len] crc by simp
  from encode_decode_decompress [OF e _ stored_codec_roundtrip] obtain f
    where f: "Decode (encodeRaw TypeDataZstd 7 [0x61] 0xE8B7BE43) = Inr f"
      "fSeq f = 7" "fCRC f = ChecksumIEEE (fPayload f)" "Decompress stored_codec f = Inr [0x61]"
    by auto
  have "fCRC f = 0xE8B7BE43" using f(1) Decode_encodeRaw [OF len, of TypeDataZstd 7] crc by simp
  with e f show ?thesis by blast
qed

theorem rewriteSeq_decodes_witness:
  "Decode (rewriteSeq 9 (encodeRaw TypeData 0 [] 0)) =
    Inr \<lparr>fVersion = Version, fType = TypeData, fSeq = 9, fCRC = 0, fPayload = []\<rparr>"
proof -
  have "HeaderSize + length ([] :: bytes) \<le> MaxFrameLen" by (simp add: frame_consts)
  then have "Decode (encodeRaw TypeData 0 [] 0) =
      Inr \<lparr>fVersion = Version, fType = TypeData, fSeq = 0, fCRC = 0, fPayload = []\<rparr>"
    using Decode_encodeRaw [of "[]" TypeData 0] by simp
  from rewriteSeq_decodes [OF this, of 9] show ?thesis by simp
qed

end
