(* ===== verification/Wal_Segment.thy ===== *)
theory Wal_Segment
  imports Protocol
begin

text \<open>
  The contents of one WAL segment file, \<^verbatim>\<open>src/internal/wal/wal.go\<close>: the record format
  \<^verbatim>\<open>[u32 len][frame]\<close>, the scan that rebuilds the frame index when a WAL is opened
  (\<^verbatim>\<open>indexSegment\<close>) and the search for the next record after a corrupt one
  (\<^verbatim>\<open>resyncRecord\<close>). A segment is its bytes; the scan is a function of them, and its
  verdict says whether the file is to be truncated. Reads of a segment do not fail here; the
  operations on files are in theory \<open>Wal\<close>.
\<close>

section \<open>Records\<close>

definition recordHeadLen :: nat where "recordHeadLen = 4"

lemmas wal_consts = recordHeadLen_def HeaderSize_def MaxFrameLen_def

record frameIndex =
  fi_seg :: int
  fi_offset :: nat
  fi_length :: nat
  fi_seq :: u64
  fi_typ :: u8

definition encodeRecord :: "bytes \<Rightarrow> bytes" where
  "encodeRecord fb = putUint32 (word_of_nat (length fb)) @ fb"

text \<open>The number in the record head at offset \<open>p\<close>, and the frame header behind it.\<close>

definition recLen :: "bytes \<Rightarrow> nat \<Rightarrow> nat" where
  "recLen c p = unat (getUint32 (goslice p (p + recordHeadLen) c))"

definition recHeader :: "bytes \<Rightarrow> nat \<Rightarrow> proto_err + Header" where
  "recHeader c p = ParseHeader (goslice (p + recordHeadLen) (p + recordHeadLen + HeaderSize) c)"

section \<open>Resynchronisation\<close>

definition resyncAt :: "bytes \<Rightarrow> nat \<Rightarrow> bool" where
  "resyncAt c p =
     (let len = recLen c p in
        if len = 0 \<or> len > MaxFrameLen then False
        else if p + recordHeadLen + len > length c then False
        else (case recHeader c p of
                Inl _ \<Rightarrow> False
              | Inr hdr \<Rightarrow> len = HeaderSize + unat (hLength hdr)))"

function resync_from :: "bytes \<Rightarrow> nat \<Rightarrow> nat \<Rightarrow> nat option" where
  "resync_from c limit p =
     (if p + (recordHeadLen + HeaderSize) \<le> limit
      then (if resyncAt c p then Some p else resync_from c limit (Suc p))
      else None)"
  by pat_completeness auto
termination
  by (relation "measure (\<lambda>(c, limit, p). limit - p)") (auto simp: wal_consts)

declare resync_from.simps [simp del]

definition resyncRecord :: "bytes \<Rightarrow> nat \<Rightarrow> nat option" where
  "resyncRecord c badOff =
     resync_from c (min (badOff + (MaxFrameLen + recordHeadLen)) (length c)) (badOff + 1)"

lemma resync_from_Some:
  "resync_from c limit p = Some q \<Longrightarrow>
    p \<le> q \<and> q + (recordHeadLen + HeaderSize) \<le> limit \<and> resyncAt c q \<and>
    (\<forall>r. p \<le> r \<and> r < q \<longrightarrow> \<not> resyncAt c r)"
proof (induction c limit p rule: resync_from.induct)
  case (1 c limit p)
  show ?case
  proof (cases "p + (recordHeadLen + HeaderSize) \<le> limit \<and> \<not> resyncAt c p")
    case True
    with "1.prems" have "resync_from c limit (Suc p) = Some q"
      by (simp add: resync_from.simps [of c limit p])
    with "1.IH" True have "Suc p \<le> q \<and> q + (recordHeadLen + HeaderSize) \<le> limit \<and>
        resyncAt c q \<and> (\<forall>r. Suc p \<le> r \<and> r < q \<longrightarrow> \<not> resyncAt c r)"
      by simp
    with True show ?thesis by (metis Suc_leD le_antisym not_less_eq_eq)
  next
    case False
    with "1.prems" show ?thesis
      by (auto simp: resync_from.simps [of c limit p] split: if_splits)
  qed
qed

lemma resync_from_None_iff:
  "resync_from c limit p = None \<longleftrightarrow>
    (\<forall>q. p \<le> q \<and> q + (recordHeadLen + HeaderSize) \<le> limit \<longrightarrow> \<not> resyncAt c q)"
proof (induction c limit p rule: resync_from.induct)
  case (1 c limit p)
  show ?case
  proof (cases "p + (recordHeadLen + HeaderSize) \<le> limit \<and> \<not> resyncAt c p")
    case True
    then have "(resync_from c limit p = None) = (\<forall>q. Suc p \<le> q \<and>
        q + (recordHeadLen + HeaderSize) \<le> limit \<longrightarrow> \<not> resyncAt c q)"
      using "1.IH" by (simp add: resync_from.simps [of c limit p])
    also have "\<dots> = (\<forall>q. p \<le> q \<and> q + (recordHeadLen + HeaderSize) \<le> limit \<longrightarrow> \<not> resyncAt c q)"
      using True by (metis Suc_leD le_antisym not_less_eq_eq)
    finally show ?thesis .
  next
    case False
    then show ?thesis
      by (auto simp: resync_from.simps [of c limit p])
  qed
qed

lemma resyncRecord_gt: "resyncRecord c off = Some p \<Longrightarrow> off < p \<and> p < length c"
  by (auto simp: resyncRecord_def wal_consts dest!: resync_from_Some)

section \<open>The scan of a segment\<close>

text \<open>
  What the loop of \<^verbatim>\<open>indexSegment\<close> finds at an offset: the end of the file, a record
  head or frame header that is cut off, a record that cannot be right, or a record.
\<close>

datatype scan_rec = RecEof | RecTorn | RecBad | RecOk nat Header

definition scanRecord :: "bytes \<Rightarrow> nat \<Rightarrow> scan_rec" where
  "scanRecord c off =
     (if length c \<le> off then RecEof
      else if length c < off + recordHeadLen then RecTorn
      else let len = recLen c off in
        if len = 0 \<or> len > MaxFrameLen then RecBad
        else if length c < off + recordHeadLen + HeaderSize then RecTorn
        else (case recHeader c off of
                Inl _ \<Rightarrow> RecBad
              | Inr hdr \<Rightarrow> if len \<noteq> HeaderSize + unat (hLength hdr) then RecBad else RecOk len hdr))"

datatype scan_end = ScanEof | ScanTorn nat | ScanCorruptAcked nat

definition skipCorrupt :: "bytes \<Rightarrow> nat \<Rightarrow> nat \<Rightarrow> scan_end + nat" where
  "skipCorrupt c skip badOff =
     (case resyncRecord c badOff of
        Some next \<Rightarrow> Inr next
      | None \<Rightarrow> if badOff < skip then Inl (ScanCorruptAcked badOff) else Inl (ScanTorn badOff))"

lemma skipCorrupt_gt: "skipCorrupt c skip off = Inr p \<Longrightarrow> off < p \<and> p < length c"
  by (auto simp: skipCorrupt_def dest: resyncRecord_gt split: option.splits if_splits)

lemma scanRecord_OkD:
  "scanRecord c off = RecOk len h \<Longrightarrow>
    len = HeaderSize + unat (hLength h) \<and> len = recLen c off \<and> recHeader c off = Inr h \<and>
    off + recordHeadLen + HeaderSize \<le> length c \<and> len \<le> MaxFrameLen"
  by (auto simp: scanRecord_def Let_def not_less split: if_splits sum.splits)

function scanLoop :: "int \<Rightarrow> bytes \<Rightarrow> nat \<Rightarrow> nat \<Rightarrow> frameIndex list \<Rightarrow> frameIndex list \<times> scan_end" where
  "scanLoop idx c skip off acc =
     (case scanRecord c off of
        RecEof \<Rightarrow> (acc, ScanEof)
      | RecTorn \<Rightarrow> (acc, case skipCorrupt c skip off of Inl e \<Rightarrow> e | Inr _ \<Rightarrow> ScanEof)
      | RecBad \<Rightarrow> (case skipCorrupt c skip off of
                    Inl e \<Rightarrow> (acc, e)
                  | Inr next \<Rightarrow> scanLoop idx c skip next acc)
      | RecOk len hdr \<Rightarrow>
          scanLoop idx c skip (off + recordHeadLen + len)
            (if off + recordHeadLen + len \<le> skip then acc
             else acc @ [\<lparr>fi_seg = idx, fi_offset = off, fi_length = len,
                           fi_seq = hSeq hdr, fi_typ = hType hdr\<rparr>]))"
  by pat_completeness auto
termination
proof (relation "measure (\<lambda>(idx, c, skip, off, acc). length c - off)", goal_cases)
  case 1
  show ?case by simp
next
  case (2 idx c skip off acc nxt)
  then show ?case by (auto dest!: skipCorrupt_gt)
next
  case (3 idx c skip off acc len hdr)
  then show ?case by (auto dest!: scanRecord_OkD simp: wal_consts)
qed

declare scanLoop.simps [simp del]

section \<open>What the scan finds\<close>

text \<open>
  A well-formed frame: its header parses and its length is the one the header gives. This is
  what \<^verbatim>\<open>protocol.Encode\<close> writes.
\<close>

definition wf_frame :: "bytes \<Rightarrow> bool" where
  "wf_frame fb = (case ParseHeader (take HeaderSize fb) of
     Inl _ \<Rightarrow> False | Inr h \<Rightarrow> length fb = HeaderSize + unat (hLength h))"

definition frame_entry :: "int \<Rightarrow> nat \<Rightarrow> bytes \<Rightarrow> frameIndex" where
  "frame_entry idx off fb = \<lparr>fi_seg = idx, fi_offset = off, fi_length = length fb,
     fi_seq = hSeq (read_header fb), fi_typ = hType (read_header fb)\<rparr>"

text \<open>The index of a list of records that starts at an offset, without the acknowledged ones.\<close>

fun entries :: "int \<Rightarrow> nat \<Rightarrow> nat \<Rightarrow> bytes list \<Rightarrow> frameIndex list" where
  "entries idx skip off [] = []"
| "entries idx skip off (fb # fbs) =
     (if off + recordHeadLen + length fb \<le> skip then [] else [frame_entry idx off fb]) @
     entries idx skip (off + recordHeadLen + length fb) fbs"

abbreviation records :: "bytes list \<Rightarrow> bytes" where
  "records fbs \<equiv> concat (map encodeRecord fbs)"

lemma read_header_take [simp]:
  "HeaderSize \<le> length fb \<Longrightarrow> read_header (take HeaderSize fb) = read_header fb"
  by (simp add: read_header_def HeaderSize_def)

lemma wf_frameD:
  assumes "wf_frame fb"
  shows "HeaderSize \<le> length fb" and "length fb \<le> MaxFrameLen"
    and "ParseHeader (take HeaderSize fb) = Inr (read_header fb)"
    and "length fb = HeaderSize + unat (hLength (read_header fb))"
proof -
  from assms obtain h where ph: "ParseHeader (take HeaderSize fb) = Inr h"
    and len: "length fb = HeaderSize + unat (hLength h)"
    by (auto simp: wf_frame_def split: sum.splits)
  note H = ParseHeader_InrD [OF ph]
  show ge: "HeaderSize \<le> length fb" using len by simp
  show "length fb \<le> MaxFrameLen" using H(3) len by simp
  have "h = read_header fb" using H(5) ge by simp
  with ph len show "ParseHeader (take HeaderSize fb) = Inr (read_header fb)"
    and "length fb = HeaderSize + unat (hLength (read_header fb))" by simp_all
qed

lemma wf_frame_Decode: "Decode fb = Inr f \<Longrightarrow> wf_frame fb"
  by (auto simp: Decode_def wf_frame_def Let_def split: if_splits sum.splits)

lemma length_encodeRecord [simp]: "length (encodeRecord fb) = recordHeadLen + length fb"
  by (simp add: encodeRecord_def recordHeadLen_def)

lemma goslice_skip: "goslice (length pre + i) (length pre + j) (pre @ xs) = goslice i j xs"
  by simp

lemma recLen_at:
  assumes "wf_frame fb"
  shows "recLen (pre @ encodeRecord fb @ rest) (length pre) = length fb"
proof -
  have "length fb < 2 ^ 32"
    using wf_frameD(2) [OF assms] by (simp add: MaxFrameLen_def)
  then show ?thesis
    using goslice_skip [of pre 0 recordHeadLen "encodeRecord fb @ rest"]
    by (simp add: recLen_def encodeRecord_def recordHeadLen_def unat_of_length32 goslice_def)
qed

lemma recLen_torn:
  assumes "wf_frame fb" and "recordHeadLen \<le> n"
  shows "recLen (pre @ take n (encodeRecord fb)) (length pre) = length fb"
proof -
  have "goslice (length pre) (length pre + recordHeadLen) (pre @ take n (encodeRecord fb)) =
      goslice (length pre) (length pre + recordHeadLen) (pre @ encodeRecord fb)"
    using assms(2) goslice_skip [of pre 0] by simp
  then show ?thesis
    using recLen_at [OF assms(1), of pre "[]"] by (simp add: recLen_def)
qed

lemma recHeader_at:
  assumes "wf_frame fb" and "recordHeadLen + HeaderSize \<le> n"
  shows "recHeader (pre @ take n (encodeRecord fb) @ rest) (length pre) = Inr (read_header fb)"
proof -
  have "goslice (length pre + recordHeadLen) (length pre + recordHeadLen + HeaderSize)
      (pre @ take n (encodeRecord fb) @ rest) = take HeaderSize fb"
    using assms(2) wf_frameD(1) [OF assms(1)]
      goslice_skip [of pre recordHeadLen "recordHeadLen + HeaderSize"]
    by (simp add: add.assoc goslice_def encodeRecord_def recordHeadLen_def HeaderSize_def)
  then show ?thesis
    using wf_frameD(3) [OF assms(1)] by (simp add: recHeader_def)
qed

lemma wf_frame_len: "wf_frame fb \<Longrightarrow> 0 < length fb \<and> length fb \<le> MaxFrameLen"
  using wf_frameD(1,2) [of fb] by (auto simp: HeaderSize_def)

lemma recHeader_full:
  assumes "wf_frame fb"
  shows "recHeader (pre @ encodeRecord fb @ rest) (length pre) = Inr (read_header fb)"
  using recHeader_at [OF assms, of "recordHeadLen + length fb" pre rest] wf_frameD(1) [OF assms]
  by simp

lemma scanRecord_OkI:
  assumes "off + recordHeadLen + HeaderSize \<le> length c" and "recLen c off = len"
    and "recHeader c off = Inr h" and "len = HeaderSize + unat (hLength h)" and "len \<le> MaxFrameLen"
  shows "scanRecord c off = RecOk len h"
  using assms by (auto simp: scanRecord_def Let_def wal_consts)

lemma scanRecord_at:
  assumes "wf_frame fb"
  shows "scanRecord (pre @ encodeRecord fb @ rest) (length pre) = RecOk (length fb) (read_header fb)"
  using wf_frameD [OF assms]
  by (intro scanRecord_OkI) (simp_all add: recLen_at [OF assms] recHeader_full [OF assms])

lemma resyncAt_valid:
  assumes "wf_frame fb"
  shows "resyncAt (pre @ encodeRecord fb @ rest) (length pre)"
  using wf_frameD(4) [OF assms] wf_frame_len [OF assms]
  by (auto simp: resyncAt_def Let_def recLen_at [OF assms] recHeader_full [OF assms])

text \<open>The records of a segment are found in their order, whatever follows them.\<close>

lemma scanLoop_records:
  assumes "\<forall>fb\<in>set fbs. wf_frame fb"
  shows "scanLoop idx (pre @ records fbs @ rest) skip (length pre) acc =
    scanLoop idx (pre @ records fbs @ rest) skip (length pre + length (records fbs))
      (acc @ entries idx skip (length pre) fbs)"
  using assms
proof (induction fbs arbitrary: pre acc)
  case Nil
  show ?case by simp
next
  case (Cons fb fbs)
  let ?c = "pre @ encodeRecord fb @ records fbs @ rest"
  have wf: "wf_frame fb" using Cons.prems by simp
  have "scanLoop idx ?c skip (length pre) acc =
      scanLoop idx ?c skip (length pre + recordHeadLen + length fb)
        (acc @ entries idx skip (length pre) [fb])"
    by (subst scanLoop.simps) (simp add: scanRecord_at [OF wf] frame_entry_def)
  also have "\<dots> = scanLoop idx ?c skip (length pre + length (records (fb # fbs)))
      ((acc @ entries idx skip (length pre) [fb]) @
        entries idx skip (length pre + recordHeadLen + length fb) fbs)"
    using Cons.IH [of "pre @ encodeRecord fb"] Cons.prems by (simp add: add.assoc)
  finally show ?case by simp
qed

lemma resync_short_tail:
  assumes "length c < off + recordHeadLen + HeaderSize"
  shows "resyncRecord c off = None"
  using assms by (auto simp: resyncRecord_def resync_from_None_iff)

lemma scanLoop_short_tail:
  assumes "tail \<noteq> []" and "length tail < recordHeadLen + HeaderSize" and "skip \<le> length pre"
  shows "scanLoop idx (pre @ tail) skip (length pre) acc = (acc, ScanTorn (length pre))"
proof -
  have none: "resyncRecord (pre @ tail) (length pre) = None"
    using assms(2) by (intro resync_short_tail) simp
  have "scanRecord (pre @ tail) (length pre) \<in> {RecTorn, RecBad}"
    using assms(1,2) by (auto simp: scanRecord_def Let_def)
  then show ?thesis
    using assms(3) by (subst scanLoop.simps) (auto simp: skipCorrupt_def none)
qed

lemma scanLoop_eof: "scanLoop idx c skip (length c) acc = (acc, ScanEof)"
  by (subst scanLoop.simps) (simp add: scanRecord_def)

lemma scanLoop_past_eof: "length c \<le> off \<Longrightarrow> scanLoop idx c skip off acc = (acc, ScanEof)"
  by (subst scanLoop.simps) (simp add: scanRecord_def)

lemma scanLoop_torn_body:
  assumes "wf_frame fb" and "recordHeadLen + HeaderSize \<le> n" and "n \<le> recordHeadLen + length fb"
  shows "scanLoop idx (pre @ take n (encodeRecord fb)) skip (length pre) acc =
    (acc @ entries idx skip (length pre) [fb], ScanEof)"
proof -
  let ?c = "pre @ take n (encodeRecord fb)"
  have "scanRecord ?c (length pre) = RecOk (length fb) (read_header fb)"
    using assms wf_frameD [OF assms(1)] recLen_torn [OF assms(1), of n pre]
      recHeader_at [OF assms(1,2), of pre "[]"]
    by (intro scanRecord_OkI) simp_all
  then show ?thesis
    using assms(3)
    by (subst scanLoop.simps) (simp add: scanLoop_past_eof frame_entry_def)
qed

section \<open>Corrupt records in the middle\<close>

lemma resync_reaches:
  assumes "wf_frame fb" and "bad \<noteq> []"
    and "length bad + HeaderSize \<le> MaxFrameLen"
  shows "\<exists>p. resyncRecord (pre @ bad @ encodeRecord fb @ rest) (length pre) = Some p \<and>
    length pre < p \<and> p \<le> length pre + length bad"
proof -
  let ?c = "pre @ bad @ encodeRecord fb @ rest" and ?q = "length pre + length bad"
  let ?lim = "min (length pre + (MaxFrameLen + recordHeadLen)) (length ?c)"
  have at: "resyncAt ?c ?q"
    using resyncAt_valid [OF assms(1), of "pre @ bad" rest] by simp
  have lim: "?q + (recordHeadLen + HeaderSize) \<le> ?lim"
    using assms(3) wf_frameD(1) [OF assms(1)] by simp
  have start: "length pre + 1 \<le> ?q" using assms(2) by (cases bad) auto
  have "resync_from ?c ?lim (length pre + 1) \<noteq> None"
    using at lim start unfolding resync_from_None_iff by blast
  then obtain p where p: "resync_from ?c ?lim (length pre + 1) = Some p" by blast
  note P = resync_from_Some [OF p]
  have "p \<le> ?q"
    using P at start not_less by blast
  then show ?thesis using P p by (auto simp: resyncRecord_def)
qed

lemma resync_exact:
  assumes "wf_frame fb" and "bad \<noteq> []" and "length bad + HeaderSize \<le> MaxFrameLen"
    and "\<forall>q. length pre < q \<and> q < length pre + length bad \<longrightarrow>
           \<not> resyncAt (pre @ bad @ encodeRecord fb @ rest) q"
  shows "resyncRecord (pre @ bad @ encodeRecord fb @ rest) (length pre) = Some (length pre + length bad)"
proof -
  obtain p where p: "resyncRecord (pre @ bad @ encodeRecord fb @ rest) (length pre) = Some p"
    and le: "length pre < p" "p \<le> length pre + length bad"
    using resync_reaches [OF assms(1-3)] by blast
  have "resyncAt (pre @ bad @ encodeRecord fb @ rest) p"
    using p by (auto simp: resyncRecord_def dest: resync_from_Some)
  with assms(4) le have "p = length pre + length bad"
    using nat_less_le by blast
  with p show ?thesis by simp
qed

lemma recLen_zeros:
  assumes "length pre \<le> q" and "q + recordHeadLen \<le> length pre + n"
  shows "recLen (pre @ replicate n 0 @ rest) q = 0"
proof -
  have "goslice q (q + recordHeadLen) (pre @ replicate n 0 @ rest) = replicate recordHeadLen 0"
    using assms by (simp add: goslice_def)
  then show ?thesis
    by (simp add: recLen_def getUint32_def be_nat_def be_step_def recordHeadLen_def numeral_eq_Suc)
qed

lemma resync_misses_after_max:
  "resyncRecord (pre @ replicate (MaxFrameLen + recordHeadLen) 0 @ rest) (length pre) = None"
proof -
  let ?z = "replicate (MaxFrameLen + recordHeadLen) 0 :: bytes"
  have "\<not> resyncAt (pre @ ?z @ rest) q"
    if "length pre + 1 \<le> q" "q + (recordHeadLen + HeaderSize) \<le> length pre + (MaxFrameLen + recordHeadLen)"
    for q
    using that recLen_zeros [of pre q "MaxFrameLen + recordHeadLen" rest]
    by (simp add: resyncAt_def Let_def)
  then show ?thesis
    by (auto simp: resyncRecord_def resync_from_None_iff)
qed

end
