(* ===== verification/Wal.thy ===== *)
theory Wal
  imports Wal_Segment
begin

text \<open>
  The segmented write-ahead log, \<^verbatim>\<open>src/internal/wal/wal.go\<close>,
  \<^verbatim>\<open>cursor.go\<close> and \<^verbatim>\<open>dlq.go\<close>. The state is the \<open>WAL\<close> struct
  together with the directory it writes to; an operation is a function from the state to an
  error or a result and the state it leaves. Every call into the file system takes its outcome
  from the directory's list of outcomes: the empty list means that all further calls succeed, so
  a theorem about an arbitrary list covers every pattern of I/O failures.
\<close>

section \<open>State\<close>

definition DefaultSegmentSize :: int where "DefaultSegmentSize = 67108864"
definition DefaultDLQMaxSize :: int where "DefaultDLQMaxSize = 1073741824"
definition checkpointInterval :: int where "checkpointInterval = 1000000000"

definition BackfillNoneNs :: int where "BackfillNoneNs = 0"
definition BackfillAllNs :: int where "BackfillAllNs = -1"

record checkpoint =
  CursorNs :: int
  NextSeq :: u64
  SegStart :: int
  AckedBytes :: int
  BackfillNs :: int

definition zero_checkpoint :: checkpoint where
  "zero_checkpoint = \<lparr>CursorNs = 0, NextSeq = 0, SegStart = 0, AckedBytes = 0, BackfillNs = 0\<rparr>"

text \<open>
  The checkpoint file: absent, unreadable, written before the \<^verbatim>\<open>backfill_ns\<close> field
  existed, or current.
\<close>

datatype ckpt_file = CkptNone | CkptBad | CkptLegacy checkpoint | Ckpt checkpoint

text \<open>The outcome of a file system call. A failing write may have written some bytes.\<close>

datatype outcome = IoOk | IoFail nat

text \<open>An open file: none, open on a segment, or closed but still referenced.\<close>

datatype handle = HNil | HOpen int | HClosed

record disk =
  segs :: "(int \<times> bytes) list"
  ckpt :: ckpt_file
  dlqFrames :: "(u64 \<times> bytes) list"
  dlqMetas :: "(u64 \<times> string) list"
  flocked :: bool
  outcomes :: "outcome list"

record wal =
  segSize :: int
  dlqMax :: int
  cp :: checkpoint
  index :: "frameIndex list"
  acked :: nat
  curSeg :: int
  curFile :: handle
  curOffset :: nat
  lockHeld :: bool
  lastCp :: "int option"
  notify :: bool
  legacyCheckpoint :: bool
  dsk :: disk

datatype wal_err =
    ErrEmpty
  | ErrIo string
  | ErrLocked
  | ErrCheckpoint
  | ErrCorruptAcked int nat
  | ErrOutOfOrderAppend u64 u64
  | ErrFrameTooShort nat
  | ErrEncode proto_err
  | ErrCommitOutOfOrder u64 u64
  | PanicIndex
  | CommitDiverges
  | ErrCursorRegress int int
  | ErrDlqUnknown u64
  | ErrDlqOverCapacity nat

type_synonym 'a walM = "(wal, wal_err, 'a) op"

section \<open>Calls into the file system\<close>

definition set_segs :: "(int \<times> bytes) list \<Rightarrow> wal \<Rightarrow> wal" where
  "set_segs ss w = w\<lparr>dsk := (dsk w)\<lparr>segs := ss\<rparr>\<rparr>"

definition io :: "string \<Rightarrow> unit walM" where
  "io what w =
     (case outcomes (dsk w) of
        [] \<Rightarrow> (Inr (), w)
      | IoOk # os \<Rightarrow> (Inr (), w\<lparr>dsk := (dsk w)\<lparr>outcomes := os\<rparr>\<rparr>)
      | IoFail n # os \<Rightarrow> (Inl (ErrIo what), w\<lparr>dsk := (dsk w)\<lparr>outcomes := os\<rparr>\<rparr>))"

definition seg_bytes :: "disk \<Rightarrow> int \<Rightarrow> bytes" where
  "seg_bytes d k = (case map_of (segs d) k of None \<Rightarrow> [] | Some c \<Rightarrow> c)"

text \<open>A write to the current segment, opened with \<^verbatim>\<open>O_APPEND\<close>.\<close>

definition writeCur :: "string \<Rightarrow> bytes \<Rightarrow> unit walM" where
  "writeCur what bs w =
     (case curFile w of
        HOpen k \<Rightarrow>
          (case outcomes (dsk w) of
             IoFail n # os \<Rightarrow> (Inl (ErrIo what),
               w\<lparr>dsk := (dsk w)\<lparr>outcomes := os,
                   segs := AList.update k (seg_bytes (dsk w) k @ take n bs) (segs (dsk w))\<rparr>\<rparr>)
           | os \<Rightarrow> (Inr (),
               w\<lparr>dsk := (dsk w)\<lparr>outcomes := tl os,
                   segs := AList.update k (seg_bytes (dsk w) k @ bs) (segs (dsk w))\<rparr>\<rparr>))
      | _ \<Rightarrow> (Inl (ErrIo what), w))"

definition syncCur :: "string \<Rightarrow> unit walM" where
  "syncCur what w = (case curFile w of HOpen _ \<Rightarrow> io what w | _ \<Rightarrow> (Inl (ErrIo what), w))"

text \<open>\<^verbatim>\<open>curFile.Close()\<close>: a second close of the same file is an error.\<close>

definition closeCur :: "string \<Rightarrow> unit walM" where
  "closeCur what w =
     (case curFile w of
        HOpen _ \<Rightarrow> io what (w\<lparr>curFile := HClosed\<rparr>)
      | _ \<Rightarrow> (Inl (ErrIo what), w))"

definition removeSeg :: "string \<Rightarrow> int \<Rightarrow> unit walM" where
  "removeSeg what k =
     thenE (io what) (modifyE (\<lambda>w. set_segs (AList.delete k (segs (dsk w))) w))"

definition readAt :: "bytes option \<Rightarrow> nat \<Rightarrow> nat \<Rightarrow> bytes option" where
  "readAt c off len =
     (case c of
        None \<Rightarrow> None
      | Some b \<Rightarrow> if off + len \<le> length b then Some (goslice off (off + len) b) else None)"

section \<open>Checkpoint\<close>

definition loadCheckpoint :: "unit walM" where
  "loadCheckpoint w =
     (case ckpt (dsk w) of
        CkptNone \<Rightarrow> (Inr (), w\<lparr>cp := zero_checkpoint, legacyCheckpoint := False\<rparr>)
      | CkptBad \<Rightarrow> (Inl ErrCheckpoint, w)
      | CkptLegacy c \<Rightarrow> (Inr (), w\<lparr>cp := c, legacyCheckpoint := True\<rparr>)
      | Ckpt c \<Rightarrow> (Inr (), w\<lparr>cp := c, legacyCheckpoint := False\<rparr>))"

text \<open>Write a temporary file, sync it, rename it over the old one, sync the directory.\<close>

definition saveCheckpoint :: "unit walM" where
  "saveCheckpoint =
     thenE (io ''create checkpoint tmp'') (
     thenE (io ''write checkpoint'') (
     thenE (io ''fsync checkpoint'') (
     thenE (io ''close checkpoint'') (
     thenE (io ''rename checkpoint'') (
     thenE (modifyE (\<lambda>w. w\<lparr>dsk := (dsk w)\<lparr>ckpt := Ckpt (cp w)\<rparr>\<rparr>))
       (io ''fsync dir''))))))"

definition persistLocked :: "int \<Rightarrow> unit walM" where
  "persistLocked now = thenE saveCheckpoint (modifyE (\<lambda>w. w\<lparr>lastCp := Some now\<rparr>))"

definition persistLockedThrottled :: "int \<Rightarrow> unit walM" where
  "persistLockedThrottled now =
     getE (\<lambda>w. case lastCp w of
       Some t \<Rightarrow> if now - t < checkpointInterval then retE () else persistLocked now
     | None \<Rightarrow> persistLocked now)"

section \<open>Opening a WAL\<close>

text \<open>
  \<^verbatim>\<open>indexSegment\<close>: the scan of the segment's bytes, then the truncation it asks for.
\<close>

definition indexSegment :: "int \<Rightarrow> nat \<Rightarrow> unit walM" where
  "indexSegment idx skip =
     thenE (io ''open segment'') (
     thenE (io ''stat segment'') (
     getE (\<lambda>w.
       let c = seg_bytes (dsk w) idx; (found, e) = scanLoop idx c skip 0 (index w) in
       thenE (modifyE (\<lambda>w. w\<lparr>index := found\<rparr>))
         (case e of
            ScanEof \<Rightarrow> retE ()
          | ScanCorruptAcked off \<Rightarrow> throwE (ErrCorruptAcked idx off)
          | ScanTorn off \<Rightarrow>
              thenE (io ''truncate torn tail'')
                (modifyE (\<lambda>w. set_segs (AList.update idx (take off c) (segs (dsk w))) w))))))"

fun removeStale :: "int list \<Rightarrow> unit walM" where
  "removeStale [] = retE ()"
| "removeStale (idx # rest) =
     getE (\<lambda>w. if idx < SegStart (cp w)
       then thenE (removeSeg ''remove stale segment'' idx) (removeStale rest)
       else removeStale rest)"

definition firstAlive :: "int \<Rightarrow> int list \<Rightarrow> int" where
  "firstAlive start idxList =
     foldl (\<lambda>fa idx. if idx < start then fa else if fa < 0 then idx else fa) (-1) idxList"

fun indexSegments :: "int list \<Rightarrow> unit walM" where
  "indexSegments [] = retE ()"
| "indexSegments (idx # rest) =
     getE (\<lambda>w. if idx < SegStart (cp w) then indexSegments rest
       else thenE (indexSegment idx (if idx = SegStart (cp w) then nat (AckedBytes (cp w)) else 0))
              (indexSegments rest))"

definition scanSegments :: "unit walM" where
  "scanSegments =
     thenE (io ''read dir'') (
     getE (\<lambda>w.
       let idxList = sort (map fst (segs (dsk w))); fa = firstAlive (SegStart (cp w)) idxList in
       thenE (removeStale idxList)
         (if fa < 0 then
            modifyE (\<lambda>w. w\<lparr>cp := (cp w)\<lparr>SegStart := (if SegStart (cp w) < 0 then 0 else SegStart (cp w)),
              AckedBytes := 0\<rparr>\<rparr>)
          else
            thenE (modifyE (\<lambda>w. if fa > SegStart (cp w)
                     then w\<lparr>cp := (cp w)\<lparr>SegStart := fa, AckedBytes := 0\<rparr>\<rparr> else w))
              (thenE (indexSegments idxList) (modifyE (\<lambda>w. w\<lparr>acked := 0\<rparr>))))))"

definition lastSegmentIdx :: "wal \<Rightarrow> int" where
  "lastSegmentIdx w =
     (let last = (case map fst (segs (dsk w)) of
                    [] \<Rightarrow> SegStart (cp w)
                  | k # ks \<Rightarrow> foldl max k ks)
      in if last < 0 then 0 else last)"

definition maxIndexSeq :: "frameIndex list \<Rightarrow> u64" where
  "maxIndexSeq fis = foldl (\<lambda>m fi. if fi_seq fi > m then fi_seq fi else m) 0 fis"

definition raiseNextSeq :: "wal \<Rightarrow> wal" where
  "raiseNextSeq w =
     (let m = maxIndexSeq (index w) in
      if NextSeq (cp w) < m + 1 then w\<lparr>cp := (cp w)\<lparr>NextSeq := m + 1\<rparr>\<rparr> else w)"

text \<open>\<^verbatim>\<open>os.OpenFile(..., O_CREATE|O_APPEND)\<close> and \<^verbatim>\<open>Stat\<close> of the current segment.\<close>

definition rotate :: "unit walM" where
  "rotate =
     thenE (io ''create segment'') (
     thenE (modifyE (\<lambda>w. set_segs (AList.update (curSeg w) (seg_bytes (dsk w) (curSeg w)) (segs (dsk w))) w)) (
     thenE (io ''stat segment'')
       (modifyE (\<lambda>w. w\<lparr>curFile := HOpen (curSeg w),
          curOffset := length (seg_bytes (dsk w) (curSeg w))\<rparr>))))"

definition openBody :: "unit walM" where
  "openBody =
     thenE (io ''mkdir'') (
     thenE (io ''open lock'') (
     getE (\<lambda>w. if flocked (dsk w) then throwE ErrLocked else
     thenE (modifyE (\<lambda>w. w\<lparr>lockHeld := True, dsk := (dsk w)\<lparr>flocked := True\<rparr>\<rparr>)) (
     thenE loadCheckpoint (
     thenE scanSegments (
     thenE (modifyE raiseNextSeq) (
     thenE (io ''read dir'') (
     thenE (modifyE (\<lambda>w. w\<lparr>curSeg := lastSegmentIdx w\<rparr>))
       rotate))))))))"

definition fresh_wal :: "int \<Rightarrow> disk \<Rightarrow> wal" where
  "fresh_wal sz d = \<lparr>segSize = (if sz \<le> 0 then DefaultSegmentSize else sz),
     dlqMax = DefaultDLQMaxSize, cp = zero_checkpoint, index = [], acked = 0, curSeg = 0,
     curFile = HNil, curOffset = 0, lockHeld = False, lastCp = None, notify = False,
     legacyCheckpoint = False, dsk = d\<rparr>"

definition Open :: "int \<Rightarrow> disk \<Rightarrow> (wal_err + wal) \<times> disk" where
  "Open sz d =
     (case openBody (fresh_wal sz d) of
        (Inl e, w) \<Rightarrow> (Inl e, dsk w)
      | (Inr _, w) \<Rightarrow> (Inr w, dsk w))"

section \<open>Appending\<close>

definition ensureSpace :: "nat \<Rightarrow> unit walM" where
  "ensureSpace need =
     getE (\<lambda>w. if curFile w = HNil then rotate
       else if int (curOffset w) + int need \<le> segSize w then retE ()
       else thenE (closeCur ''close segment'')
              (thenE (modifyE (\<lambda>w. w\<lparr>curSeg := curSeg w + 1\<rparr>)) rotate))"

definition notifyAppend :: "unit walM" where
  "notifyAppend = modifyE (\<lambda>w. w\<lparr>notify := True\<rparr>)"

text \<open>The two writes of a record and the index entry that follows them.\<close>

definition writeRecord :: "bytes \<Rightarrow> unit walM" where
  "writeRecord fb =
     thenE (writeCur ''write record head'' (putUint32 (word_of_nat (length fb))))
       (writeCur ''write frame'' fb)"

definition pushIndex :: "u8 \<Rightarrow> u64 \<Rightarrow> bytes \<Rightarrow> unit walM" where
  "pushIndex typ seq fb =
     modifyE (\<lambda>w. w\<lparr>index := index w @ [\<lparr>fi_seg = curSeg w, fi_offset = curOffset w,
         fi_length = length fb, fi_seq = seq, fi_typ = typ\<rparr>],
       curOffset := curOffset w + (recordHeadLen + length fb),
       cp := (cp w)\<lparr>NextSeq := seq + 1\<rparr>\<rparr>)"

definition appendEncodedLocked :: "u8 \<Rightarrow> u64 \<Rightarrow> bytes \<Rightarrow> unit walM" where
  "appendEncodedLocked typ seq fb =
     getE (\<lambda>w. if seq \<noteq> NextSeq (cp w) then throwE (ErrOutOfOrderAppend seq (NextSeq (cp w)))
       else thenE (ensureSpace (length fb + recordHeadLen)) (
            thenE (writeRecord fb) (
            thenE (syncCur ''fsync frame'') (
            thenE (pushIndex typ seq fb) notifyAppend))))"

definition AppendEncoded :: "u8 \<Rightarrow> u64 \<Rightarrow> bytes \<Rightarrow> unit walM" where
  "AppendEncoded typ seq fb = appendEncodedLocked typ seq fb"

text \<open>One frame of \<^verbatim>\<open>AppendBatch\<close>: it gets the next sequence number.\<close>

definition appendNext :: "u8 \<Rightarrow> bytes \<Rightarrow> u64 walM" where
  "appendNext typ fb =
     (if length fb < HeaderSize then throwE (ErrFrameTooShort (length fb))
      else thenE (ensureSpace (length fb + recordHeadLen))
        (getE (\<lambda>w. let seq = NextSeq (cp w); fb' = rewriteSeq seq fb in
           thenE (writeRecord fb') (thenE (pushIndex typ seq fb') (retE seq)))))"

fun appendAll :: "u8 \<Rightarrow> bytes list \<Rightarrow> u64 list walM" where
  "appendAll typ [] = retE []"
| "appendAll typ (fb # fbs) =
     bindE (appendNext typ fb) (\<lambda>seq.
     bindE (appendAll typ fbs) (\<lambda>seqs. retE (seq # seqs)))"

definition AppendBatch :: "u8 \<Rightarrow> bytes list \<Rightarrow> u64 list walM" where
  "AppendBatch typ fbs =
     (if fbs = [] then retE []
      else bindE (appendAll typ fbs) (\<lambda>seqs.
             thenE (syncCur ''fsync batch'') (thenE notifyAppend (retE seqs))))"

definition Append :: "codec \<Rightarrow> u8 \<Rightarrow> bytes \<Rightarrow> u64 walM" where
  "Append cd typ payload =
     getE (\<lambda>w. let seq = NextSeq (cp w) in
       case Encode cd typ seq payload of
         Inl e \<Rightarrow> throwE (ErrEncode e)
       | Inr fb \<Rightarrow> thenE (appendEncodedLocked typ seq fb) (retE seq))"

section \<open>Reading and committing\<close>

definition readFrame :: "frameIndex \<Rightarrow> bytes walM" where
  "readFrame fi =
     getE (\<lambda>w.
       let c = (if fi_seg fi = curSeg w \<and> curFile w \<noteq> HNil
                then (case curFile w of HOpen k \<Rightarrow> map_of (segs (dsk w)) k | _ \<Rightarrow> None)
                else map_of (segs (dsk w)) (fi_seg fi)) in
       thenE (io ''read frame'')
         (case readAt c (fi_offset fi + recordHeadLen) (fi_length fi) of
            None \<Rightarrow> throwE (ErrIo ''read frame'')
          | Some b \<Rightarrow> retE b))"

fun readFrames :: "frameIndex list \<Rightarrow> (u64 \<times> bytes) list walM" where
  "readFrames [] = retE []"
| "readFrames (fi # fis) =
     bindE (readFrame fi) (\<lambda>b. bindE (readFrames fis) (\<lambda>rest. retE ((fi_seq fi, b) # rest)))"

definition PeekBatch :: "int \<Rightarrow> (u64 \<times> bytes) list walM" where
  "PeekBatch n =
     getE (\<lambda>w. if acked w \<ge> length (index w) then throwE ErrEmpty
       else let cnt = length (index w) - acked w;
                cnt = (if n > 0 \<and> int cnt > n then nat n else cnt)
            in readFrames (take cnt (drop (acked w) (index w))))"

definition Peek :: "(u64 \<times> bytes) walM" where
  "Peek = bindE (PeekBatch 1) (\<lambda>fds. case fds of fd # _ \<Rightarrow> retE fd | [] \<Rightarrow> throwE PanicIndex)"

definition closeRotated :: "unit walM" where
  "closeRotated =
     getE (\<lambda>w. thenE (if curFile w \<noteq> HNil then closeCur ''close rotated segment'' else retE ())
       (modifyE (\<lambda>w. w\<lparr>curFile := HNil, curSeg := curSeg w + 1, curOffset := 0\<rparr>)))"

text \<open>
  The loop that deletes fully acknowledged segments. It could only fail to end if the oldest
  pending frame lay before \<^verbatim>\<open>SegStart\<close>; the fuel makes that a value.
\<close>

fun commitLoop :: "nat \<Rightarrow> bool \<Rightarrow> bool walM" where
  "commitLoop 0 segRemoved = throwE CommitDiverges"
| "commitLoop (Suc fuel) segRemoved =
     getE (\<lambda>w.
       if \<not> (acked w \<ge> length (index w) \<or> fi_seg (index w ! acked w) \<noteq> SegStart (cp w))
       then retE segRemoved
       else let removed = SegStart (cp w) in
         thenE (removeSeg ''remove segment'' removed) (
         thenE (modifyE (\<lambda>w. w\<lparr>cp := (cp w)\<lparr>SegStart := removed + 1, AckedBytes := 0\<rparr>,
                  index := drop (acked w) (index w), acked := 0\<rparr>)) (
         thenE (if removed = curSeg w then closeRotated else retE ())
           (getE (\<lambda>w. if index w = [] then retE True else commitLoop fuel True)))))"

definition commitFuel :: "wal \<Rightarrow> nat" where
  "commitFuel w = Suc (Suc (nat (fi_seg (last (index w)) - SegStart (cp w))))"

definition commitLocked :: "int \<Rightarrow> u64 \<Rightarrow> unit walM" where
  "commitLocked now seq =
     getE (\<lambda>w.
       if acked w \<ge> length (index w) then throwE PanicIndex
       else if fi_seq (index w ! acked w) \<noteq> seq
       then throwE (ErrCommitOutOfOrder seq (fi_seq (index w ! acked w)))
       else let cur = index w ! acked w in
         thenE (modifyE (\<lambda>w. w\<lparr>acked := acked w + 1,
                  cp := (cp w)\<lparr>AckedBytes := int (fi_offset cur + recordHeadLen + fi_length cur)\<rparr>\<rparr>))
         (bindE (commitLoop (commitFuel w) False) (\<lambda>segRemoved.
            if segRemoved then persistLocked now else persistLockedThrottled now)))"

definition Commit :: "int \<Rightarrow> u64 \<Rightarrow> unit walM" where
  "Commit now seq = commitLocked now seq"

section \<open>Cursor and backfill policy\<close>

definition SetCursor :: "int \<Rightarrow> int \<Rightarrow> unit walM" where
  "SetCursor now ts =
     getE (\<lambda>w. if ts < CursorNs (cp w) then throwE (ErrCursorRegress (CursorNs (cp w)) ts)
       else thenE (modifyE (\<lambda>w. w\<lparr>cp := (cp w)\<lparr>CursorNs := ts\<rparr>\<rparr>)) (persistLocked now))"

definition ApplyBackfillPolicy :: "int \<Rightarrow> int \<Rightarrow> int \<Rightarrow> bool walM" where
  "ApplyBackfillPolicy now policyNs boundaryNs =
     getE (\<lambda>w.
       if legacyCheckpoint w then
         thenE (modifyE (\<lambda>w. w\<lparr>legacyCheckpoint := False, cp := (cp w)\<lparr>BackfillNs := policyNs\<rparr>\<rparr>))
           (thenE (persistLocked now) (retE False))
       else if BackfillNs (cp w) = policyNs then retE False
       else let rewound = (policyNs \<noteq> BackfillNoneNs \<and> boundaryNs > 0 \<and> boundaryNs < CursorNs (cp w)) in
         thenE (modifyE (\<lambda>w. w\<lparr>cp := (cp w)\<lparr>
             CursorNs := (if rewound then boundaryNs else CursorNs (cp w)),
             BackfillNs := policyNs\<rparr>\<rparr>))
           (thenE (persistLocked now) (retE rewound)))"

definition BackfillPolicyNs :: "wal \<Rightarrow> int" where
  "BackfillPolicyNs w = BackfillNs (cp w)"

definition Cursor :: "wal \<Rightarrow> int" where
  "Cursor w = CursorNs (cp w)"

definition PendingCount :: "wal \<Rightarrow> nat" where
  "PendingCount w = length (index w) - acked w"

definition PendingBytes :: "wal \<Rightarrow> nat" where
  "PendingBytes w = (\<Sum>fi\<leftarrow>drop (acked w) (index w). recordHeadLen + fi_length fi)"

section \<open>Dead letters and closing\<close>

definition dlqSize :: "disk \<Rightarrow> nat" where
  "dlqSize d = (\<Sum>e\<leftarrow>dlqFrames d. length (snd e)) + (\<Sum>e\<leftarrow>dlqMetas d. length (snd e))"

text \<open>
  \<^verbatim>\<open>writeDLQ\<close>: the frame's bytes and a text file with the reason. The text
  (sequence number, time and reason) is an argument.
\<close>

definition writeFile :: "string \<Rightarrow> ('x list \<Rightarrow> disk \<Rightarrow> disk) \<Rightarrow> 'x list \<Rightarrow> unit walM" where
  "writeFile what put data w =
     (case outcomes (dsk w) of
        IoFail n # os \<Rightarrow> (Inl (ErrIo what), w\<lparr>dsk := put (take n data) ((dsk w)\<lparr>outcomes := os\<rparr>)\<rparr>)
      | os \<Rightarrow> (Inr (), w\<lparr>dsk := put data ((dsk w)\<lparr>outcomes := tl os\<rparr>)\<rparr>))"

definition writeDLQ :: "u64 \<Rightarrow> bytes \<Rightarrow> string \<Rightarrow> unit walM" where
  "writeDLQ seq fb meta =
     thenE (writeFile ''write dlq frame''
              (\<lambda>b d. d\<lparr>dlqFrames := AList.update seq b (dlqFrames d)\<rparr>) fb)
       (writeFile ''write dlq reason''
          (\<lambda>m d. d\<lparr>dlqMetas := AList.update seq m (dlqMetas d)\<rparr>) meta)"

definition MoveToDLQ :: "int \<Rightarrow> u64 \<Rightarrow> string \<Rightarrow> unit walM" where
  "MoveToDLQ now seq meta =
     getE (\<lambda>w.
       if acked w \<ge> length (index w) \<or> fi_seq (index w ! acked w) \<noteq> seq
       then throwE (ErrDlqUnknown seq)
       else let fi = index w ! acked w in
         thenE (io ''open seg for dlq'') (
         case readAt (map_of (segs (dsk w)) (fi_seg fi)) (fi_offset fi + recordHeadLen) (fi_length fi) of
           None \<Rightarrow> throwE (ErrIo ''read frame for dlq'')
         | Some fb \<Rightarrow>
             if int (dlqSize (dsk w)) > dlqMax w then throwE (ErrDlqOverCapacity (dlqSize (dsk w)))
             else thenE (io ''mkdir dlq'') (
                  thenE (writeDLQ seq fb meta) (commitLocked now seq))))"

text \<open>
  \<^verbatim>\<open>Close\<close>: the checkpoint is saved and the lock released whether or not closing
  the current file fails.
\<close>

definition closeFile :: "unit walM" where
  "closeFile w =
     (if curFile w = HNil then (Inr (), w)
      else case closeCur ''close'' w of (r, w') \<Rightarrow> (r, w'\<lparr>curFile := HNil\<rparr>))"

definition releaseLock :: "wal \<Rightarrow> wal" where
  "releaseLock w = (if lockHeld w then w\<lparr>lockHeld := False, dsk := (dsk w)\<lparr>flocked := False\<rparr>\<rparr> else w)"

definition Close :: "int \<Rightarrow> unit walM" where
  "Close now w =
     (case closeFile w of (r1, w1) \<Rightarrow>
      case persistLocked now w1 of (r2, w2) \<Rightarrow>
        (case r1 of Inl e \<Rightarrow> Inl e | Inr _ \<Rightarrow> r2, releaseLock w2))"

end
