(* ===== verification/Wal_Queue.thy ===== *)
theory Wal_Queue
  imports Wal
begin

text \<open>
  The WAL as a queue of frames. The pending frames of a WAL are what its index and segment
  files give for the entries that are not acknowledged yet. The invariant \<open>wal_inv\<close>
  (every index entry can be read, entries are in segment order, no entry lies in a deleted
  segment) is kept by every operation whatever the file system does; on a healthy WAL (no I/O
  failure, offset of the current file in step with its length) the operations are those of a
  first-in first-out queue.
\<close>

section \<open>Pending frames, invariant\<close>

definition frame_at :: "disk \<Rightarrow> frameIndex \<Rightarrow> bytes" where
  "frame_at d fi = goslice (fi_offset fi + recordHeadLen)
     (fi_offset fi + recordHeadLen + fi_length fi) (seg_bytes d (fi_seg fi))"

definition readable :: "disk \<Rightarrow> frameIndex \<Rightarrow> bool" where
  "readable d fi \<longleftrightarrow> fi_seg fi \<in> dom (map_of (segs d)) \<and>
     fi_offset fi + recordHeadLen + fi_length fi \<le> length (seg_bytes d (fi_seg fi))"

definition pending :: "wal \<Rightarrow> (u64 \<times> bytes) list" where
  "pending w = map (\<lambda>fi. (fi_seq fi, frame_at (dsk w) fi)) (drop (acked w) (index w))"

definition handle_ok :: "wal \<Rightarrow> bool" where
  "handle_ok w = (case curFile w of
     HNil \<Rightarrow> SegStart (cp w) \<le> curSeg w
   | HOpen k \<Rightarrow> k = curSeg w \<and> SegStart (cp w) \<le> curSeg w \<and> k \<in> dom (map_of (segs (dsk w))) \<and>
       curOffset w \<le> length (seg_bytes (dsk w) k)
   | HClosed \<Rightarrow> True)"

definition wal_inv :: "wal \<Rightarrow> bool" where
  "wal_inv w \<longleftrightarrow> acked w \<le> length (index w) \<and> sorted (map fi_seg (index w)) \<and>
     (\<forall>fi\<in>set (index w). SegStart (cp w) \<le> fi_seg fi \<and> fi_seg fi \<le> curSeg w \<and> readable (dsk w) fi) \<and>
     handle_ok w"

text \<open>
  A healthy WAL: every file system call succeeds, the current file is not a closed one and the
  write offset is its length.
\<close>

definition calm :: "wal \<Rightarrow> bool" where
  "calm w \<longleftrightarrow> outcomes (dsk w) = []"

definition clean :: "wal \<Rightarrow> bool" where
  "clean w = (case curFile w of
     HNil \<Rightarrow> True
   | HOpen k \<Rightarrow> curOffset w = length (seg_bytes (dsk w) k)
   | HClosed \<Rightarrow> False)"

definition healthy :: "wal \<Rightarrow> bool" where
  "healthy w \<longleftrightarrow> wal_inv w \<and> calm w \<and> clean w"

section \<open>Segments only grow under an append\<close>

definition extends :: "disk \<Rightarrow> disk \<Rightarrow> bool" where
  "extends d d' \<longleftrightarrow> (\<forall>k c. map_of (segs d) k = Some c \<longrightarrow> (\<exists>t. map_of (segs d') k = Some (c @ t)))"

lemma extends_refl [simp]: "extends d d"
  by (auto simp: extends_def)

lemma extends_outcomes [simp]: "extends d (d'\<lparr>outcomes := os\<rparr>) = extends d d'"
  by (simp add: extends_def)

lemma seg_bytes_outcomes [simp]: "seg_bytes (d\<lparr>outcomes := os\<rparr>) k = seg_bytes d k"
  by (simp add: seg_bytes_def)

lemma seg_bytes_update [simp]:
  "seg_bytes (d\<lparr>segs := AList.update k c (segs d)\<rparr>) j = (if j = k then c else seg_bytes d j)"
  by (simp add: seg_bytes_def update_conv')

lemma seg_bytes_update2 [simp]:
  "seg_bytes (d\<lparr>segs := AList.update k c (segs d), outcomes := os\<rparr>) j =
     (if j = k then c else seg_bytes d j)"
  "seg_bytes (d\<lparr>outcomes := os, segs := AList.update k c (segs d)\<rparr>) j =
     (if j = k then c else seg_bytes d j)"
  by (simp_all add: seg_bytes_def update_conv')

lemma extends_write:
  assumes "extends d d'" and "map_of (segs d') k = None \<or> (\<exists>t. c = seg_bytes d' k @ t)"
  shows "extends d (d'\<lparr>segs := AList.update k c (segs d')\<rparr>)"
proof -
  have "\<exists>t. (if j = k then Some c else map_of (segs d') j) = Some (c0 @ t)"
    if "map_of (segs d) j = Some c0" for j c0
  proof -
    from assms(1) that obtain t where t: "map_of (segs d') j = Some (c0 @ t)"
      by (auto simp: extends_def)
    show ?thesis using assms(2) t by (auto simp: seg_bytes_def)
  qed
  then show ?thesis by (auto simp: extends_def update_conv')
qed

lemma extends_readable:
  assumes "extends d d'" and "readable d fi"
  shows "readable d' fi" and "frame_at d' fi = frame_at d fi"
proof -
  from assms(2) obtain c where c: "map_of (segs d) (fi_seg fi) = Some c"
    and le: "fi_offset fi + recordHeadLen + fi_length fi \<le> length c"
    by (auto simp: readable_def seg_bytes_def)
  from assms(1) c obtain t where t: "map_of (segs d') (fi_seg fi) = Some (c @ t)"
    by (auto simp: extends_def)
  show "readable d' fi" using t le by (auto simp: readable_def seg_bytes_def)
  show "frame_at d' fi = frame_at d fi" using t c le by (simp add: frame_at_def seg_bytes_def)
qed

section \<open>Primitive steps\<close>

lemma self_outcomes [simp]: "\<exists>os. w = w\<lparr>dsk := (dsk w)\<lparr>outcomes := os\<rparr>\<rparr>"
  by (rule exI [of _ "outcomes (dsk w)"]) simp

lemma io_cases:
  "io what w = (r, w') \<Longrightarrow> \<exists>os. w' = w\<lparr>dsk := (dsk w)\<lparr>outcomes := os\<rparr>\<rparr>"
proof -
  assume "io what w = (r, w')"
  then have "w' = w \<or> (\<exists>os. w' = w\<lparr>dsk := (dsk w)\<lparr>outcomes := os\<rparr>\<rparr>)"
    by (auto simp: io_def split: list.splits outcome.splits)
  moreover have "w = w\<lparr>dsk := (dsk w)\<lparr>outcomes := outcomes (dsk w)\<rparr>\<rparr>" by simp
  ultimately show ?thesis by metis
qed

lemma keeps_io:
  assumes "\<And>w os. I w \<Longrightarrow> I (w\<lparr>dsk := (dsk w)\<lparr>outcomes := os\<rparr>\<rparr>)"
  shows "keeps I (io what)"
  unfolding keeps_def
proof (intro allI impI)
  fix w assume "I w"
  obtain r w' where rw: "io what w = (r, w')" by fastforce
  then obtain os where "w' = w\<lparr>dsk := (dsk w)\<lparr>outcomes := os\<rparr>\<rparr>" using io_cases by blast
  with rw assms [OF \<open>I w\<close>, of os] show "I (snd (io what w))" by simp
qed

lemma io_calm [simp]: "outcomes (dsk w) = [] \<Longrightarrow> io what w = (Inr (), w)"
  by (simp add: io_def)

lemma writeCur_calm:
  "outcomes (dsk w) = [] \<Longrightarrow> curFile w = HOpen k \<Longrightarrow>
    writeCur what bs w = (Inr (), w\<lparr>dsk := (dsk w)\<lparr>
      segs := AList.update k (seg_bytes (dsk w) k @ bs) (segs (dsk w))\<rparr>\<rparr>)"
  by (cases w) (simp add: writeCur_def)

lemma keeps_writeCur:
  assumes "\<And>w k os t. I w \<Longrightarrow> curFile w = HOpen k \<Longrightarrow>
    I (w\<lparr>dsk := (dsk w)\<lparr>outcomes := os, segs := AList.update k (seg_bytes (dsk w) k @ t) (segs (dsk w))\<rparr>\<rparr>)"
  shows "keeps I (writeCur what bs)"
  using assms by (auto simp: keeps_def writeCur_def split: handle.splits list.splits outcome.splits)


section \<open>Growing: what an append does before it indexes the frame\<close>

definition grow :: "wal \<Rightarrow> wal \<Rightarrow> bool" where
  "grow w0 w \<longleftrightarrow> index w = index w0 \<and> acked w = acked w0 \<and> cp w = cp w0 \<and>
     segSize w = segSize w0 \<and> extends (dsk w0) (dsk w) \<and> curSeg w0 \<le> curSeg w \<and>
     SegStart (cp w0) \<le> curSeg w0 \<and> handle_ok w"

lemma grow_io: "keeps (grow w0) (io what)"
  by (rule keeps_io) (auto simp: grow_def handle_ok_def split: handle.splits)

lemma grow_writeCur: "keeps (grow w0) (writeCur what bs)"
proof (rule keeps_writeCur)
  fix w k os t
  assume g: "grow w0 w" and o: "curFile w = HOpen k"
  have "extends (dsk w0) ((dsk w)\<lparr>segs := AList.update k (seg_bytes (dsk w) k @ t) (segs (dsk w))\<rparr>)"
    using g by (intro extends_write) (auto simp: grow_def)
  then have "extends (dsk w0) ((dsk w)\<lparr>outcomes := os,
      segs := AList.update k (seg_bytes (dsk w) k @ t) (segs (dsk w))\<rparr>)"
    by (simp add: extends_def)
  then show "grow w0 (w\<lparr>dsk := (dsk w)\<lparr>outcomes := os,
      segs := AList.update k (seg_bytes (dsk w) k @ t) (segs (dsk w))\<rparr>\<rparr>)"
    using g o by (auto simp: grow_def handle_ok_def update_conv')
qed

lemma grow_syncCur: "keeps (grow w0) (syncCur what)"
  using grow_io [of w0 what] by (auto simp: keeps_def syncCur_def split: handle.splits)

lemma grow_closeCur: "keeps (grow w0) (closeCur what)"
proof -
  have "grow w0 (w\<lparr>curFile := HClosed\<rparr>)" if "grow w0 w" for w
    using that by (simp add: grow_def handle_ok_def)
  then show ?thesis
    using grow_io [of w0 what] by (auto simp: keeps_def closeCur_def split: handle.splits)
qed

lemma hoare_rotate:
  "hoare (grow w0) rotate
     (\<lambda>_ w. grow w0 w \<and> curFile w = HOpen (curSeg w) \<and>
        curOffset w = length (seg_bytes (dsk w) (curSeg w)))
     (\<lambda>_. grow w0)"
proof -
  let ?I = "\<lambda>w. grow w0 w \<and> curSeg w \<in> dom (map_of (segs (dsk w)))"
  have create: "?I (set_segs (AList.update (curSeg w) (seg_bytes (dsk w) (curSeg w)) (segs (dsk w))) w)"
    if g: "grow w0 w" for w
  proof -
    have "extends (dsk w0) ((dsk w)\<lparr>segs := AList.update (curSeg w)
        (seg_bytes (dsk w) (curSeg w)) (segs (dsk w))\<rparr>)"
      using g by (intro extends_write) (auto simp: grow_def)
    then show ?thesis
      using g by (auto simp: grow_def handle_ok_def set_segs_def update_conv' split: handle.splits)
  qed
  have stat: "hoare ?I (io ''stat segment'') (\<lambda>_. ?I) (\<lambda>_. grow w0)"
    by (rule hoare_conseq [OF keeps_hoare [OF keeps_io]])
      (auto simp: grow_def handle_ok_def split: handle.splits)
  show ?thesis
    unfolding rotate_def
    by (rule hoare_then [OF keeps_hoare [OF grow_io]], rule hoare_then [OF hoare_modify],
        rule create, assumption, rule hoare_then [OF stat], rule hoare_modify)
      (auto simp: grow_def handle_ok_def)
qed

lemma grow_refl: "wal_inv w \<Longrightarrow> curFile w \<noteq> HClosed \<Longrightarrow> grow w w"
  by (auto simp: grow_def wal_inv_def handle_ok_def split: handle.splits)

lemma hoare_ensureSpace:
  assumes "wal_inv w0" and "curFile w0 \<noteq> HClosed"
  shows "hoare (\<lambda>w. w = w0) (ensureSpace n)
     (\<lambda>_ w. grow w0 w \<and> curFile w = HOpen (curSeg w) \<and>
        (clean w0 \<longrightarrow> curOffset w = length (seg_bytes (dsk w) (curSeg w))))
     (\<lambda>_. grow w0)"
proof -
  let ?Q = "\<lambda>w. grow w0 w \<and> curFile w = HOpen (curSeg w) \<and>
        (clean w0 \<longrightarrow> curOffset w = length (seg_bytes (dsk w) (curSeg w)))"
  have g0: "grow w0 w0" by (rule grow_refl [OF assms])
  have rot: "hoare (grow w0) rotate (\<lambda>_. ?Q) (\<lambda>_. grow w0)"
    by (rule hoare_conseq [OF hoare_rotate]) auto
  let ?C = "\<lambda>w. grow w0 w \<and> curFile w = HClosed"
  have cl: "hoare (\<lambda>w. w = w0) (closeCur ''close segment'') (\<lambda>_. ?C) (\<lambda>_. grow w0)"
  proof (rule hoareI)
    fix s r s' assume s: "s = w0" and eq: "closeCur ''close segment'' s = (r, s')"
    have "grow w0 s'" using keepsD [OF grow_closeCur _ eq] s g0 by blast
    moreover have "curFile s' = HClosed" if "r = Inr a" for a
      using eq that io_cases by (fastforce simp: closeCur_def split: handle.splits)
    ultimately show "case r of Inl e \<Rightarrow> grow w0 s' | Inr a \<Rightarrow> ?C s'"
      by (auto split: sum.split)
  qed
  have nx: "hoare ?C (modifyE (\<lambda>w. w\<lparr>curSeg := curSeg w + 1\<rparr>)) (\<lambda>_. grow w0) (\<lambda>_. grow w0)"
    by (rule hoare_modify) (auto simp: grow_def handle_ok_def)
  have stay: "?Q w0" if "curFile w0 \<noteq> HNil"
    using that assms g0 by (auto simp: wal_inv_def handle_ok_def clean_def split: handle.splits)
  note grown = hoare_then [OF cl hoare_then [OF nx rot]]
  show ?thesis
    unfolding ensureSpace_def
  proof (rule hoare_get, intro hoare_if)
    fix s0
    show "hoare (\<lambda>w. w = w0 \<and> w = s0) rotate (\<lambda>_. ?Q) (\<lambda>_. grow w0)"
      by (rule hoare_pre [OF rot]) (simp add: g0)
    show "hoare (\<lambda>w. w = w0 \<and> w = s0) (retE ()) (\<lambda>_. ?Q) (\<lambda>_. grow w0)" if "curFile s0 \<noteq> HNil"
      using that stay by (intro hoare_ret) auto
    show "hoare (\<lambda>w. w = w0 \<and> w = s0) (thenE (closeCur ''close segment'')
        (thenE (modifyE (\<lambda>w. w\<lparr>curSeg := curSeg w + 1\<rparr>)) rotate)) (\<lambda>_. ?Q) (\<lambda>_. grow w0)"
      by (rule hoare_pre [OF grown]) simp
  qed
qed

section \<open>Writing a record and indexing it\<close>

definition wrote :: "wal \<Rightarrow> bytes \<Rightarrow> wal \<Rightarrow> bool" where
  "wrote w1 bs w \<longleftrightarrow> curFile w = HOpen (curSeg w1) \<and> curSeg w = curSeg w1 \<and>
     curOffset w = curOffset w1 \<and>
     seg_bytes (dsk w) (curSeg w1) = seg_bytes (dsk w1) (curSeg w1) @ bs"

lemma hoare_writeCur:
  "hoare (\<lambda>w. grow w0 w \<and> wrote w1 xs w) (writeCur what bs)
     (\<lambda>_ w. grow w0 w \<and> wrote w1 (xs @ bs) w) (\<lambda>_. grow w0)"
proof (rule hoareI)
  fix s r s'
  assume P: "grow w0 s \<and> wrote w1 xs s" and eq: "writeCur what bs s = (r, s')"
  have "grow w0 s'" using keepsD [OF grow_writeCur _ eq] P by blast
  moreover have "wrote w1 (xs @ bs) s'" if "r = Inr a" for a
    using P eq that
    by (auto simp: wrote_def writeCur_def split: handle.splits list.splits outcome.splits)
  ultimately show "case r of Inl e \<Rightarrow> grow w0 s' | Inr a \<Rightarrow> grow w0 s' \<and> wrote w1 (xs @ bs) s'"
    by (auto split: sum.split)
qed

lemma hoare_writeRecord:
  "hoare (\<lambda>w. grow w0 w \<and> wrote w1 [] w) (writeRecord fb)
     (\<lambda>_ w. grow w0 w \<and> wrote w1 (encodeRecord fb) w) (\<lambda>_. grow w0)"
proof -
  have "hoare (\<lambda>w. grow w0 w \<and> wrote w1 [] w) (writeRecord fb)
     (\<lambda>_ w. grow w0 w \<and> wrote w1 (([] @ putUint32 (word_of_nat (length fb))) @ fb) w) (\<lambda>_. grow w0)"
    unfolding writeRecord_def by (rule hoare_then [OF hoare_writeCur hoare_writeCur])
  then show ?thesis by (simp add: encodeRecord_def)
qed

fun seqs_from :: "u64 \<Rightarrow> nat \<Rightarrow> u64 list" where
  "seqs_from s 0 = []"
| "seqs_from s (Suc n) = s # seqs_from (s + 1) n"

lemma seqs_from_append: "seqs_from s n @ seqs_from (s + word_of_nat n) m = seqs_from s (n + m)"
proof (induction n arbitrary: s)
  case (Suc n)
  have "s + word_of_nat (Suc n) = s + 1 + word_of_nat n" by simp
  then show ?case using Suc.IH [of "s + 1"] by (simp add: add.assoc)
qed simp

text \<open>The numbers of the frames that were added continue from the next free one.\<close>

definition numbered :: "wal \<Rightarrow> wal \<Rightarrow> bool" where
  "numbered w0 w \<longleftrightarrow> (\<exists>n. map fi_seq (index w) = map fi_seq (index w0) @ seqs_from (NextSeq (cp w0)) n \<and>
     NextSeq (cp w) = NextSeq (cp w0) + word_of_nat n)"

lemma numbered_same: "index w = index w0 \<Longrightarrow> cp w = cp w0 \<Longrightarrow> numbered w0 w"
  by (auto simp: numbered_def intro: exI [of _ 0])

lemma numbered_one: "index w = index w0 @ [fi] \<Longrightarrow> fi_seq fi = NextSeq (cp w0) \<Longrightarrow>
    NextSeq (cp w) = NextSeq (cp w0) + 1 \<Longrightarrow> numbered w0 w"
  by (auto simp: numbered_def intro: exI [of _ 1])

lemma numbered_trans:
  assumes "numbered a b" and "numbered b c"
  shows "numbered a c"
proof -
  obtain n m where "map fi_seq (index b) = map fi_seq (index a) @ seqs_from (NextSeq (cp a)) n"
    "NextSeq (cp b) = NextSeq (cp a) + word_of_nat n"
    "map fi_seq (index c) = map fi_seq (index b) @ seqs_from (NextSeq (cp b)) m"
    "NextSeq (cp c) = NextSeq (cp b) + word_of_nat m" using assms unfolding numbered_def by blast
  then show ?thesis unfolding numbered_def
    by (intro exI [of _ "n + m"]) (simp add: seqs_from_append [symmetric] add.assoc)
qed

text \<open>What any part of an append leaves of the WAL it started from.\<close>

definition appended :: "wal \<Rightarrow> wal \<Rightarrow> bool" where
  "appended w0 w \<longleftrightarrow> wal_inv w \<and> acked w = acked w0 \<and> (\<exists>new. index w = index w0 @ new) \<and>
     extends (dsk w0) (dsk w) \<and> cp w = (cp w0)\<lparr>NextSeq := NextSeq (cp w)\<rparr> \<and> numbered w0 w"

lemma extends_trans: "extends a b \<Longrightarrow> extends b c \<Longrightarrow> extends a c"
  by (fastforce simp: extends_def)

lemma appended_refl: "wal_inv w \<Longrightarrow> appended w w"
  by (simp add: appended_def numbered_same)

lemma appended_trans:
  assumes ab: "appended a b" and bc: "appended b c"
  shows "appended a c"
proof -
  have "cp c = (cp a)\<lparr>NextSeq := NextSeq (cp c)\<rparr>"
  proof -
    from bc have "cp c = (cp b)\<lparr>NextSeq := NextSeq (cp c)\<rparr>" by (simp add: appended_def)
    also have "cp b = (cp a)\<lparr>NextSeq := NextSeq (cp b)\<rparr>" using ab by (simp add: appended_def)
    finally show ?thesis by simp
  qed
  with ab bc show ?thesis by (auto simp: appended_def intro: extends_trans numbered_trans)
qed

lemma grow_wal_inv:
  assumes "wal_inv w0" and "grow w0 w"
  shows "wal_inv w"
proof -
  have "readable (dsk w) fi" if "fi \<in> set (index w0)" for fi
    using that assms extends_readable(1) by (auto simp: wal_inv_def grow_def)
  then show ?thesis
    using assms by (force simp: wal_inv_def grow_def)
qed

lemma grow_appended: "wal_inv w0 \<Longrightarrow> grow w0 w \<Longrightarrow> appended w0 w"
  using grow_wal_inv by (auto simp: appended_def grow_def intro: numbered_same)

lemma length_seqs_from [simp]: "length (seqs_from s n) = n"
  by (induction n arbitrary: s) simp_all

lemma pending_appended:
  assumes "appended w0 w" and "wal_inv w0"
  shows "\<exists>ys. pending w = pending w0 @ ys \<and> map fst ys = seqs_from (NextSeq (cp w0)) (length ys) \<and>
    NextSeq (cp w) = NextSeq (cp w0) + word_of_nat (length ys)"
proof -
  from assms(1) obtain new n where new: "index w = index w0 @ new" and n: "map fi_seq new = seqs_from (NextSeq (cp w0)) n"
    "NextSeq (cp w) = NextSeq (cp w0) + word_of_nat n" by (auto simp: appended_def numbered_def)
  have "length new = n" using arg_cong [OF n(1), of length] by simp
  moreover have "frame_at (dsk w) fi = frame_at (dsk w0) fi" if "fi \<in> set (drop (acked w0) (index w0))" for fi
    using that assms in_set_dropD extends_readable(2) by (fastforce simp: wal_inv_def appended_def)
  ultimately show ?thesis
    using assms new n
    by (intro exI [of _ "map (\<lambda>fi. (fi_seq fi, frame_at (dsk w) fi)) new"])
      (simp add: pending_def appended_def wal_inv_def comp_def)
qed

definition new_entry :: "wal \<Rightarrow> u8 \<Rightarrow> u64 \<Rightarrow> bytes \<Rightarrow> frameIndex" where
  "new_entry w typ seq fb = \<lparr>fi_seg = curSeg w, fi_offset = curOffset w,
     fi_length = length fb, fi_seq = seq, fi_typ = typ\<rparr>"

lemma frame_at_wrote:
  assumes "wrote w1 (encodeRecord fb) w" and "curOffset w1 = length (seg_bytes (dsk w1) (curSeg w1))"
  shows "frame_at (dsk w) (new_entry w typ seq fb) = fb"
  using assms by (simp add: frame_at_def new_entry_def wrote_def encodeRecord_def goslice_def recordHeadLen_def)

lemma readable_wrote:
  assumes "wrote w1 (encodeRecord fb) w" and "curOffset w1 \<le> length (seg_bytes (dsk w1) (curSeg w1))"
    and "handle_ok w"
  shows "readable (dsk w) (new_entry w typ seq fb)"
  using assms by (auto simp: readable_def new_entry_def wrote_def handle_ok_def)

lemma hoare_pushIndex:
  assumes "wal_inv w0" and "curOffset w1 \<le> length (seg_bytes (dsk w1) (curSeg w1))" and "seq = NextSeq (cp w0)"
  shows "hoare (\<lambda>w. grow w0 w \<and> wrote w1 (encodeRecord fb) w) (pushIndex typ seq fb)
     (\<lambda>_ w. appended w0 w \<and> curFile w = HOpen (curSeg w) \<and>
        NextSeq (cp w) = seq + 1 \<and> segSize w = segSize w0 \<and>
        (\<exists>fi. index w = index w0 @ [fi] \<and> fi_seq fi = seq \<and>
           (curOffset w1 = length (seg_bytes (dsk w1) (curSeg w1)) \<longrightarrow>
              clean w \<and> frame_at (dsk w) fi = fb))) E"
  unfolding pushIndex_def
proof (rule hoare_modify, goal_cases)
  case (1 w)
  let ?fi = "new_entry w typ seq fb"
  let ?w = "w\<lparr>index := index w @ [?fi], curOffset := curOffset w + (recordHeadLen + length fb),
     cp := (cp w)\<lparr>NextSeq := seq + 1\<rparr>\<rparr>"
  have g: "grow w0 w" and wr: "wrote w1 (encodeRecord fb) w" using 1 by auto
  have wi: "wal_inv w" using grow_wal_inv [OF assms(1) g] .
  have h: "handle_ok w" using g by (simp add: grow_def)
  have rd: "readable (dsk w) ?fi" by (rule readable_wrote [OF wr assms(2) h])
  have inv: "wal_inv ?w"
    using wi rd h wr assms(2)
    by (auto simp: wal_inv_def handle_ok_def wrote_def new_entry_def sorted_append)
  have "numbered w0 ?w"
    by (rule numbered_one [of _ _ ?fi]) (use g assms(3) in \<open>simp_all add: grow_def new_entry_def\<close>)
  then have app: "appended w0 ?w"
    using inv g by (auto simp: appended_def grow_def)
  have fr: "clean ?w \<and> frame_at (dsk w) ?fi = fb"
    if "curOffset w1 = length (seg_bytes (dsk w1) (curSeg w1))"
    using frame_at_wrote [OF wr that] wr that by (simp add: clean_def wrote_def)
  have "fi_seq ?fi = seq" by (simp add: new_entry_def)
  then show ?case
    using app fr g wr by (simp add: new_entry_def grow_def wrote_def)
qed

section \<open>Appending frames\<close>

text \<open>One frame of a batch, under any behaviour of the file system.\<close>

definition next_done :: "wal \<Rightarrow> bytes \<Rightarrow> u64 \<Rightarrow> wal \<Rightarrow> bool" where
  "next_done w0 fb seq w \<longleftrightarrow> appended w0 w \<and> curFile w = HOpen (curSeg w) \<and>
     NextSeq (cp w) = seq + 1 \<and> segSize w = segSize w0 \<and>
     (\<exists>fi. index w = index w0 @ [fi] \<and> fi_seq fi = seq \<and>
        (clean w0 \<longrightarrow> clean w \<and> frame_at (dsk w) fi = fb))"

lemma closed_ensureSpace:
  assumes "curFile w = HClosed" and "ensureSpace n w = (r, w')"
  shows "w' = w"
  using assms by (auto simp: ensureSpace_def closeCur_def op_defs split: if_splits)

lemma closed_writeRecord:
  assumes "curFile w = HClosed"
  shows "writeRecord fb w = (Inl (ErrIo ''write record head''), w)"
  using assms by (simp add: writeRecord_def writeCur_def op_defs)

lemma closed_append_fails:
  assumes "curFile w = HClosed" and "appendNext typ fb w = (r, w')"
  shows "w' = w \<and> isl r"
proof (cases "length fb < HeaderSize")
  case True
  with assms(2) show ?thesis by (auto simp: appendNext_def throwE_def)
next
  case False
  let ?k = "\<lambda>w. let seq = NextSeq (cp w); fb' = rewriteSeq seq fb in
           thenE (writeRecord fb') (thenE (pushIndex typ seq fb') (retE seq))"
  from assms(2) False have "thenE (ensureSpace (length fb + recordHeadLen)) (getE ?k) w = (r, w')"
    by (simp add: appendNext_def)
  then show ?thesis
  proof (cases rule: thenE_cases)
    case (err e)
    then show ?thesis using closed_ensureSpace [OF assms(1)] by auto
  next
    case (ok a t)
    moreover have "t = w" using closed_ensureSpace [OF assms(1) ok(1)] .
    ultimately show ?thesis
      using closed_writeRecord [OF assms(1)] by (auto simp: getE_def Let_def thenE_def bindE_def)
  qed
qed

lemma hoare_indexed:
  assumes "wal_inv w0" and "curFile w0 \<noteq> HClosed"
    and "grow w0 w1" and "curFile w1 = HOpen (curSeg w1)"
    and "clean w0 \<longrightarrow> curOffset w1 = length (seg_bytes (dsk w1) (curSeg w1))" and "seq = NextSeq (cp w0)"
  shows "hoare (\<lambda>w. w = w1) (thenE (writeRecord fb) (pushIndex typ seq fb))
    (\<lambda>_. next_done w0 fb seq) (\<lambda>_. appended w0)"
proof -
  have le: "curOffset w1 \<le> length (seg_bytes (dsk w1) (curSeg w1))"
    using assms(3,4) by (auto simp: grow_def handle_ok_def)
  have wr: "hoare (\<lambda>w. w = w1) (writeRecord fb)
      (\<lambda>_ w. grow w0 w \<and> wrote w1 (encodeRecord fb) w) (\<lambda>_. appended w0)"
    by (rule hoare_conseq [OF hoare_pre [OF hoare_writeRecord]])
      (use assms grow_appended in \<open>auto simp: wrote_def\<close>)
  show ?thesis
    by (rule hoare_then [OF wr], rule hoare_conseq [OF hoare_pushIndex [OF assms(1) le assms(6)]])
      (use assms(5) in \<open>auto simp: next_done_def\<close>)
qed

lemma appendNext_result:
  assumes inv: "wal_inv w0" and eq: "appendNext typ fb w0 = (r, w)"
  shows "case r of Inl e \<Rightarrow> appended w0 w
    | Inr seq \<Rightarrow> seq = NextSeq (cp w0) \<and> next_done w0 (rewriteSeq seq fb) seq w"
proof (cases "curFile w0 = HClosed \<or> length fb < HeaderSize")
  case True
  then have "w = w0" "isl r"
    using eq closed_append_fails [OF _ eq] by (auto simp: appendNext_def throwE_def)
  then show ?thesis using appended_refl [OF inv] by (cases r) auto
next
  case False
  then have open0: "curFile w0 \<noteq> HClosed" by simp
  let ?k = "\<lambda>w. let seq = NextSeq (cp w); fb' = rewriteSeq seq fb in
           thenE (writeRecord fb') (thenE (pushIndex typ seq fb') (retE seq))"
  from False eq have "thenE (ensureSpace (length fb + recordHeadLen)) (getE ?k) w0 = (r, w)"
    by (simp add: appendNext_def)
  then show ?thesis
  proof (cases rule: thenE_cases)
    case (err e)
    then show ?thesis
      using hoareD(2) [OF hoare_ensureSpace [OF inv open0]] grow_appended [OF inv] by fastforce
  next
    case (ok a w1)
    note sp = hoareD(1) [OF hoare_ensureSpace [OF inv open0] refl ok(1)]
    have cp1: "cp w1 = cp w0" using sp by (simp add: grow_def)
    let ?seq = "NextSeq (cp w0)" and ?fb = "rewriteSeq (NextSeq (cp w0)) fb"
    from ok(2) have "thenE (thenE (writeRecord ?fb) (pushIndex typ ?seq ?fb)) (retE ?seq) w1 = (r, w)"
      by (simp add: getE_def Let_def cp1 thenE_assoc)
    then show ?thesis
    proof (cases rule: thenE_cases)
      case (err e)
      then show ?thesis using sp hoareD(2) [OF hoare_indexed [OF inv open0]] by fastforce
    next
      case (ok b w2)
      then show ?thesis
        using sp hoareD(1) [OF hoare_indexed [OF inv open0, of w1] refl ok(1)] by (auto simp: retE_def)
    qed
  qed
qed

lemma next_done_appended: "next_done w0 fb seq w \<Longrightarrow> appended w0 w"
  by (simp add: next_done_def)

lemma pending_next_done:
  assumes "next_done w0 fb seq w" and "wal_inv w0" and "clean w0"
  shows "pending w = pending w0 @ [(seq, fb)]"
proof -
  from assms obtain fi where fi: "index w = index w0 @ [fi]" "fi_seq fi = seq"
    "frame_at (dsk w) fi = fb"
    by (auto simp: next_done_def)
  have "frame_at (dsk w) g = frame_at (dsk w0) g" if "g \<in> set (drop (acked w0) (index w0))" for g
    using that assms in_set_dropD extends_readable(2)
    by (fastforce simp: wal_inv_def next_done_def appended_def)
  moreover have "acked w = acked w0" "acked w0 \<le> length (index w0)"
    using assms by (auto simp: next_done_def appended_def wal_inv_def)
  ultimately show ?thesis using fi by (simp add: pending_def)
qed

definition batch_frames :: "u64 \<Rightarrow> bytes list \<Rightarrow> (u64 \<times> bytes) list" where
  "batch_frames s fbs = map2 (\<lambda>seq fb. (seq, rewriteSeq seq fb)) (seqs_from s (length fbs)) fbs"

lemma batch_frames_simps [simp]:
  "batch_frames s [] = []"
  "batch_frames s (fb # fbs) = (s, rewriteSeq s fb) # batch_frames (s + 1) fbs"
  by (simp_all add: batch_frames_def)

text \<open>What a batch has done when it has written all of its frames.\<close>

definition batch_done :: "wal \<Rightarrow> bytes list \<Rightarrow> u64 list \<Rightarrow> wal \<Rightarrow> bool" where
  "batch_done w0 fbs seqs w \<longleftrightarrow>
     seqs = seqs_from (NextSeq (cp w0)) (length fbs) \<and>
     NextSeq (cp w) = NextSeq (cp w0) + word_of_nat (length fbs) \<and>
     (fbs \<noteq> [] \<longrightarrow> curFile w = HOpen (curSeg w)) \<and>
     (clean w0 \<longrightarrow> clean w \<and> pending w = pending w0 @ batch_frames (NextSeq (cp w0)) fbs)"

lemma appendAll_result:
  assumes "wal_inv w0" and "appendAll typ fbs w0 = (r, w)"
  shows "appended w0 w \<and> (\<forall>seqs. r = Inr seqs \<longrightarrow> batch_done w0 fbs seqs w)"
  using assms
proof (induction fbs arbitrary: w0 r)
  case Nil
  then show ?case
    by (auto simp: retE_def batch_done_def appended_refl)
next
  case (Cons fb fbs)
  from Cons.prems(2)
  have "bindE (appendNext typ fb) (\<lambda>seq. bindE (appendAll typ fbs) (\<lambda>seqs. retE (seq # seqs))) w0 = (r, w)"
    by simp
  then show ?case
  proof (cases rule: bindE_cases)
    case (err e)
    then show ?thesis using appendNext_result [OF Cons.prems(1)] by fastforce
  next
    case (ok seq w1)
    have nd: "seq = NextSeq (cp w0)" "next_done w0 (rewriteSeq seq fb) seq w1"
      using appendNext_result [OF Cons.prems(1) ok(1)] by auto
    have ap1: "appended w0 w1" using nd(2) by (rule next_done_appended)
    then have inv1: "wal_inv w1" by (simp add: appended_def)
    from ok(2) show ?thesis
    proof (cases rule: bindE_cases)
      case (err e)
      then show ?thesis using Cons.IH [OF inv1 err(1)] appended_trans [OF ap1] by auto
    next
      case (ok seqs w2)
      then have w2: "w2 = w" and r: "r = Inr (seq # seqs)" by (auto simp: retE_def)
      have IH: "appended w1 w" "batch_done w1 fbs seqs w"
        using Cons.IH [OF inv1 ok(1) [unfolded w2]] by auto
      have "batch_done w0 (fb # fbs) (seq # seqs) w"
        using IH(2) nd pending_next_done [OF nd(2) Cons.prems(1)] ok(1) [unfolded w2]
        by (cases fbs) (auto simp: batch_done_def next_done_def retE_def)
      then show ?thesis using r appended_trans [OF ap1 IH(1)] by simp
    qed
  qed
qed

lemma pending_outcomes [simp]: "pending (w\<lparr>dsk := (dsk w)\<lparr>outcomes := os\<rparr>\<rparr>) = pending w"
  by (simp add: pending_def frame_at_def)

lemma wal_inv_outcomes [simp]: "wal_inv (w\<lparr>dsk := (dsk w)\<lparr>outcomes := os\<rparr>\<rparr>) = wal_inv w"
  by (simp add: wal_inv_def handle_ok_def readable_def split: handle.split)

lemma appended_outcomes [simp]: "appended w0 (w\<lparr>dsk := (dsk w)\<lparr>outcomes := os\<rparr>\<rparr>) = appended w0 w"
  by (simp add: appended_def numbered_def)

lemma batch_done_outcomes [simp]:
  "batch_done w0 fbs seqs (w\<lparr>dsk := (dsk w)\<lparr>outcomes := os\<rparr>\<rparr>) = batch_done w0 fbs seqs w"
  by (simp add: batch_done_def clean_def split: handle.split)

lemma notify_simps [simp]:
  "pending (w\<lparr>notify := b\<rparr>) = pending w" "wal_inv (w\<lparr>notify := b\<rparr>) = wal_inv w"
  "appended w0 (w\<lparr>notify := b\<rparr>) = appended w0 w"
  "batch_done w0 fbs seqs (w\<lparr>notify := b\<rparr>) = batch_done w0 fbs seqs w"
  by (simp_all add: pending_def wal_inv_def handle_ok_def appended_def numbered_def batch_done_def clean_def
      split: handle.split)

lemma syncCur_cases:
  "syncCur what w = (r, w') \<Longrightarrow> \<exists>os. w' = w\<lparr>dsk := (dsk w)\<lparr>outcomes := os\<rparr>\<rparr>"
proof -
  assume eq: "syncCur what w = (r, w')"
  have self: "w = w\<lparr>dsk := (dsk w)\<lparr>outcomes := outcomes (dsk w)\<rparr>\<rparr>" by simp
  have "w' = w \<or> io what w = (r, w')"
    using eq by (auto simp: syncCur_def split: handle.splits)
  then show ?thesis using io_cases self by metis
qed

lemma AppendBatch_result:
  assumes inv: "wal_inv w0" and eq: "AppendBatch typ fbs w0 = (r, w)"
  shows "appended w0 w \<and> (\<forall>seqs. r = Inr seqs \<longrightarrow> batch_done w0 fbs seqs w)"
proof (cases "fbs = []")
  case True
  with assms show ?thesis by (auto simp: AppendBatch_def retE_def batch_done_def appended_refl)
next
  case False
  with eq have "bindE (appendAll typ fbs) (\<lambda>seqs. thenE (syncCur ''fsync batch'')
      (thenE notifyAppend (retE seqs))) w0 = (r, w)" by (simp add: AppendBatch_def)
  then show ?thesis
  proof (cases rule: bindE_cases)
    case (err e)
    then show ?thesis using appendAll_result [OF inv] by blast
  next
    case (ok seqs w1)
    note A = appendAll_result [OF inv ok(1)]
    from ok(2) show ?thesis
      by (cases rule: thenE_cases)
        (use A syncCur_cases in \<open>fastforce simp: notifyAppend_def op_defs\<close>)+
  qed
qed

section \<open>Appends succeed on a healthy WAL\<close>

definition hot :: "wal \<Rightarrow> bool" where
  "hot w \<longleftrightarrow> calm w \<and> (\<exists>k. curFile w = HOpen k)"

lemma calm_ensureSpace:
  "hoare (\<lambda>w. calm w \<and> curFile w \<noteq> HClosed) (ensureSpace n) (\<lambda>_. hot) (\<lambda>_ _. False)"
proof (rule hoareI)
  fix s r s'
  assume P: "calm s \<and> curFile s \<noteq> HClosed" and eq: "ensureSpace n s = (r, s')"
  then show "case r of Inl e \<Rightarrow> False | Inr a \<Rightarrow> hot s'"
    by (cases "curFile s")
      (auto simp: ensureSpace_def rotate_def closeCur_def op_defs calm_def hot_def set_segs_def
        split: if_splits)
qed

lemma calm_writeRecord: "hoare hot (writeRecord fb) (\<lambda>_. hot) (\<lambda>_ _. False)"
  by (rule hoareI) (auto simp: hot_def calm_def writeRecord_def writeCur_def op_defs)

lemma calm_pushIndex: "hoare hot (pushIndex typ seq fb) (\<lambda>_. hot) (\<lambda>_ _. False)"
  unfolding pushIndex_def by (rule hoare_modify) (simp add: hot_def calm_def)

lemma calm_syncCur: "hoare hot (syncCur what) (\<lambda>_. hot) (\<lambda>_ _. False)"
  by (rule hoareI) (auto simp: hot_def calm_def syncCur_def)

lemma calm_notify: "hoare hot notifyAppend (\<lambda>_. hot) (\<lambda>_ _. False)"
  unfolding notifyAppend_def by (rule hoare_modify) (simp add: hot_def calm_def)

lemma calm_appendNext:
  assumes "HeaderSize \<le> length fb"
  shows "hoare (\<lambda>w. calm w \<and> curFile w \<noteq> HClosed) (appendNext typ fb) (\<lambda>_. hot) (\<lambda>_ _. False)"
proof -
  have "hoare hot (thenE (writeRecord fb') (thenE (pushIndex typ seq fb') (retE seq))) (\<lambda>_. hot) (\<lambda>_ _. False)"
    for seq :: u64 and fb'
    by (rule hoare_then [OF calm_writeRecord hoare_then [OF calm_pushIndex hoare_ret]])
  then show ?thesis
    using assms unfolding appendNext_def Let_def
    by (auto intro!: hoare_then [OF calm_ensureSpace] hoare_get intro: hoare_pre)
qed

lemma hot_ready: "hot w \<Longrightarrow> calm w \<and> curFile w \<noteq> HClosed"
  by (auto simp: hot_def)

lemma calm_appendAll:
  assumes "\<forall>fb\<in>set fbs. HeaderSize \<le> length fb" and "fbs \<noteq> []"
  shows "hoare (\<lambda>w. calm w \<and> curFile w \<noteq> HClosed) (appendAll typ fbs) (\<lambda>_. hot) (\<lambda>_ _. False)"
  using assms
proof (induction fbs)
  case Nil
  then show ?case by simp
next
  case (Cons fb fbs)
  have tl: "hoare hot (appendAll typ fbs) (\<lambda>_. hot) (\<lambda>_ _. False)"
  proof (cases "fbs = []")
    case True
    then show ?thesis by (simp add: hoare_ret)
  next
    case False
    then show ?thesis using Cons hot_ready by (auto intro: hoare_pre)
  qed
  have "HeaderSize \<le> length fb" using Cons.prems by simp
  then show ?case
    by (simp, intro hoare_bind [OF calm_appendNext] hoare_bind [OF tl] hoare_ret)
qed

lemma AppendBatch_healthy:
  assumes h: "healthy w" and fbs: "\<forall>fb\<in>set fbs. HeaderSize \<le> length fb"
  shows "\<exists>w'. AppendBatch typ fbs w = (Inr (seqs_from (NextSeq (cp w)) (length fbs)), w') \<and>
    healthy w' \<and> pending w' = pending w @ batch_frames (NextSeq (cp w)) fbs \<and>
    cp w' = (cp w)\<lparr>NextSeq := NextSeq (cp w) + word_of_nat (length fbs)\<rparr>"
proof -
  obtain r w' where eq: "AppendBatch typ fbs w = (r, w')" by fastforce
  have inv: "wal_inv w" and ready: "calm w \<and> curFile w \<noteq> HClosed" and cl: "clean w"
    using h by (auto simp: healthy_def clean_def)
  note R = AppendBatch_result [OF inv eq]
  have "hoare (\<lambda>w. calm w \<and> curFile w \<noteq> HClosed) (AppendBatch typ fbs)
      (\<lambda>_. calm) (\<lambda>_ _. False)"
  proof (cases "fbs = []")
    case True
    then show ?thesis by (auto simp: AppendBatch_def intro: hoare_ret)
  next
    case False
    then have "hoare (\<lambda>w. calm w \<and> curFile w \<noteq> HClosed) (AppendBatch typ fbs) (\<lambda>_. hot) (\<lambda>_ _. False)"
      by (simp add: AppendBatch_def hoare_bind [OF calm_appendAll [OF fbs False]
            hoare_then [OF calm_syncCur hoare_then [OF calm_notify hoare_ret]]])
    then show ?thesis by (rule hoare_conseq) (auto simp: hot_def)
  qed
  note C = hoareD [OF this ready]
  obtain seqs where r: "r = Inr seqs" using C(2) eq by (cases r) auto
  then have "calm w'" using C(1) eq by simp
  then show ?thesis
    using R r eq cl by (auto simp: healthy_def batch_done_def appended_def)
qed

section \<open>Reading\<close>

lemma readFrame_result:
  assumes inv: "wal_inv w" and fi: "fi \<in> set (index w)" and eq: "readFrame fi w = (r, w')"
  shows "(\<exists>os. w' = w\<lparr>dsk := (dsk w)\<lparr>outcomes := os\<rparr>\<rparr>) \<and> (\<forall>b. r = Inr b \<longrightarrow> b = frame_at (dsk w) fi)"
proof -
  obtain c where c: "map_of (segs (dsk w)) (fi_seg fi) = Some c"
    using inv fi by (fastforce simp: wal_inv_def readable_def)
  have at: "readAt (Some c) (fi_offset fi + recordHeadLen) (fi_length fi) = Some b \<Longrightarrow>
      b = frame_at (dsk w) fi" for b
    using c by (auto simp: readAt_def frame_at_def seg_bytes_def split: if_splits)
  have src: "curFile w = HOpen k \<Longrightarrow> k = curSeg w" for k
    using inv by (simp add: wal_inv_def handle_ok_def)
  from eq show ?thesis
    unfolding readFrame_def getE_def Let_def
    by (cases rule: thenE_cases)
      (use at c src io_cases in \<open>fastforce simp: op_defs readAt_def split: option.splits handle.splits if_splits\<close>)+
qed

lemma readFrames_result:
  assumes "wal_inv w" and "set fis \<subseteq> set (index w)" and "readFrames fis w = (r, w')"
  shows "(\<exists>os. w' = w\<lparr>dsk := (dsk w)\<lparr>outcomes := os\<rparr>\<rparr>) \<and>
    (\<forall>xs. r = Inr xs \<longrightarrow> xs = map (\<lambda>fi. (fi_seq fi, frame_at (dsk w) fi)) fis)"
  using assms
proof (induction fis arbitrary: w r)
  case Nil
  then have "w' = w" and "r = Inr []" by (auto simp: retE_def)
  then show ?case by simp
next
  case (Cons fi fis)
  from Cons.prems(3)
  have "bindE (readFrame fi) (\<lambda>b. bindE (readFrames fis) (\<lambda>rest. retE ((fi_seq fi, b) # rest))) w = (r, w')"
    by simp
  then show ?case
  proof (cases rule: bindE_cases)
    case (err e)
    then show ?thesis using readFrame_result [OF Cons.prems(1)] Cons.prems(2) by fastforce
  next
    case (ok b w1)
    then obtain os where w1: "w1 = w\<lparr>dsk := (dsk w)\<lparr>outcomes := os\<rparr>\<rparr>" and b: "b = frame_at (dsk w) fi"
      using readFrame_result [OF Cons.prems(1) _ ok(1)] Cons.prems(2) by auto
    have inv1: "wal_inv w1" and sub: "set fis \<subseteq> set (index w1)"
      using Cons.prems w1 by auto
    from ok(2) show ?thesis
    proof (cases rule: bindE_cases)
      case (err e)
      then show ?thesis using Cons.IH [OF inv1 sub err(1)] w1 by auto
    next
      case (ok xs w2)
      then have "w2 = w'" and r: "r = Inr ((fi_seq fi, b) # xs)" by (auto simp: retE_def)
      then show ?thesis
        using Cons.IH [OF inv1 sub, of "Inr xs"] ok(1) w1 b by (auto simp: frame_at_def)
    qed
  qed
qed

lemma readFrames_not_empty: "readFrames fis w = (r, w') \<Longrightarrow> r \<noteq> Inl ErrEmpty"
proof (induction fis arbitrary: w r)
  case Nil
  then show ?case by (auto simp: retE_def)
next
  case (Cons fi fis)
  have rf: "readFrame fi w = (Inl e, t) \<Longrightarrow> e \<noteq> ErrEmpty" for e w t
    by (auto simp: readFrame_def io_def op_defs Let_def
        split: list.splits outcome.splits option.splits)
  from Cons.prems
  have "bindE (readFrame fi) (\<lambda>b. bindE (readFrames fis) (\<lambda>rest. retE ((fi_seq fi, b) # rest))) w = (r, w')"
    by simp
  then show ?case
    using Cons.IH rf by (elim bindE_cases) (auto simp: retE_def)
qed

lemma PeekBatch_result:
  assumes inv: "wal_inv w" and eq: "PeekBatch n w = (r, w')"
  shows "(\<exists>os. w' = w\<lparr>dsk := (dsk w)\<lparr>outcomes := os\<rparr>\<rparr>) \<and>
    (\<forall>xs. r = Inr xs \<longrightarrow> pending w \<noteq> [] \<and> xs = (if n > 0 then take (nat n) (pending w) else pending w)) \<and>
    (r = Inl ErrEmpty \<longleftrightarrow> pending w = [])"
proof (cases "acked w \<ge> length (index w)")
  case True
  with eq have "w' = w" and "r = Inl ErrEmpty" by (auto simp: PeekBatch_def getE_def throwE_def)
  with True show ?thesis by (simp add: pending_def)
next
  case False
  let ?rest = "drop (acked w) (index w)"
  let ?cnt = "if n > 0 \<and> int (length ?rest) > n then nat n else length ?rest"
  from eq False have rd: "readFrames (take ?cnt ?rest) w = (r, w')"
    by (auto simp: PeekBatch_def getE_def Let_def split: if_splits)
  have sub: "set (take ?cnt ?rest) \<subseteq> set (index w)"
    by (meson set_drop_subset set_take_subset subset_trans)
  have tk: "map (\<lambda>fi. (fi_seq fi, frame_at (dsk w) fi)) (take ?cnt ?rest) =
      (if n > 0 then take (nat n) (pending w) else pending w)"
    by (auto simp: pending_def take_map)
  have "r \<noteq> Inl ErrEmpty" using rd by (rule readFrames_not_empty)
  then show ?thesis
    using readFrames_result [OF inv sub rd] tk False by (auto simp: pending_def)
qed

lemma calm_readFrame:
  assumes "wal_inv w" and "calm w" and "curFile w \<noteq> HClosed" and "fi \<in> set (index w)"
  shows "readFrame fi w = (Inr (frame_at (dsk w) fi), w)"
proof -
  obtain c where c: "map_of (segs (dsk w)) (fi_seg fi) = Some c"
    and le: "fi_offset fi + recordHeadLen + fi_length fi \<le> length c"
    using assms(1,4) by (fastforce simp: wal_inv_def readable_def seg_bytes_def)
  have src: "curFile w = HOpen k \<Longrightarrow> k = curSeg w" for k
    using assms(1) by (simp add: wal_inv_def handle_ok_def)
  show ?thesis
    using assms(2,3) c le src
    by (cases "curFile w")
      (auto simp: readFrame_def op_defs calm_def readAt_def frame_at_def seg_bytes_def Let_def)
qed

lemma calm_readFrames:
  assumes "wal_inv w" and "calm w" and "curFile w \<noteq> HClosed" and "set fis \<subseteq> set (index w)"
  shows "readFrames fis w = (Inr (map (\<lambda>fi. (fi_seq fi, frame_at (dsk w) fi)) fis), w)"
  using assms(4)
  by (induction fis) (simp_all add: op_defs calm_readFrame [OF assms(1-3)])

lemma PeekBatch_healthy:
  assumes "healthy w"
  shows "PeekBatch n w = (if pending w = [] then Inl ErrEmpty
    else Inr (if n > 0 then take (nat n) (pending w) else pending w), w)"
proof -
  have inv: "wal_inv w" and c: "calm w" and o: "curFile w \<noteq> HClosed"
    using assms by (auto simp: healthy_def clean_def)
  obtain r w' where eq: "PeekBatch n w = (r, w')" by fastforce
  have sub: "set (take k (drop (acked w) (index w))) \<subseteq> set (index w)" for k
    by (meson set_drop_subset set_take_subset subset_trans)
  have "w' = w \<and> (pending w \<noteq> [] \<longrightarrow> \<not> isl r)"
    using eq calm_readFrames [OF inv c o sub]
    by (auto simp: PeekBatch_def getE_def throwE_def pending_def Let_def split: if_splits)
  then show ?thesis
    using PeekBatch_result [OF inv eq] eq by (cases r) auto
qed

lemma Peek_healthy:
  assumes "healthy w"
  shows "Peek w = (case pending w of [] \<Rightarrow> Inl ErrEmpty | fd # _ \<Rightarrow> Inr fd, w)"
  using PeekBatch_healthy [OF assms, of 1]
  by (cases "pending w") (simp_all add: Peek_def op_defs)

section \<open>Committing\<close>

definition seg_done :: "wal \<Rightarrow> bool" where
  "seg_done w \<longleftrightarrow> acked w \<ge> length (index w) \<or> fi_seg (index w ! acked w) \<noteq> SegStart (cp w)"

definition pruned :: "wal \<Rightarrow> wal" where
  "pruned w = (set_segs (AList.delete (SegStart (cp w)) (segs (dsk w))) w)
     \<lparr>cp := (cp w)\<lparr>SegStart := SegStart (cp w) + 1, AckedBytes := 0\<rparr>,
      index := drop (acked w) (index w), acked := 0\<rparr>"

lemma seg_done_later:
  assumes "wal_inv w" and "seg_done w" and "fi \<in> set (drop (acked w) (index w))"
  shows "SegStart (cp w) < fi_seg fi"
proof -
  let ?rest = "drop (acked w) (index w)"
  have ne: "?rest \<noteq> []" using assms(3) by auto
  then have hd: "hd ?rest = index w ! acked w" by (simp add: hd_drop_conv_nth)
  have srt: "sorted (map fi_seg ?rest)"
    using assms(1) by (simp add: wal_inv_def sorted_wrt_drop flip: drop_map)
  have "hd ?rest \<in> set (index w)" using ne by (meson hd_in_set in_set_dropD)
  then have "SegStart (cp w) \<le> fi_seg (hd ?rest)" using assms(1) by (simp add: wal_inv_def)
  moreover have "fi_seg (hd ?rest) \<noteq> SegStart (cp w)"
    using assms(2) ne hd by (simp add: seg_done_def)
  moreover have "fi_seg (hd ?rest) \<le> fi_seg fi"
    using srt assms(3) by (cases ?rest) auto
  ultimately show ?thesis by simp
qed

lemma seg_bytes_delete: "j \<noteq> k \<Longrightarrow> seg_bytes (d\<lparr>segs := AList.delete k (segs d)\<rparr>) j = seg_bytes d j"
  by (simp add: seg_bytes_def delete_conv')

lemma pruned_entries:
  assumes "wal_inv w" and "seg_done w" and "fi \<in> set (index (pruned w))"
  shows "SegStart (cp w) < fi_seg fi" and "fi_seg fi \<le> curSeg w"
    and "readable (dsk (pruned w)) fi" and "frame_at (dsk (pruned w)) fi = frame_at (dsk w) fi"
proof -
  have mem: "fi \<in> set (drop (acked w) (index w))" using assms(3) by (simp add: pruned_def)
  show gt: "SegStart (cp w) < fi_seg fi" by (rule seg_done_later [OF assms(1,2) mem])
  have "fi \<in> set (index w)" using mem by (rule in_set_dropD)
  then have old: "fi_seg fi \<le> curSeg w" "readable (dsk w) fi" using assms(1) by (auto simp: wal_inv_def)
  show "fi_seg fi \<le> curSeg w" by (rule old(1))
  show "readable (dsk (pruned w)) fi" and "frame_at (dsk (pruned w)) fi = frame_at (dsk w) fi"
    using gt old(2)
    by (auto simp: readable_def frame_at_def pruned_def set_segs_def seg_bytes_delete delete_conv')
qed

lemma pending_pruned:
  assumes "wal_inv w" and "seg_done w"
  shows "pending (pruned w) = pending w"
proof -
  have "index (pruned w) = drop (acked w) (index w)" "acked (pruned w) = 0"
    by (simp_all add: pruned_def)
  then show ?thesis using pruned_entries(4) [OF assms] by (simp add: pending_def)
qed

text \<open>
  The state after one round of the deletion loop: another segment is the current one, or the
  current one was deleted and the next append opens a new file, or closing it failed.
\<close>

definition pruned_rotated :: "wal \<Rightarrow> wal" where
  "pruned_rotated w = (pruned w)\<lparr>curFile := HNil, curSeg := curSeg w + 1, curOffset := 0\<rparr>"

lemma wal_inv_pruned:
  assumes "wal_inv w" and "seg_done w"
  shows "SegStart (cp w) \<noteq> curSeg w \<Longrightarrow> wal_inv (pruned w)"
    and "SegStart (cp w) = curSeg w \<Longrightarrow> wal_inv (pruned_rotated w)"
    and "SegStart (cp w) = curSeg w \<Longrightarrow> wal_inv ((pruned w)\<lparr>curFile := HClosed\<rparr>)"
    and "SegStart (cp w) = curSeg w \<Longrightarrow> index (pruned w) = []"
proof -
  note E = pruned_entries [OF assms]
  have srt: "sorted (map fi_seg (index (pruned w)))"
    using assms(1) by (simp add: wal_inv_def pruned_def sorted_wrt_drop flip: drop_map)
  have hk: "handle_ok (pruned w)" if "SegStart (cp w) \<noteq> curSeg w"
    using assms(1) that
    by (auto simp: wal_inv_def handle_ok_def pruned_def set_segs_def seg_bytes_delete delete_conv'
        split: handle.splits)
  show "wal_inv (pruned w)" if "SegStart (cp w) \<noteq> curSeg w"
    using E srt hk [OF that] unfolding wal_inv_def
    by (force simp: pruned_def set_segs_def Ball_def)
  show e: "index (pruned w) = []" if "SegStart (cp w) = curSeg w"
    using E(1,2) that by (cases "index (pruned w)") force+
  show "wal_inv (pruned_rotated w)" if "SegStart (cp w) = curSeg w"
    using e [OF that] that by (simp add: wal_inv_def pruned_rotated_def handle_ok_def pruned_def set_segs_def)
  show "wal_inv ((pruned w)\<lparr>curFile := HClosed\<rparr>)" if "SegStart (cp w) = curSeg w"
    using e [OF that] by (simp add: wal_inv_def handle_ok_def pruned_def set_segs_def)
qed

definition queue_same :: "wal \<Rightarrow> wal \<Rightarrow> bool" where
  "queue_same w w' \<longleftrightarrow> wal_inv w' \<and> pending w' = pending w \<and> NextSeq (cp w') = NextSeq (cp w) \<and>
     CursorNs (cp w') = CursorNs (cp w) \<and> BackfillNs (cp w') = BackfillNs (cp w)"

lemma queue_same_refl: "wal_inv w \<Longrightarrow> queue_same w w"
  by (simp add: queue_same_def)

lemma queue_same_trans: "queue_same a b \<Longrightarrow> queue_same b c \<Longrightarrow> queue_same a c"
  by (simp add: queue_same_def)

lemma queue_same_outcomes [simp]:
  "queue_same w (w'\<lparr>dsk := (dsk w')\<lparr>outcomes := os\<rparr>\<rparr>) = queue_same w w'"
  by (simp add: queue_same_def)

definition commit_round :: "wal \<Rightarrow> unit walM" where
  "commit_round w0 =
     thenE (removeSeg ''remove segment'' (SegStart (cp w0))) (
     thenE (modifyE (\<lambda>w. w\<lparr>cp := (cp w)\<lparr>SegStart := SegStart (cp w0) + 1, AckedBytes := 0\<rparr>,
              index := drop (acked w) (index w), acked := 0\<rparr>))
       (if SegStart (cp w0) = curSeg w0 then closeRotated else retE ()))"

lemma commitLoop_round:
  "commitLoop (Suc fuel) b w =
     (if \<not> seg_done w then (Inr b, w)
      else thenE (commit_round w) (getE (\<lambda>w. if index w = [] then retE True else commitLoop fuel True)) w)"
  by (simp add: getE_def seg_done_def retE_def commit_round_def Let_def thenE_assoc)

lemma closeCur_cases:
  assumes "closeCur what w = (r, w')" and "curFile w \<noteq> HNil"
  shows "\<exists>os. w' = w\<lparr>curFile := HClosed, dsk := (dsk w)\<lparr>outcomes := os\<rparr>\<rparr>"
proof (cases "curFile w")
  case HNil
  with assms(2) show ?thesis by simp
next
  case (HOpen k)
  with assms(1) have "io what (w\<lparr>curFile := HClosed\<rparr>) = (r, w')" by (simp add: closeCur_def)
  then show ?thesis by (drule_tac io_cases) simp
next
  case HClosed
  with assms(1) have "w' = w" by (simp add: closeCur_def)
  with HClosed have "w' = w\<lparr>curFile := HClosed, dsk := (dsk w)\<lparr>outcomes := outcomes (dsk w)\<rparr>\<rparr>" by simp
  then show ?thesis by blast
qed

lemma closeRotated_cases:
  assumes "closeRotated w = (r, w')"
  shows "\<exists>os. (r = Inr () \<and> w' = w\<lparr>dsk := (dsk w)\<lparr>outcomes := os\<rparr>,
           curFile := HNil, curSeg := curSeg w + 1, curOffset := 0\<rparr>) \<or>
    (isl r \<and> w' = w\<lparr>curFile := HClosed, dsk := (dsk w)\<lparr>outcomes := os\<rparr>\<rparr>)"
proof (cases "curFile w = HNil")
  case True
  with assms have "r = Inr ()" and "w' = w\<lparr>dsk := (dsk w)\<lparr>outcomes := outcomes (dsk w)\<rparr>,
      curFile := HNil, curSeg := curSeg w + 1, curOffset := 0\<rparr>"
    by (auto simp: closeRotated_def op_defs)
  then show ?thesis by blast
next
  case False
  from assms False have "thenE (closeCur ''close rotated segment'')
      (modifyE (\<lambda>w. w\<lparr>curFile := HNil, curSeg := curSeg w + 1, curOffset := 0\<rparr>)) w = (r, w')"
    by (simp add: closeRotated_def getE_def)
  then show ?thesis
  proof (cases rule: thenE_cases)
    case (err e)
    then show ?thesis using closeCur_cases [OF err(1) False] by auto
  next
    case (ok a t)
    then show ?thesis using closeCur_cases [OF ok(1) False] by (auto simp: modifyE_def)
  qed
qed

lemma removeSeg_cases:
  assumes "removeSeg what k w = (r, w')"
  shows "\<exists>os. (isl r \<and> w' = w\<lparr>dsk := (dsk w)\<lparr>outcomes := os\<rparr>\<rparr>) \<or>
    (r = Inr () \<and> w' = set_segs (AList.delete k (segs (dsk w))) (w\<lparr>dsk := (dsk w)\<lparr>outcomes := os\<rparr>\<rparr>))"
  using assms unfolding removeSeg_def
  by (cases rule: thenE_cases) (fastforce simp: modifyE_def set_segs_def dest: io_cases)+

lemma commit_round_result:
  assumes inv: "wal_inv w" and sd: "seg_done w" and eq: "commit_round w w = (r, w')"
  shows "queue_same w w' \<and> (r = Inr () \<longrightarrow> SegStart (cp w') = SegStart (cp w) + 1 \<and>
    index w' = drop (acked w) (index w) \<and> acked w' = 0)"
  using eq unfolding commit_round_def
proof (cases rule: thenE_cases)
  case (err e)
  then show ?thesis using removeSeg_cases [OF err(1)] queue_same_refl [OF inv] by auto
next
  case (ok a t)
  then obtain os where t: "t = set_segs (AList.delete (SegStart (cp w)) (segs (dsk w)))
      (w\<lparr>dsk := (dsk w)\<lparr>outcomes := os\<rparr>\<rparr>)"
    using removeSeg_cases [OF ok(1)] by auto
  let ?p = "(pruned w)\<lparr>dsk := (dsk (pruned w))\<lparr>outcomes := os\<rparr>\<rparr>"
  have "t\<lparr>cp := (cp t)\<lparr>SegStart := SegStart (cp w) + 1, AckedBytes := 0\<rparr>,
      index := drop (acked t) (index t), acked := 0\<rparr> = ?p"
    by (rule wal.equality) (simp_all add: t pruned_def set_segs_def)
  with ok(2) have fin: "(if SegStart (cp w) = curSeg w then closeRotated else retE ()) ?p = (r, w')"
    by (simp add: thenE_def bindE_def modifyE_def)
  note I = wal_inv_pruned [OF inv sd]
  have cpp: "SegStart (cp ?p) = SegStart (cp w) + 1" "index ?p = drop (acked w) (index w)" "acked ?p = 0"
    "NextSeq (cp ?p) = NextSeq (cp w)" "CursorNs (cp ?p) = CursorNs (cp w)"
    "BackfillNs (cp ?p) = BackfillNs (cp w)" "curSeg ?p = curSeg w"
    by (simp_all add: pruned_def set_segs_def)
  show ?thesis
  proof (cases "SegStart (cp w) = curSeg w")
    case False
    with fin have "w' = ?p" by (simp add: retE_def)
    then show ?thesis using I(1) [OF False] pending_pruned [OF inv sd] cpp by (simp add: queue_same_def)
  next
    case True
    have pend: "pending w = []" using I(4) [OF True] pending_pruned [OF inv sd] by (simp add: pending_def pruned_def)
    from fin True have cr: "closeRotated ?p = (r, w')" by simp
    show ?thesis
      using closeRotated_cases [OF cr] I(2,3,4) [OF True] cpp pend
      by (auto simp: queue_same_def pending_def pruned_rotated_def wal_inv_def handle_ok_def readable_def)
  qed
qed

lemma commitLoop_result:
  assumes "wal_inv w" and "commitLoop fuel b w = (r, w')"
  shows "queue_same w w'"
  using assms
proof (induction fuel arbitrary: b w)
  case 0
  then show ?case by (auto simp: throwE_def queue_same_refl)
next
  case (Suc fuel)
  show ?case
  proof (cases "seg_done w")
    case False
    with Suc.prems show ?thesis by (auto simp: commitLoop_round queue_same_refl simp del: commitLoop.simps)
  next
    case True
    with Suc.prems(2) have "thenE (commit_round w)
        (getE (\<lambda>w. if index w = [] then retE True else commitLoop fuel True)) w = (r, w')"
      by (simp add: commitLoop_round del: commitLoop.simps)
    then show ?thesis
    proof (cases rule: thenE_cases)
      case (err e)
      then show ?thesis using commit_round_result [OF Suc.prems(1) True] by blast
    next
      case (ok a t)
      have qt: "queue_same w t" using commit_round_result [OF Suc.prems(1) True ok(1)] by blast
      then have "wal_inv t" by (simp add: queue_same_def)
      then have "queue_same t w'"
        using ok(2) Suc.IH [of t True] by (auto simp: getE_def retE_def queue_same_refl split: if_splits)
      with qt show ?thesis by (rule queue_same_trans)
    qed
  qed
qed

text \<open>The number of rounds that are needed is bounded by the segments up to the next frame.\<close>

definition rounds :: "wal \<Rightarrow> nat" where
  "rounds w = (if acked w \<ge> length (index w) then 1 else nat (fi_seg (index w ! acked w) - SegStart (cp w)))"

lemma io_not_diverges: "io what w = (r, w') \<Longrightarrow> r \<noteq> Inl CommitDiverges"
  by (auto simp: io_def split: list.splits outcome.splits)

lemma commit_round_not_diverges:
  assumes "commit_round w0 w = (r, w')"
  shows "r \<noteq> Inl CommitDiverges"
  using assms io_not_diverges
  by (fastforce simp: commit_round_def removeSeg_def closeRotated_def closeCur_def op_defs
      split: prod.splits sum.splits if_splits handle.splits)

lemma commitLoop_terminates:
  assumes "wal_inv w" and "rounds w < fuel" and "commitLoop fuel b w = (r, w')"
  shows "r \<noteq> Inl CommitDiverges"
  using assms
proof (induction fuel arbitrary: b w)
  case 0
  then show ?case by simp
next
  case (Suc fuel)
  show ?case
  proof (cases "seg_done w")
    case False
    with Suc.prems show ?thesis by (auto simp: commitLoop_round simp del: commitLoop.simps)
  next
    case True
    with Suc.prems(3) have "thenE (commit_round w)
        (getE (\<lambda>w. if index w = [] then retE True else commitLoop fuel True)) w = (r, w')"
      by (simp add: commitLoop_round del: commitLoop.simps)
    then show ?thesis
    proof (cases rule: thenE_cases)
      case (err e)
      then show ?thesis using commit_round_not_diverges by blast
    next
      case (ok a t)
      note R = commit_round_result [OF Suc.prems(1) True ok(1)]
      have inv: "wal_inv t" using R by (simp add: queue_same_def)
      show ?thesis
      proof (cases "index t = []")
        case True
        with ok(2) show ?thesis by (auto simp: getE_def retE_def)
      next
        case False
        have "acked w < length (index w)" using False R by auto
        then have "index w ! acked w \<in> set (drop (acked w) (index w))"
          using nth_mem [of 0 "drop (acked w) (index w)"] by simp
        moreover have "index t ! acked t = index w ! acked w"
          using False R by (auto simp: hd_drop_conv_nth simp flip: hd_conv_nth)
        ultimately have "index t ! acked t \<in> set (drop (acked w) (index w))" and
          "index t ! acked t = index w ! acked w" by simp_all
        then have "rounds t < fuel"
          using seg_done_later [OF Suc.prems(1) True, of "index w ! acked w"] Suc.prems(2) R False
          by (auto simp: rounds_def)
        then show ?thesis using Suc.IH [OF inv] ok(2) False by (auto simp: getE_def)
      qed
    qed
  qed
qed

lemma commitFuel_enough:
  assumes "wal_inv w" and "acked w < length (index w)"
  shows "rounds (w\<lparr>acked := acked w + 1, cp := (cp w)\<lparr>AckedBytes := k\<rparr>\<rparr>) < commitFuel w"
proof -
  have "fi_seg (index w ! (acked w + 1)) \<le> fi_seg (last (index w))" if "acked w + 1 < length (index w)"
  proof -
    have "sorted (map fi_seg (index w))" using assms(1) by (simp add: wal_inv_def)
    then have "map fi_seg (index w) ! (acked w + 1) \<le> map fi_seg (index w) ! (length (index w) - 1)"
      using that by (intro sorted_nth_mono) auto
    moreover have "index w \<noteq> []" using that by auto
    ultimately show ?thesis using that by (simp add: last_conv_nth)
  qed
  then show ?thesis by (auto simp: rounds_def commitFuel_def)
qed

text \<open>Saving the checkpoint touches nothing but the checkpoint file and its time stamp.\<close>

definition meta_same :: "wal \<Rightarrow> wal \<Rightarrow> bool" where
  "meta_same w0 w \<longleftrightarrow>
     w\<lparr>lastCp := lastCp w0, dsk := (dsk w)\<lparr>ckpt := ckpt (dsk w0), outcomes := outcomes (dsk w0)\<rparr>\<rparr> = w0"

lemma meta_same_refl [simp]: "meta_same w w"
  by (simp add: meta_same_def)

lemma meta_same_fields:
  assumes "meta_same w0 w"
  shows "cp w = cp w0" "index w = index w0" "acked w = acked w0" "curFile w = curFile w0"
    "curSeg w = curSeg w0" "curOffset w = curOffset w0" "segs (dsk w) = segs (dsk w0)"
    "legacyCheckpoint w = legacyCheckpoint w0" "segSize w = segSize w0" "dlqMax w = dlqMax w0"
    "lockHeld w = lockHeld w0" "notify w = notify w0" "dlqFrames (dsk w) = dlqFrames (dsk w0)"
    "dlqMetas (dsk w) = dlqMetas (dsk w0)" "flocked (dsk w) = flocked (dsk w0)"
proof -
  from assms have "f (w\<lparr>lastCp := lastCp w0, dsk := (dsk w)\<lparr>ckpt := ckpt (dsk w0),
      outcomes := outcomes (dsk w0)\<rparr>\<rparr>) = f w0" for f :: "wal \<Rightarrow> 'z"
    by (simp add: meta_same_def)
  note E = this
  show "cp w = cp w0" using E [of cp] by simp
  show "index w = index w0" using E [of index] by simp
  show "acked w = acked w0" using E [of acked] by simp
  show "curFile w = curFile w0" using E [of curFile] by simp
  show "curSeg w = curSeg w0" using E [of curSeg] by simp
  show "curOffset w = curOffset w0" using E [of curOffset] by simp
  show "legacyCheckpoint w = legacyCheckpoint w0" using E [of legacyCheckpoint] by simp
  show "segSize w = segSize w0" using E [of segSize] by simp
  show "dlqMax w = dlqMax w0" using E [of dlqMax] by simp
  show "lockHeld w = lockHeld w0" using E [of lockHeld] by simp
  show "notify w = notify w0" using E [of notify] by simp
  show "segs (dsk w) = segs (dsk w0)" using E [of "\<lambda>w. segs (dsk w)"] by simp
  show "dlqFrames (dsk w) = dlqFrames (dsk w0)" using E [of "\<lambda>w. dlqFrames (dsk w)"] by simp
  show "dlqMetas (dsk w) = dlqMetas (dsk w0)" using E [of "\<lambda>w. dlqMetas (dsk w)"] by simp
  show "flocked (dsk w) = flocked (dsk w0)" using E [of "\<lambda>w. flocked (dsk w)"] by simp
qed

lemma meta_same_simps:
  assumes "meta_same w0 w"
  shows "pending w = pending w0" "wal_inv w = wal_inv w0" "clean w = clean w0"
  using meta_same_fields [OF assms]
  by (simp_all add: pending_def frame_at_def seg_bytes_def wal_inv_def handle_ok_def
      readable_def clean_def split: handle.split cong: map_cong)

lemma keeps_meta_io: "keeps (meta_same w0) (io what)"
  by (rule keeps_io) (auto simp: meta_same_def)

lemma keeps_meta_save: "keeps (meta_same w0) saveCheckpoint"
  unfolding saveCheckpoint_def
  by (intro keeps_then keeps_meta_io keeps_modify) (auto simp: meta_same_def)

lemma keeps_meta_persist: "keeps (meta_same w0) (persistLocked now)"
  unfolding persistLocked_def
  by (intro keeps_then keeps_meta_save keeps_modify) (auto simp: meta_same_def)

lemma keeps_meta_throttled: "keeps (meta_same w0) (persistLockedThrottled now)"
  unfolding persistLockedThrottled_def
  by (intro keeps_get) (auto intro: keeps_meta_persist keeps_ret split: option.splits)

lemma persist_not_diverges:
  "persistLocked now w = (r, w') \<Longrightarrow> r \<noteq> Inl CommitDiverges"
  "persistLockedThrottled now w = (r, w') \<Longrightarrow> r \<noteq> Inl CommitDiverges"
proof -
  show p: "persistLocked now w = (r, w') \<Longrightarrow> r \<noteq> Inl CommitDiverges" for w r w'
    unfolding persistLocked_def saveCheckpoint_def
    by (elim thenE_cases) (auto simp: modifyE_def dest: io_not_diverges)
  show "persistLockedThrottled now w = (r, w') \<Longrightarrow> r \<noteq> Inl CommitDiverges"
    using p by (auto simp: persistLockedThrottled_def getE_def retE_def split: option.splits if_splits)
qed

text \<open>A commit, whatever the file system does.\<close>

lemma pending_ack:
  assumes "acked w < length (index w)"
  shows "pending w = (fi_seq (index w ! acked w), frame_at (dsk w) (index w ! acked w)) #
    pending (w\<lparr>acked := acked w + 1, cp := (cp w)\<lparr>AckedBytes := k\<rparr>\<rparr>)"
  using assms by (simp add: pending_def Cons_nth_drop_Suc [symmetric])

lemma commitLocked_result:
  assumes inv: "wal_inv w" and eq: "commitLocked now seq w = (r, w')"
  shows "(pending w = [] \<and> r = Inl PanicIndex \<and> w' = w) \<or>
    (\<exists>s b rest. pending w = (s, b) # rest \<and> s \<noteq> seq \<and> r = Inl (ErrCommitOutOfOrder seq s) \<and> w' = w) \<or>
    (\<exists>b rest. pending w = (seq, b) # rest \<and> pending w' = rest \<and> wal_inv w' \<and>
       r \<noteq> Inl CommitDiverges \<and> NextSeq (cp w') = NextSeq (cp w) \<and> CursorNs (cp w') = CursorNs (cp w) \<and>
       BackfillNs (cp w') = BackfillNs (cp w))"
proof (cases "acked w < length (index w)")
  case False
  with eq show ?thesis by (auto simp: commitLocked_def getE_def throwE_def pending_def)
next
  case lt: True
  let ?cur = "index w ! acked w"
  let ?k = "int (fi_offset ?cur + recordHeadLen + fi_length ?cur)"
  let ?w1 = "w\<lparr>acked := acked w + 1, cp := (cp w)\<lparr>AckedBytes := ?k\<rparr>\<rparr>"
  note pa = pending_ack [OF lt, of ?k]
  show ?thesis
  proof (cases "fi_seq ?cur = seq")
    case False
    with eq lt pa show ?thesis by (auto simp: commitLocked_def getE_def throwE_def)
  next
    case True
    have inv1: "wal_inv ?w1" using inv lt by (auto simp: wal_inv_def handle_ok_def split: handle.splits)
    from eq lt True have "bindE (commitLoop (commitFuel w) False) (\<lambda>segRemoved.
        if segRemoved then persistLocked now else persistLockedThrottled now) ?w1 = (r, w')"
      by (simp add: commitLocked_def getE_def thenE_def bindE_def modifyE_def Let_def)
    then have "queue_same ?w1 w' \<and> r \<noteq> Inl CommitDiverges"
    proof (cases rule: bindE_cases)
      case (err e)
      then show ?thesis
        using commitLoop_result [OF inv1] commitLoop_terminates [OF inv1 commitFuel_enough [OF inv lt]] by blast
    next
      case (ok b t)
      have "meta_same t w'" "r \<noteq> Inl CommitDiverges"
        using ok(2) keepsD [OF keeps_meta_persist meta_same_refl] keepsD [OF keeps_meta_throttled meta_same_refl]
          persist_not_diverges by (auto split: if_splits)
      then show ?thesis
        using commitLoop_result [OF inv1 ok(1)] meta_same_simps [of t w'] meta_same_fields [of t w']
        by (simp add: queue_same_def)
    qed
    then show ?thesis using pa True by (auto simp: queue_same_def)
  qed
qed

section \<open>Commits succeed on a healthy WAL\<close>

lemma healthy_pruned:
  assumes "healthy w" and "seg_done w"
  shows "SegStart (cp w) \<noteq> curSeg w \<Longrightarrow> healthy (pruned w)"
    and "SegStart (cp w) = curSeg w \<Longrightarrow> healthy (pruned_rotated w)"
proof -
  have inv: "wal_inv w" and c: "calm w" and cl: "clean w" using assms(1) by (auto simp: healthy_def)
  have calm: "calm (pruned w)" "calm (pruned_rotated w)"
    using c by (simp_all add: calm_def pruned_rotated_def pruned_def set_segs_def)
  have "clean (pruned w)" if "SegStart (cp w) \<noteq> curSeg w"
    using cl inv that
    by (auto simp: clean_def pruned_def set_segs_def seg_bytes_delete wal_inv_def handle_ok_def split: handle.splits)
  with calm(1) show "healthy (pruned w)" if "SegStart (cp w) \<noteq> curSeg w"
    using wal_inv_pruned(1) [OF inv assms(2) that] that by (simp add: healthy_def)
  show "healthy (pruned_rotated w)" if "SegStart (cp w) = curSeg w"
    using wal_inv_pruned(2) [OF inv assms(2) that] calm(2)
    by (simp add: healthy_def clean_def pruned_rotated_def)
qed

lemma commit_round_healthy:
  assumes "healthy w" and "seg_done w"
  shows "\<exists>w'. commit_round w w = (Inr (), w') \<and> healthy w'"
proof -
  have inv: "wal_inv w" and c: "outcomes (dsk w) = []" and o: "curFile w \<noteq> HClosed"
    using assms(1) by (auto simp: healthy_def clean_def calm_def)
  have p: "(set_segs (AList.delete (SegStart (cp w)) (segs (dsk w))) w)\<lparr>
      cp := (cp w)\<lparr>SegStart := SegStart (cp w) + 1, AckedBytes := 0\<rparr>,
      index := drop (acked w) (index w), acked := 0\<rparr> = pruned w"
    by (simp add: pruned_def)
  have "commit_round w w = (if SegStart (cp w) = curSeg w then closeRotated else retE ()) (pruned w)"
    using c p by (simp add: commit_round_def removeSeg_def op_defs set_segs_def)
  moreover have "closeRotated (pruned w) = (Inr (), pruned_rotated w)"
    using c o by (cases "curFile w")
      (simp_all add: closeRotated_def closeCur_def op_defs pruned_def set_segs_def pruned_rotated_def)
  ultimately show ?thesis using healthy_pruned [OF assms] by (auto simp: retE_def)
qed

lemma commitLoop_healthy:
  assumes "healthy w" and "rounds w < fuel"
  shows "\<exists>b' w'. commitLoop fuel b w = (Inr b', w') \<and> healthy w'"
proof -
  have "(\<exists>b' w'. commitLoop fuel b w = (Inr b', w') \<and> healthy w') \<or>
      fst (commitLoop fuel b w) = Inl CommitDiverges"
    using assms(1)
  proof (induction fuel arbitrary: b w)
    case 0
    then show ?case by (simp add: throwE_def)
  next
    case (Suc fuel)
    show ?case
    proof (cases "seg_done w")
      case True
      then obtain t where t: "commit_round w w = (Inr (), t)" "healthy t"
        using commit_round_healthy [OF Suc.prems] by blast
      have "commitLoop (Suc fuel) b w = (if index t = [] then retE True else commitLoop fuel True) t"
        using True t(1) by (simp add: commitLoop_round thenE_def bindE_def getE_def del: commitLoop.simps)
      then show ?thesis using Suc.IH [OF t(2), of True] t(2) by (auto simp: retE_def)
    qed (use Suc.prems in \<open>auto simp: commitLoop_round simp del: commitLoop.simps\<close>)
  qed
  moreover have "fst (commitLoop fuel b w) \<noteq> Inl CommitDiverges"
    using commitLoop_terminates [OF _ assms(2), of b] assms(1)
    by (metis healthy_def prod.collapse)
  ultimately show ?thesis by blast
qed

lemma persist_calm:
  assumes "calm w"
  shows "persistLocked now w = (Inr (), w\<lparr>dsk := (dsk w)\<lparr>ckpt := Ckpt (cp w)\<rparr>, lastCp := Some now\<rparr>)"
  using assms by (simp add: calm_def persistLocked_def saveCheckpoint_def op_defs)

lemma healthy_meta: "meta_same w w' \<Longrightarrow> calm w' \<Longrightarrow> healthy w \<Longrightarrow> healthy w'"
  using meta_same_simps [of w w'] by (simp add: healthy_def)

lemma persist_healthy:
  assumes "healthy w"
  shows "\<exists>w'. persistLocked now w = (Inr (), w') \<and> healthy w' \<and> meta_same w w' \<and> ckpt (dsk w') = Ckpt (cp w)"
    and "\<exists>w'. persistLockedThrottled now w = (Inr (), w') \<and> healthy w' \<and> meta_same w w'"
proof -
  let ?w = "w\<lparr>dsk := (dsk w)\<lparr>ckpt := Ckpt (cp w)\<rparr>, lastCp := Some now\<rparr>"
  have c: "calm w" using assms by (simp add: healthy_def)
  have "meta_same w ?w" by (simp add: meta_same_def)
  moreover have "calm ?w" using c by (simp add: calm_def)
  ultimately show p: "\<exists>w'. persistLocked now w = (Inr (), w') \<and> healthy w' \<and> meta_same w w' \<and> ckpt (dsk w') = Ckpt (cp w)"
    using persist_calm [OF c] healthy_meta [OF _ _ assms] by simp
  then show "\<exists>w'. persistLockedThrottled now w = (Inr (), w') \<and> healthy w' \<and> meta_same w w'"
    using assms by (auto simp: persistLockedThrottled_def getE_def retE_def split: option.split)
qed

lemma Commit_healthy:
  assumes h: "healthy w" and p: "pending w = (seq, b) # rest"
  shows "\<exists>w'. Commit now seq w = (Inr (), w') \<and> healthy w' \<and> pending w' = rest"
proof -
  have inv: "wal_inv w" using h by (simp add: healthy_def)
  have lt: "acked w < length (index w)"
    using p by (cases "acked w < length (index w)") (auto simp: pending_def)
  let ?k = "int (fi_offset (index w ! acked w) + recordHeadLen + fi_length (index w ! acked w))"
  let ?w1 = "w\<lparr>acked := acked w + 1, cp := (cp w)\<lparr>AckedBytes := ?k\<rparr>\<rparr>"
  have sq: "fi_seq (index w ! acked w) = seq" using p pending_ack [OF lt, of ?k] by simp
  have h1: "healthy ?w1"
    using h lt by (auto simp: healthy_def wal_inv_def handle_ok_def calm_def clean_def split: handle.splits)
  obtain c t where t: "commitLoop (commitFuel w) False ?w1 = (Inr c, t)" "healthy t"
    using commitLoop_healthy [OF h1 commitFuel_enough [OF inv lt]] by blast
  have "commitLocked now seq w = (if c then persistLocked now else persistLockedThrottled now) t"
    using lt sq t(1) by (simp add: commitLocked_def op_defs Let_def)
  moreover obtain w' where "(if c then persistLocked now else persistLockedThrottled now) t = (Inr (), w')"
    "healthy w'" using persist_healthy [OF t(2), of now] by (cases c) auto
  ultimately have eq: "commitLocked now seq w = (Inr (), w')" "healthy w'" by simp_all
  then show ?thesis using commitLocked_result [OF inv eq(1)] p by (auto simp: Commit_def)
qed

end
