(* ===== verification/Wal_Contract.thy ===== *)
theory Wal_Contract
  imports Wal_Queue
begin

text \<open>
  What the WAL promises to its clients: the queue interface as locales, interpreted on the
  operations of theory \<open>Wal\<close>, and the results of the remaining operations (dead letters,
  cursor, backfill policy), followed by the properties of the WAL as a queue.
\<close>

section \<open>The queue interface\<close>

text \<open>
  What the sender and the poller rely on. \<open>safe_queue\<close> are the laws that hold whatever
  the file system does: an append adds frames behind the pending ones and nothing else, a batch
  that is reported as written is there in full, reading changes nothing and returns the oldest
  frames, and a commit removes the oldest frame if it has the given number and nothing otherwise.
\<close>

definition ordered :: "u64 \<Rightarrow> (u64 \<times> bytes) list \<Rightarrow> bool" where
  "ordered n fs \<longleftrightarrow> sorted_wrt (<) (map fst fs) \<and> (\<forall>x\<in>set fs. fst x < n)"

lemma ordered_distinct: "ordered n fs \<Longrightarrow> distinct (map fst fs)"
  by (auto simp: ordered_def strict_sorted_iff)

lemma ordered_suffix: "ordered n (xs @ ys) \<Longrightarrow> ordered n ys"
  by (simp add: ordered_def sorted_wrt_append)

lemma ordered_seqs_from:
  assumes "unat (n :: u64) + k < 2 ^ 64"
  shows "sorted_wrt (<) (seqs_from n k) \<and> (\<forall>x\<in>set (seqs_from n k). n \<le> x \<and> x < n + word_of_nat k)"
  using assms
proof (induction k arbitrary: n)
  case (Suc k)
  have n1: "unat (n + 1) = unat n + 1" and nk: "unat (n + word_of_nat (Suc k)) = unat n + Suc k"
    using Suc.prems by (simp_all add: unat_word_ariths take_bit_nat_def nat_less_le unat_of_nat)
  then have "n < n + 1" "n < n + word_of_nat (Suc k)" by (simp_all add: word_less_nat_alt)
  moreover have "n + word_of_nat (Suc k) = n + 1 + word_of_nat k" by simp
  ultimately show ?case using Suc.IH [of "n + 1"] Suc.prems n1
    by (auto simp: add.assoc intro: order.strict_trans1 less_imp_le order.trans)
qed simp

lemma ordered_append:
  assumes "ordered n fs" and "map fst new = seqs_from n (length new)" and "unat n + length new < 2 ^ 64"
  shows "ordered (n + word_of_nat (length new)) (fs @ new)"
proof -
  note S = ordered_seqs_from [OF assms(3)]
  have new: "fst x \<in> set (seqs_from n (length new))" if "x \<in> set new" for x using that assms(2) by (metis image_eqI set_map)
  have "n \<le> n + word_of_nat (length new)" using assms(3) by (simp add: word_le_nat_alt unat_word_ariths unat_of_nat)
  then have "fst x < n + word_of_nat (length new)" if "x \<in> set fs" for x
    using that assms(1) by (auto simp: ordered_def intro: order.strict_trans2)
  then show ?thesis using assms(1,2) S new
    by (auto simp: ordered_def sorted_wrt_append intro: order.strict_trans2)
qed

locale safe_queue =
  fixes inv :: "'s \<Rightarrow> bool" and frames :: "'s \<Rightarrow> (u64 \<times> bytes) list"
    and append :: "bytes list \<Rightarrow> ('s, 'e, u64 list) op"
    and peek :: "int \<Rightarrow> ('s, 'e, (u64 \<times> bytes) list) op"
    and commit :: "u64 \<Rightarrow> ('s, 'e, unit) op" and nextseq :: "'s \<Rightarrow> u64" and cursor :: "'s \<Rightarrow> int"
  assumes append_keeps: "inv s \<Longrightarrow> append fbs s = (r, s') \<Longrightarrow>
      inv s' \<and> cursor s' = cursor s \<and>
      (\<exists>new. frames s' = frames s @ new \<and> map fst new = seqs_from (nextseq s) (length new) \<and>
        nextseq s' = nextseq s + word_of_nat (length new))"
    and peek_keeps: "inv s \<Longrightarrow> peek n s = (rp, s') \<Longrightarrow>
      inv s' \<and> frames s' = frames s \<and> nextseq s' = nextseq s \<and> cursor s' = cursor s"
    and peek_oldest: "inv s \<Longrightarrow> peek n s = (Inr xs, s') \<Longrightarrow>
      xs \<noteq> [] \<and> (\<exists>rest. frames s = xs @ rest) \<and> (0 < n \<longrightarrow> length xs \<le> nat n)"
    and commit_keeps: "inv s \<Longrightarrow> commit seq s = (rc, s') \<Longrightarrow> inv s' \<and> nextseq s' = nextseq s \<and> cursor s' = cursor s \<and>
      (frames s' = frames s \<and> isl rc \<or> (\<exists>b. frames s = (seq, b) # frames s'))"
begin

text \<open>The numbers in the queue ascend and stay below the next one, until the counter is used up.\<close>

lemma append_ordered:
  assumes "inv s" and "append fbs s = (r, s')" and "ordered (nextseq s) (frames s)"
    and "unat (nextseq s) + (length (frames s') - length (frames s)) < 2 ^ 64"
  shows "ordered (nextseq s') (frames s')"
proof -
  obtain new where new: "frames s' = frames s @ new" "map fst new = seqs_from (nextseq s) (length new)"
    "nextseq s' = nextseq s + word_of_nat (length new)" using append_keeps [OF assms(1,2)] by blast
  then show ?thesis using ordered_append [OF assms(3) new(2)] assms(4) by simp
qed

text \<open>Committing a list of numbers in turn, stopping at the first error.\<close>

fun commits :: "u64 list \<Rightarrow> ('s, 'e, unit) op" where
  "commits [] = retE ()"
| "commits (q # qs) = thenE (commit q) (commits qs)"

lemma commits_prefix:
  assumes "inv s" and "commits qs s = (r, s')"
  shows "inv s' \<and> (\<exists>gone. frames s = gone @ frames s' \<and> (\<exists>rest. qs = map fst gone @ rest \<and> (\<not> isl r \<longrightarrow> rest = [])))"
  using assms
proof (induction qs arbitrary: s)
  case Nil
  then show ?case by (auto simp: retE_def)
next
  case (Cons q qs)
  from Cons.prems(2) have "thenE (commit q) (commits qs) s = (r, s')" by simp
  then show ?case
  proof (cases rule: thenE_cases)
    case (err e)
    with commit_keeps [OF Cons.prems(1) err(1)] show ?thesis
      by (auto intro: exI [of _ "[]"] exI [of _ "[(q, b)]" for b])
  next
    case (ok a t)
    have k: "inv t" "\<exists>b. frames s = (q, b) # frames t"
      using commit_keeps [OF Cons.prems(1) ok(1)] by auto
    then obtain b where b: "frames s = (q, b) # frames t" by blast
    from Cons.IH [OF k(1) ok(2)] obtain gone rest where "inv s'" "frames t = gone @ frames s'"
      "qs = map fst gone @ rest" "\<not> isl r \<longrightarrow> rest = []" by blast
    with b show ?thesis by (intro conjI exI [of _ "(q, b) # gone"]) auto
  qed
qed

text \<open>Whatever a client commits, the frames leave the queue from its front only.\<close>

lemma commits_suffix:
  assumes "inv s" and "commits qs s = (r, s')"
  shows "frames s' = drop (length (frames s) - length (frames s')) (frames s)"
  using commits_prefix [OF assms] by auto

end

text \<open>
  \<open>live_queue\<close> adds what holds while the file system works: appends, reads and commits
  succeed.
\<close>

locale live_queue = safe_queue inv frames append peek commit nextseq cursor
  for inv :: "'s \<Rightarrow> bool" and frames :: "'s \<Rightarrow> (u64 \<times> bytes) list"
    and append :: "bytes list \<Rightarrow> ('s, 'e, u64 list) op"
    and peek :: "int \<Rightarrow> ('s, 'e, (u64 \<times> bytes) list) op"
    and commit :: "u64 \<Rightarrow> ('s, 'e, unit) op" and nextseq :: "'s \<Rightarrow> u64" and cursor :: "'s \<Rightarrow> int" +
  fixes up :: "'s \<Rightarrow> bool" and wf :: "bytes \<Rightarrow> bool"
    and sealed :: "u64 \<Rightarrow> bytes list \<Rightarrow> (u64 \<times> bytes) list"
  assumes up_inv: "up s \<Longrightarrow> inv s"
    and append_live: "up s \<Longrightarrow> \<forall>fb\<in>set fbs. wf fb \<Longrightarrow>
      \<exists>s'. append fbs s = (Inr (map fst (sealed (nextseq s) fbs)), s') \<and> up s' \<and>
        frames s' = frames s @ sealed (nextseq s) fbs"
    and peek_live: "up s \<Longrightarrow> frames s \<noteq> [] \<Longrightarrow> 0 < n \<Longrightarrow> peek n s = (Inr (take (nat n) (frames s)), s)"
    and commit_live: "up s \<Longrightarrow> frames s = (seq, b) # rest \<Longrightarrow>
      \<exists>s'. commit seq s = (Inr (), s') \<and> up s' \<and> frames s' = rest"
begin

lemma commits_live:
  assumes "up s" and "frames s = gone @ rest"
  shows "\<exists>s'. commits (map fst gone) s = (Inr (), s') \<and> up s' \<and> frames s' = rest"
  using assms
proof (induction "gone" arbitrary: s)
  case Nil
  then show ?case by (auto simp: retE_def)
next
  case (Cons d ds)
  obtain q b where d: "d = (q, b)" by fastforce
  with Cons.prems obtain t where t: "commit q s = (Inr (), t)" "up t" "frames t = ds @ rest"
    using commit_live [of s q b "ds @ rest"] by auto
  with Cons.IH [OF t(2,3)] d show ?case by (auto simp: thenE_def bindE_def)
qed

text \<open>
  A batch that is appended to an empty queue is read back whole and in order, and committing it
  leaves the queue empty.
\<close>

lemma append_peek_drain:
  assumes "up s" and "frames s = []" and "\<forall>fb\<in>set fbs. wf fb"
    and "sealed (nextseq s) fbs \<noteq> []" and "length (sealed (nextseq s) fbs) \<le> nat n" and "0 < n"
  shows "\<exists>s1 s2. append fbs s = (Inr (map fst (sealed (nextseq s) fbs)), s1) \<and>
    peek n s1 = (Inr (sealed (nextseq s) fbs), s1) \<and>
    commits (map fst (sealed (nextseq s) fbs)) s1 = (Inr (), s2) \<and> up s2 \<and> frames s2 = []"
proof -
  obtain s1 where s1: "append fbs s = (Inr (map fst (sealed (nextseq s) fbs)), s1)" "up s1"
    "frames s1 = sealed (nextseq s) fbs" using append_live [OF assms(1,3)] assms(2) by auto
  have "peek n s1 = (Inr (sealed (nextseq s) fbs), s1)"
    using peek_live [OF s1(2) _ assms(6)] s1(3) assms(4,5) by simp
  moreover obtain s2 where "commits (map fst (sealed (nextseq s) fbs)) s1 = (Inr (), s2)"
    "up s2" "frames s2 = []" using commits_live [OF s1(2), of "sealed (nextseq s) fbs" "[]"] s1(3) by auto
  ultimately show ?thesis using s1 by blast
qed

end

lemma map_fst_batch [simp]: "map fst (batch_frames s fbs) = seqs_from s (length fbs)"
  by (induction fbs arbitrary: s) simp_all

lemma length_batch_frames [simp]: "length (batch_frames s fbs) = length fbs"
  by (induction fbs arbitrary: s) simp_all

interpretation wq: safe_queue wal_inv pending "AppendBatch ft" PeekBatch "Commit now" "\<lambda>w. NextSeq (cp w)" Cursor
proof
  show "wal_inv s' \<and> Cursor s' = Cursor s \<and>
      (\<exists>new. pending s' = pending s @ new \<and> map fst new = seqs_from (NextSeq (cp s)) (length new) \<and>
      NextSeq (cp s') = NextSeq (cp s) + word_of_nat (length new))"
    if "wal_inv s" "AppendBatch ft fbs s = (r, s')" for s fbs r s'
    using AppendBatch_result [OF that] pending_appended [of s s'] that(1) by (auto simp: appended_def Cursor_def)
  show "wal_inv s' \<and> pending s' = pending s \<and> NextSeq (cp s') = NextSeq (cp s) \<and> Cursor s' = Cursor s" if "wal_inv s" "PeekBatch n s = (r, s')" for s n r s'
    using PeekBatch_result [OF that] that(1) by (auto simp: Cursor_def)
  show "xs \<noteq> [] \<and> (\<exists>rest. pending s = xs @ rest) \<and> (0 < n \<longrightarrow> length xs \<le> nat n)"
    if "wal_inv s" "PeekBatch n s = (Inr xs, s')" for s n xs s'
    using PeekBatch_result [OF that] append_take_drop_id [of "nat n" "pending s"]
    by (auto intro: exI [of _ "[]"] exI [of _ "drop (nat n) (pending s)"])
  show "wal_inv s' \<and> NextSeq (cp s') = NextSeq (cp s) \<and> Cursor s' = Cursor s \<and> (pending s' = pending s \<and> isl r \<or> (\<exists>b. pending s = (seq, b) # pending s'))"
    if "wal_inv s" "Commit now seq s = (r, s')" for s seq r s'
    using commitLocked_result [OF that(1), of now seq r s'] that by (auto simp: Commit_def Cursor_def)
qed

interpretation wq: live_queue wal_inv pending "AppendBatch ft" PeekBatch "Commit now" "\<lambda>w. NextSeq (cp w)" Cursor
  healthy "\<lambda>fb. HeaderSize \<le> length fb" batch_frames
proof
  show "wal_inv s" if "healthy s" for s using that by (simp add: healthy_def)
  show "\<exists>s'. AppendBatch ft fbs s = (Inr (map fst (batch_frames (NextSeq (cp s)) fbs)), s') \<and>
      healthy s' \<and> pending s' = pending s @ batch_frames (NextSeq (cp s)) fbs"
    if "healthy s" "\<forall>fb\<in>set fbs. HeaderSize \<le> length fb" for s fbs
    using AppendBatch_healthy [OF that, of ft] by auto
  show "PeekBatch n s = (Inr (take (nat n) (pending s)), s)"
    if "healthy s" "pending s \<noteq> []" "0 < n" for s n
    using PeekBatch_healthy [OF that(1), of n] that by simp
  show "\<exists>s'. Commit now seq s = (Inr (), s') \<and> healthy s' \<and> pending s' = rest"
    if "healthy s" "pending s = (seq, b) # rest" for s seq b rest
    using Commit_healthy [OF that] by blast
qed

section \<open>Cursor, policy and dead letters\<close>

text \<open>Committing does not touch the dead letters.\<close>

abbreviation dlq_is :: "(u64 \<times> bytes) list \<Rightarrow> wal \<Rightarrow> bool" where
  "dlq_is F w \<equiv> dlqFrames (dsk w) = F"

lemma dlq_io [keeps_intro]: "keeps (dlq_is F) (io what)"
  by (rule keeps_io) simp

lemma dlq_removeSeg [keeps_intro]: "keeps (dlq_is F) (removeSeg what k)"
  unfolding removeSeg_def by (intro keeps_intro keeps_modify) (simp add: set_segs_def)

lemma dlq_closeRotated [keeps_intro]: "keeps (dlq_is F) closeRotated"
  by (rule keepsI, drule closeRotated_cases) auto

lemma dlq_persist [keeps_intro]:
  "keeps (dlq_is F) (persistLocked now)" "keeps (dlq_is F) (persistLockedThrottled now)"
proof -
  show p: "keeps (dlq_is F) (persistLocked now)"
    unfolding persistLocked_def saveCheckpoint_def by (intro keeps_intro keeps_modify) simp_all
  show "keeps (dlq_is F) (persistLockedThrottled now)"
    unfolding persistLockedThrottled_def by (intro keeps_get) (auto split: option.split intro: keeps_ret p)
qed

lemma dlq_commitLoop [keeps_intro]: "keeps (dlq_is F) (commitLoop fuel b)"
proof (induction fuel arbitrary: b)
  case 0
  show ?case by (simp add: keeps_throw)
next
  case (Suc fuel)
  show ?case unfolding commitLoop.simps Let_def
    by (intro keeps_intro keeps_modify Suc.IH) simp
qed

lemma dlq_commitLocked: "keeps (dlq_is F) (commitLocked now seq)"
  unfolding commitLocked_def Let_def by (intro keeps_intro keeps_modify) simp_all

text \<open>A dead letter is written without touching anything else.\<close>

definition dlq_only :: "wal \<Rightarrow> wal \<Rightarrow> bool" where
  "dlq_only w0 w \<longleftrightarrow> w\<lparr>dsk := (dsk w)\<lparr>dlqFrames := dlqFrames (dsk w0), dlqMetas := dlqMetas (dsk w0),
     outcomes := outcomes (dsk w0)\<rparr>\<rparr> = w0"

lemma dlq_only_writeDLQ: "keeps (dlq_only w0) (writeDLQ seq fb meta)"
  unfolding writeDLQ_def
  by (intro keeps_then; rule keepsI)
    (auto simp: writeFile_def dlq_only_def split: list.splits outcome.splits)

lemma dlq_only_refl: "dlq_only w w"
  by (simp add: dlq_only_def)

lemma dlq_only_io: "keeps (dlq_only w0) (io what)"
  by (rule keeps_io) (simp add: dlq_only_def)

lemma dlq_only_same:
  assumes "dlq_only w0 w"
  shows "pending w = pending w0" "wal_inv w = wal_inv w0" "cp w = cp w0"
proof -
  have "pending (w\<lparr>dsk := (dsk w)\<lparr>dlqFrames := f, dlqMetas := m, outcomes := os\<rparr>\<rparr>) = pending w"
    "wal_inv (w\<lparr>dsk := (dsk w)\<lparr>dlqFrames := f, dlqMetas := m, outcomes := os\<rparr>\<rparr>) = wal_inv w" for f m os
    by (simp_all add: pending_def frame_at_def seg_bytes_def wal_inv_def handle_ok_def readable_def
        split: handle.split)
  with assms show "pending w = pending w0" "wal_inv w = wal_inv w0" unfolding dlq_only_def by metis+
  show "cp w = cp w0" using arg_cong [OF assms [unfolded dlq_only_def], of cp] by simp
qed

lemma writeDLQ_stored:
  assumes "writeDLQ seq fb meta w = (Inr a, w')"
  shows "map_of (dlqFrames (dsk w')) seq = Some fb" "map_of (dlqMetas (dsk w')) seq = Some meta"
  using assms unfolding writeDLQ_def
  by (auto elim!: thenE_cases simp: writeFile_def update_conv' split: list.splits outcome.splits)

lemma MoveToDLQ_result:
  assumes inv: "wal_inv w" and eq: "MoveToDLQ now seq meta w = (r, w')"
  shows "wal_inv w' \<and> (pending w' = pending w \<and> isl r \<or>
    (\<exists>b. pending w = (seq, b) # pending w' \<and> map_of (dlqFrames (dsk w')) seq = Some b))"
proof (cases "acked w \<ge> length (index w) \<or> fi_seq (index w ! acked w) \<noteq> seq")
  case True
  with eq inv show ?thesis by (auto simp: MoveToDLQ_def getE_def throwE_def)
next
  case False
  let ?fi = "index w ! acked w"
  let ?b = "frame_at (dsk w) ?fi"
  have mem: "?fi \<in> set (index w)" using False by simp
  have rd: "readAt (map_of (segs (dsk w)) (fi_seg ?fi)) (fi_offset ?fi + recordHeadLen) (fi_length ?fi) = Some ?b"
    using inv mem by (fastforce simp: wal_inv_def readable_def readAt_def frame_at_def seg_bytes_def)
  let ?rest = "thenE (writeDLQ seq ?b meta) (commitLocked now seq)"
  from eq False rd have "thenE (io ''open seg for dlq'') (
      if int (dlqSize (dsk w)) > dlqMax w then throwE (ErrDlqOverCapacity (dlqSize (dsk w)))
      else thenE (io ''mkdir dlq'') ?rest) w = (r, w')"
    by (simp add: MoveToDLQ_def getE_def Let_def)
  then consider (early) "dlq_only w w'" "isl r" | (wr) t where "dlq_only w t" "?rest t = (r, w')"
  proof (cases rule: thenE_cases)
    case (err e)
    then show ?thesis using early keepsD [OF dlq_only_io dlq_only_refl err(1)] by simp
  next
    case (ok a t)
    have t: "dlq_only w t" by (rule keepsD [OF dlq_only_io dlq_only_refl ok(1)])
    show ?thesis
    proof (cases "int (dlqSize (dsk w)) > dlqMax w")
      case True
      with ok(2) t early show ?thesis by (auto simp: throwE_def)
    next
      case False
      with ok(2) have "thenE (io ''mkdir dlq'') ?rest t = (r, w')" by simp
      then show ?thesis using early wr keepsD [OF dlq_only_io t] by (cases rule: thenE_cases) auto
    qed
  qed
  then show ?thesis
  proof cases
    case early
    then show ?thesis using inv dlq_only_same [of w w'] by simp
  next
    case wr
    from wr(2) show ?thesis
    proof (cases rule: thenE_cases)
      case (err e)
      then show ?thesis using keepsD [OF dlq_only_writeDLQ wr(1) err(1)] inv dlq_only_same [of w w'] by simp
    next
      case (ok a u)
      have u: "wal_inv u" "pending u = pending w"
        using keepsD [OF dlq_only_writeDLQ wr(1) ok(1)] inv dlq_only_same [of w u] by simp_all
      have st: "map_of (dlqFrames (dsk w')) seq = Some ?b"
        using writeDLQ_stored(1) [OF ok(1)] keepsD [OF dlq_commitLocked refl ok(2)] by simp
      have hd: "pending w = (seq, ?b) # pending (w\<lparr>acked := acked w + 1, cp := (cp w)\<lparr>AckedBytes := 0\<rparr>\<rparr>)"
        using pending_ack [of w 0] False by simp
      show ?thesis using commitLocked_result [OF u(1) ok(2)] u(2) st hd by auto
    qed
  qed
qed

lemma SetCursor_result:
  assumes "SetCursor now ts w = (r, w')"
  shows "(ts < CursorNs (cp w) \<and> r = Inl (ErrCursorRegress (CursorNs (cp w)) ts) \<and> w' = w) \<or>
    (CursorNs (cp w) \<le> ts \<and> meta_same (w\<lparr>cp := (cp w)\<lparr>CursorNs := ts\<rparr>\<rparr>) w')"
proof (cases "ts < CursorNs (cp w)")
  case True
  with assms show ?thesis by (auto simp: SetCursor_def getE_def throwE_def)
next
  case False
  with assms have "persistLocked now (w\<lparr>cp := (cp w)\<lparr>CursorNs := ts\<rparr>\<rparr>) = (r, w')"
    by (simp add: SetCursor_def op_defs)
  then show ?thesis using keepsD [OF keeps_meta_persist meta_same_refl] False by simp
qed

lemma cp_cursor_queue [simp]:
  "pending (w\<lparr>cp := (cp w)\<lparr>CursorNs := c\<rparr>\<rparr>) = pending w"
  "wal_inv (w\<lparr>cp := (cp w)\<lparr>CursorNs := c\<rparr>\<rparr>) = wal_inv w"
  by (simp_all add: pending_def wal_inv_def handle_ok_def split: handle.split)

lemma appended_cp:
  assumes "appended w0 w"
  shows "CursorNs (cp w) = CursorNs (cp w0)" "BackfillNs (cp w) = BackfillNs (cp w0)"
proof -
  from assms have "cp w = (cp w0)\<lparr>NextSeq := NextSeq (cp w)\<rparr>" by (simp add: appended_def)
  from arg_cong [OF this, of CursorNs] arg_cong [OF this, of BackfillNs]
  show "CursorNs (cp w) = CursorNs (cp w0)" "BackfillNs (cp w) = BackfillNs (cp w0)" by simp_all
qed

section \<open>A small WAL\<close>

text \<open>An empty directory, and the WAL that is open on it with one heartbeat-sized frame in it.\<close>

definition empty_disk :: disk where
  "empty_disk = \<lparr>segs = [], ckpt = CkptNone, dlqFrames = [], dlqMetas = [], flocked = False, outcomes = []\<rparr>"

definition small_frame :: bytes where
  "small_frame = encodeRaw TypeData 1 [] 0"

definition small_wal :: wal where
  "small_wal = (fresh_wal 1000 empty_disk)\<lparr>cp := zero_checkpoint\<lparr>NextSeq := 2\<rparr>, curFile := HOpen 0,
     curOffset := 24, lockHeld := True, notify := True,
     index := [\<lparr>fi_seg = 0, fi_offset = 0, fi_length = 20, fi_seq = 1, fi_typ = TypeData\<rparr>],
     dsk := empty_disk\<lparr>segs := [(0, encodeRecord small_frame)], flocked := True\<rparr>\<rparr>"

lemma length_small_frame [simp]: "length small_frame = 20"
  by (simp add: small_frame_def HeaderSize_def)

lemma small_wal_healthy: "healthy small_wal"
  by (simp add: healthy_def wal_inv_def handle_ok_def calm_def clean_def small_wal_def fresh_wal_def
      empty_disk_def zero_checkpoint_def readable_def seg_bytes_def recordHeadLen_def)

lemma small_wal_inv: "wal_inv small_wal"
  using small_wal_healthy by (simp add: healthy_def)

lemma small_wal_pending: "pending small_wal = [(1, small_frame)]"
  by (simp add: pending_def small_wal_def fresh_wal_def frame_at_def seg_bytes_def empty_disk_def
      encodeRecord_def recordHeadLen_def goslice_def)

lemma small_wal_cp: "NextSeq (cp small_wal) = 2" "CursorNs (cp small_wal) = 0" "BackfillNs (cp small_wal) = 0"
  "legacyCheckpoint small_wal = False"
  by (simp_all add: small_wal_def fresh_wal_def zero_checkpoint_def)

text \<open>The WAL after its frame is committed: nothing pending, the segment file not yet created.\<close>

definition empty_wal :: wal where
  "empty_wal = small_wal\<lparr>index := [], curFile := HNil, curSeg := 1, curOffset := 0,
     cp := (cp small_wal)\<lparr>SegStart := 1\<rparr>, dsk := (dsk small_wal)\<lparr>segs := []\<rparr>\<rparr>"

lemma empty_wal_facts: "healthy empty_wal" "pending empty_wal = []" "NextSeq (cp empty_wal) = 2"
  by (simp_all add: healthy_def wal_inv_def handle_ok_def calm_def clean_def empty_wal_def small_wal_def
      fresh_wal_def empty_disk_def zero_checkpoint_def pending_def)

text \<open>The same WAL on a disk whose second write tears.\<close>

definition torn_wal :: wal where
  "torn_wal = small_wal\<lparr>dsk := (dsk small_wal)\<lparr>outcomes := [IoOk, IoFail 7]\<rparr>\<rparr>"

lemma torn_wal_facts: "wal_inv torn_wal" "pending torn_wal = [(1, small_frame)]"
  by (simp_all add: torn_wal_def small_wal_inv small_wal_pending)

section \<open>Properties of the WAL as a queue\<close>

text \<open>
  On a WAL whose file system works, a batch append gives the frames consecutive sequence
  numbers from the next one, writes the number into each frame's header and queues the frames
  behind the pending ones, in order; nothing else of the checkpoint changes.
\<close>

theorem AppendBatch_queues:
  assumes "healthy w" and "\<forall>fb\<in>set fbs. HeaderSize \<le> length fb"
  shows "\<exists>w'. AppendBatch ft fbs w = (Inr (seqs_from (NextSeq (cp w)) (length fbs)), w') \<and>
    healthy w' \<and> pending w' = pending w @ batch_frames (NextSeq (cp w)) fbs \<and>
    cp w' = (cp w)\<lparr>NextSeq := NextSeq (cp w) + word_of_nat (length fbs)\<rparr>"
  using assms by (rule AppendBatch_healthy)

theorem AppendBatch_queues_witness:
  "\<exists>w'. AppendBatch TypeData [small_frame, small_frame] small_wal = (Inr [2, 3], w') \<and>
    pending w' = [(1, small_frame), (2, rewriteSeq 2 small_frame), (3, rewriteSeq 3 small_frame)]"
proof -
  have "\<forall>fb\<in>set [small_frame, small_frame]. HeaderSize \<le> length fb" by (simp add: HeaderSize_def)
  from AppendBatch_queues [OF small_wal_healthy this, of TypeData] show ?thesis
    by (auto simp: small_wal_pending small_wal_cp eval_nat_numeral)
qed

text \<open>
  C10: Whatever the file system does, an append keeps the invariant, keeps every frame that was
  pending and its bytes, and changes neither cursor nor backfill policy; a batch that is
  reported as written to a WAL in step with its file is queued in full.
\<close>

theorem AppendBatch_under_faults:
  assumes "wal_inv w" and "AppendBatch ft fbs w = (r, w')"
  shows "wal_inv w' \<and> (\<exists>new. pending w' = pending w @ new) \<and> CursorNs (cp w') = CursorNs (cp w) \<and>
    BackfillNs (cp w') = BackfillNs (cp w) \<and>
    (\<not> isl r \<and> clean w \<longrightarrow> r = Inr (seqs_from (NextSeq (cp w)) (length fbs)) \<and>
       pending w' = pending w @ batch_frames (NextSeq (cp w)) fbs)"
  using AppendBatch_result [OF assms] wq.append_keeps [OF assms] appended_cp [of w w']
  by (cases r) (auto simp: batch_done_def)

theorem AppendBatch_under_faults_witness:
  "fst (AppendBatch TypeData [small_frame] torn_wal) = Inl (ErrIo ''write frame'') \<and>
    (\<exists>new. pending (snd (AppendBatch TypeData [small_frame] torn_wal)) = (1, small_frame) # new)"
proof
  show "fst (AppendBatch TypeData [small_frame] torn_wal) = Inl (ErrIo ''write frame'')"
    by (simp add: AppendBatch_def appendNext_def ensureSpace_def writeRecord_def writeCur_def op_defs
        torn_wal_def small_wal_def fresh_wal_def empty_disk_def frame_consts recordHeadLen_def Let_def
        length_rewriteSeq)
  show "\<exists>new. pending (snd (AppendBatch TypeData [small_frame] torn_wal)) = (1, small_frame) # new"
    using AppendBatch_under_faults [OF torn_wal_facts(1) prod.collapse [symmetric], of TypeData "[small_frame]"]
    by (simp add: torn_wal_facts(2))
qed

text \<open>
  C18: Whatever the file system does, reading changes neither queue nor invariant; a successful
  read returns the oldest pending frames, at most as many as asked for (all of them for a limit
  of zero or less), and the WAL reports itself as empty exactly when nothing is pending.
\<close>

theorem PeekBatch_under_faults:
  assumes "wal_inv w" and "PeekBatch n w = (r, w')"
  shows "wal_inv w' \<and> pending w' = pending w \<and>
    (\<not> isl r \<longrightarrow> pending w \<noteq> [] \<and> r = Inr (if n > 0 then take (nat n) (pending w) else pending w)) \<and>
    (r = Inl ErrEmpty \<longleftrightarrow> pending w = [])"
  using PeekBatch_result [OF assms] assms(1) by (cases r) auto

theorem PeekBatch_under_faults_witness:
  "\<exists>w'. PeekBatch 5 torn_wal = (Inr [(1, small_frame)], w') \<and> pending w' = [(1, small_frame)]"
proof -
  obtain r w' where eq: "PeekBatch 5 torn_wal = (r, w')" by fastforce
  have "\<not> isl r" using eq
    by (auto simp: PeekBatch_def readFrame_def readAt_def io_def op_defs torn_wal_def small_wal_def
        fresh_wal_def empty_disk_def Let_def recordHeadLen_def)
  then show ?thesis
    using PeekBatch_under_faults [OF torn_wal_facts(1) eq] eq by (simp add: torn_wal_facts(2))
qed

text \<open>
  C9: Whatever the file system does, a commit ends, and it removes the oldest pending frame
  when the frame has the given number; with another number it is refused and changes nothing.
  On an empty WAL the code's error path indexes past the end of the index: the call panics.
\<close>

theorem Commit_under_faults:
  assumes "wal_inv w" and "Commit now seq w = (r, w')"
  shows "wal_inv w' \<and> r \<noteq> Inl CommitDiverges \<and>
    (case pending w of
       [] \<Rightarrow> r = Inl PanicIndex \<and> w' = w
     | (s, b) # rest \<Rightarrow>
         if s = seq then pending w' = rest \<and> NextSeq (cp w') = NextSeq (cp w) \<and> CursorNs (cp w') = CursorNs (cp w)
         else r = Inl (ErrCommitOutOfOrder seq s) \<and> w' = w)"
  using commitLocked_result [OF assms(1), of now seq r w'] assms by (auto simp: Commit_def)

theorem Commit_under_faults_witness:
  "pending (snd (Commit 0 1 torn_wal)) = [] \<and> Commit 0 9 torn_wal = (Inl (ErrCommitOutOfOrder 9 1), torn_wal)"
proof
  show "pending (snd (Commit 0 1 torn_wal)) = []"
    using Commit_under_faults [OF torn_wal_facts(1) prod.collapse [symmetric], of 0 1]
    by (simp add: torn_wal_facts(2))
  show "Commit 0 9 torn_wal = (Inl (ErrCommitOutOfOrder 9 1), torn_wal)"
    using Commit_under_faults [OF torn_wal_facts(1) prod.collapse [symmetric], of 0 9]
    by (simp add: torn_wal_facts(2) prod_eq_iff)
qed

text \<open>
  C17: Round trip through the WAL: a batch appended to an empty WAL is read back whole and in
  order, and committing its numbers one by one succeeds and leaves the WAL empty, with every
  finished segment deleted on the way.
\<close>

theorem wal_append_peek_drain:
  assumes "healthy w" and "pending w = []" and "\<forall>fb\<in>set fbs. HeaderSize \<le> length fb"
    and "fbs \<noteq> []" and "length fbs \<le> nat n" and "0 < n"
  shows "\<exists>w1 w2. AppendBatch ft fbs w = (Inr (seqs_from (NextSeq (cp w)) (length fbs)), w1) \<and>
    PeekBatch n w1 = (Inr (batch_frames (NextSeq (cp w)) fbs), w1) \<and>
    wq.commits now (seqs_from (NextSeq (cp w)) (length fbs)) w1 = (Inr (), w2) \<and>
    healthy w2 \<and> pending w2 = []"
proof -
  have "batch_frames (NextSeq (cp w)) fbs \<noteq> []" using assms(4) by (cases fbs) auto
  then show ?thesis
    using wq.append_peek_drain [OF assms(1-3) _ _ assms(6), of ft now] assms(5) by simp
qed

theorem wal_append_peek_drain_witness:
  "\<exists>w1 w2. AppendBatch TypeData [small_frame] empty_wal = (Inr [2], w1) \<and>
    PeekBatch 8 w1 = (Inr [(2, rewriteSeq 2 small_frame)], w1) \<and>
    wq.commits 0 [2] w1 = (Inr (), w2) \<and> pending w2 = []"
proof -
  have "\<forall>fb\<in>set [small_frame]. HeaderSize \<le> length fb" by (simp add: HeaderSize_def)
  from wal_append_peek_drain [OF empty_wal_facts(1,2) this, of 8 TypeData 0] show ?thesis
    by (auto simp: empty_wal_facts(3) eval_nat_numeral)
qed

text \<open>
  C19: Whatever the file system does, a frame leaves the WAL for the dead letters only after its
  bytes are in the dead letter directory under its number.
\<close>

theorem MoveToDLQ_stores_first:
  assumes "wal_inv w" and "MoveToDLQ now seq meta w = (r, w')"
  shows "wal_inv w' \<and> (pending w' = pending w \<and> isl r \<or>
    (\<exists>b. pending w = (seq, b) # pending w' \<and> map_of (dlqFrames (dsk w')) seq = Some b))"
  using assms by (rule MoveToDLQ_result)

theorem MoveToDLQ_stores_first_witness:
  "\<exists>w'. MoveToDLQ 0 1 ''poison'' small_wal = (Inr (), w') \<and> pending w' = [] \<and>
    map_of (dlqFrames (dsk w')) 1 = Some small_frame"
proof -
  obtain r w' where eq: "MoveToDLQ 0 1 ''poison'' small_wal = (r, w')" by fastforce
  have "r = Inr ()" using eq
    by (auto simp: MoveToDLQ_def commitLocked_def commitFuel_def writeDLQ_def writeFile_def readAt_def
        io_def removeSeg_def set_segs_def closeRotated_def closeCur_def persistLocked_def saveCheckpoint_def
        op_defs small_wal_def fresh_wal_def empty_disk_def zero_checkpoint_def Let_def recordHeadLen_def
        dlqSize_def DefaultDLQMaxSize_def delete_conv')
  then show ?thesis
    using MoveToDLQ_stores_first [OF small_wal_inv eq] eq by (auto simp: small_wal_pending)
qed

text \<open>
  The cursor never moves back through \<^verbatim>\<open>SetCursor\<close>: an earlier time is refused
  and changes nothing, a later one is taken even if saving the checkpoint fails, and the queue
  is not touched.
\<close>

theorem SetCursor_monotone:
  assumes "SetCursor now ts w = (r, w')"
  shows "Cursor w' = max (Cursor w) ts \<and> pending w' = pending w \<and> wal_inv w' = wal_inv w \<and>
    (ts < Cursor w \<longrightarrow> r = Inl (ErrCursorRegress (Cursor w) ts) \<and> w' = w)"
  using SetCursor_result [OF assms] meta_same_simps [of "w\<lparr>cp := (cp w)\<lparr>CursorNs := ts\<rparr>\<rparr>" w']
    meta_same_fields [of "w\<lparr>cp := (cp w)\<lparr>CursorNs := ts\<rparr>\<rparr>" w']
  by (auto simp: Cursor_def max_def)

theorem SetCursor_monotone_witness:
  "Cursor (snd (SetCursor 0 500 small_wal)) = 500 \<and> pending (snd (SetCursor 0 500 torn_wal)) = [(1, small_frame)]"
proof
  show "Cursor (snd (SetCursor 0 500 small_wal)) = 500"
    using SetCursor_monotone [OF prod.collapse [symmetric], of 0 500 small_wal]
    by (simp add: Cursor_def small_wal_cp)
  show "pending (snd (SetCursor 0 500 torn_wal)) = [(1, small_frame)]"
    using SetCursor_monotone [OF prod.collapse [symmetric], of 0 500 torn_wal] by (simp add: torn_wal_facts(2))
qed

end
