(* ===== verification/Sender.thy ===== *)
theory Sender
  imports Wal_Contract
begin

text \<open>
  The sending side, \<^verbatim>\<open>src/internal/sender/sender.go\<close> with the connection of
  \<^verbatim>\<open>src/internal/transport/tcp_client.go\<close>: one iteration of the sender's loop takes the
  oldest frame (or a window of frames) from the WAL, sends it, waits for the acknowledgement
  bytes and commits. What the network does is a list of outcomes in the state, one per call. The
  state also records which frames were sent on the open connection and not answered yet, and
  which byte answered which frame. Cancellation and the waiting itself are not modelled; the
  length of a wait is (\<open>backoff\<close>).
\<close>

section \<open>Configuration and state\<close>

record SenderConfig =
  MaxRetry :: int
  BackoffBase :: int
  BackoffMax :: int
  HeartbeatInterval :: int
  IdleSleep :: int
  Pipeline :: int

definition NewSender :: "SenderConfig \<Rightarrow> SenderConfig" where
  "NewSender c = \<lparr>
     MaxRetry = (if MaxRetry c \<le> 0 then 10 else MaxRetry c),
     BackoffBase = (if BackoffBase c \<le> 0 then 1000000000 else BackoffBase c),
     BackoffMax = (if BackoffMax c \<le> 0 then 60000000000 else BackoffMax c),
     HeartbeatInterval = (if HeartbeatInterval c \<le> 0 then 30000000000 else HeartbeatInterval c),
     IdleSleep = (if IdleSleep c \<le> 0 then 200000000 else IdleSleep c),
     Pipeline = (if Pipeline c \<le> 0 then 1 else Pipeline c)\<rparr>"

datatype net_event = NetOk | NetFail | NetByte byte

record sender =
  swal :: wal
  conn :: bool
  outstanding :: "bytes list"
  ackLog :: "(bytes \<times> byte) list"
  links :: "(bytes list \<times> byte list) list"
  net :: "net_event list"
  retryCount :: int
  cached :: "(u64 \<times> bytes) option"
  lastHeartbeat :: int

section \<open>The connection\<close>

definition next_event :: "sender \<Rightarrow> net_event" where
  "next_event s = (case net s of [] \<Rightarrow> NetOk | ev # _ \<Rightarrow> ev)"

definition pop_event :: "sender \<Rightarrow> sender" where
  "pop_event s = s\<lparr>net := tl (net s)\<rparr>"

definition closeConn :: "sender \<Rightarrow> sender" where
  "closeConn s = s\<lparr>conn := False, outstanding := []\<rparr>"

text \<open>
  \<open>links\<close> records for each connection the frames written to it (also those whose write
  failed, since a part may have left) and the bytes read from it; the last one is the present one.
\<close>

definition link_update :: "(bytes list \<times> byte list \<Rightarrow> bytes list \<times> byte list) \<Rightarrow> sender \<Rightarrow> sender" where
  "link_update f s = s\<lparr>links := (if links s = [] then [] else butlast (links s) @ [f (last (links s))])\<rparr>"

definition link_sent :: "bytes \<Rightarrow> sender \<Rightarrow> sender" where
  "link_sent fb = link_update (\<lambda>(sent, rd). (sent @ [fb], rd))"

definition link_read :: "byte \<Rightarrow> sender \<Rightarrow> sender" where
  "link_read b = link_update (\<lambda>(sent, rd). (sent, rd @ [b]))"

definition EnsureConnected :: "sender \<Rightarrow> bool \<times> sender" where
  "EnsureConnected s =
     (if conn s then (True, s)
      else if next_event s = NetFail then (False, pop_event s)
      else (True, (pop_event s)\<lparr>conn := True, outstanding := [], links := links s @ [([], [])]\<rparr>))"

definition SendFrame :: "bytes \<Rightarrow> sender \<Rightarrow> bool \<times> sender" where
  "SendFrame fb s =
     (if \<not> conn s then (False, s)
      else if next_event s = NetFail then (False, closeConn (link_sent fb (pop_event s)))
      else (True, (link_sent fb (pop_event s))\<lparr>outstanding := outstanding s @ [fb]\<rparr>))"

definition WaitAck :: "sender \<Rightarrow> byte option \<times> sender" where
  "WaitAck s =
     (if \<not> conn s then (None, s)
      else (case next_event s of
        NetByte b \<Rightarrow>
          (Some b, (case outstanding s of
             [] \<Rightarrow> link_read b (pop_event s)
           | fb # rest \<Rightarrow> (link_read b (pop_event s))\<lparr>outstanding := rest, ackLog := ackLog s @ [(fb, b)]\<rparr>))
      | _ \<Rightarrow> (None, closeConn (pop_event s))))"

section \<open>Retries\<close>

fun backoff_loop :: "int \<Rightarrow> nat \<Rightarrow> int \<Rightarrow> int" where
  "backoff_loop mx 0 d = d"
| "backoff_loop mx (Suc k) d =
     (let d' = wrap64 (d * 2) in if d' \<ge> mx then mx else backoff_loop mx k d')"

definition backoff :: "SenderConfig \<Rightarrow> int \<Rightarrow> int" where
  "backoff cfg n = (if n \<le> 0 then 0 else backoff_loop (BackoffMax cfg) (nat (n - 1)) (BackoffBase cfg))"

definition incRetry :: "sender \<Rightarrow> sender" where
  "incRetry s = s\<lparr>retryCount := retryCount s + 1\<rparr>"

definition incRetryCap :: "SenderConfig \<Rightarrow> sender \<Rightarrow> sender" where
  "incRetryCap cfg s = s\<lparr>retryCount := min (retryCount s + 1) (MaxRetry cfg)\<rparr>"

definition commitSeq :: "int \<Rightarrow> u64 \<Rightarrow> sender \<Rightarrow> bool \<times> sender" where
  "commitSeq now seq s = (case Commit now seq (swal s) of (r, w) \<Rightarrow> (\<not> isl r, s\<lparr>swal := w\<rparr>))"

section \<open>The sliding window\<close>

text \<open>Sending the window; the result is what is to be sent again after a failure.\<close>

fun sendLoop :: "SenderConfig \<Rightarrow> (u64 \<times> bytes) list \<Rightarrow> sender \<Rightarrow> (u64 \<times> bytes) list option \<times> sender" where
  "sendLoop cfg [] s = (None, s)"
| "sendLoop cfg (f # fs) s =
     (case SendFrame (snd f) s of
        (False, s1) \<Rightarrow> (Some (f # fs), incRetryCap cfg s1)
      | (True, s1) \<Rightarrow> sendLoop cfg fs s1)"

text \<open>Reading the acknowledgements in order, committing on the way.\<close>

fun ackLoop :: "SenderConfig \<Rightarrow> int \<Rightarrow> (u64 \<times> bytes) list \<Rightarrow> sender \<Rightarrow> (u64 \<times> bytes) list option \<times> sender" where
  "ackLoop cfg now [] s = (None, s)"
| "ackLoop cfg now (f # fs) s =
     (case WaitAck s of
        (None, s1) \<Rightarrow> (Some (f # fs), incRetryCap cfg s1)
      | (Some ack, s1) \<Rightarrow>
          if ack = AckSuccess then
            (case commitSeq now (fst f) s1 of
               (False, s2) \<Rightarrow> ackLoop cfg now fs s2
             | (True, s2) \<Rightarrow> ackLoop cfg now fs (s2\<lparr>retryCount := 0\<rparr>))
          else if ack = AckFail then (Some (f # fs), closeConn (incRetryCap cfg s1))
          else (Some (f # fs), closeConn (incRetry s1)))"

definition reconnect :: "SenderConfig \<Rightarrow> sender \<Rightarrow> sender" where
  "reconnect cfg s = (case EnsureConnected s of (True, s1) \<Rightarrow> s1 | (False, s1) \<Rightarrow> incRetryCap cfg s1)"

text \<open>One round of the loop of \<^verbatim>\<open>runPipeline\<close>: finished, or frames to send again.\<close>

definition pipeRound :: "SenderConfig \<Rightarrow> int \<Rightarrow> (u64 \<times> bytes) list \<Rightarrow> sender \<Rightarrow> (u64 \<times> bytes) list option \<times> sender" where
  "pipeRound cfg now frames s =
     (case sendLoop cfg frames s of
        (Some rest, s1) \<Rightarrow> (Some rest, reconnect cfg s1)
      | (None, s1) \<Rightarrow>
          (case ackLoop cfg now frames s1 of
             (None, s2) \<Rightarrow> (None, s2)
           | (Some rest, s2) \<Rightarrow> (Some rest, reconnect cfg s2)))"

text \<open>
  The loop has no bound of its own: it goes on for as long as the peer refuses. With fuel for
  some rounds, the state after them is the result and the frames still to be sent come with it.
\<close>

fun pipeLoop :: "nat \<Rightarrow> SenderConfig \<Rightarrow> int \<Rightarrow> (u64 \<times> bytes) list \<Rightarrow> sender \<Rightarrow> (u64 \<times> bytes) list option \<times> sender" where
  "pipeLoop 0 cfg now frames s = (Some frames, s)"
| "pipeLoop (Suc k) cfg now frames s =
     (case pipeRound cfg now frames s of
        (None, s1) \<Rightarrow> (None, s1)
      | (Some rest, s1) \<Rightarrow> pipeLoop k cfg now rest s1)"

definition runPipeline :: "nat \<Rightarrow> SenderConfig \<Rightarrow> int \<Rightarrow> u64 \<Rightarrow> bytes \<Rightarrow> sender \<Rightarrow> (u64 \<times> bytes) list option \<times> sender" where
  "runPipeline fuel cfg now seq fb s =
     (case PeekBatch (Pipeline cfg) (swal s) of
        (Inl _, w) \<Rightarrow> pipeLoop fuel cfg now [(seq, fb)] (s\<lparr>swal := w\<rparr>)
      | (Inr frames, w) \<Rightarrow> pipeLoop fuel cfg now frames (s\<lparr>swal := w\<rparr>))"

section \<open>One iteration\<close>

definition sendHeartbeat :: "codec \<Rightarrow> sender \<Rightarrow> sender" where
  "sendHeartbeat cd s =
     (case EncodeHeartbeat cd 0 of
        Inl _ \<Rightarrow> s
      | Inr fb \<Rightarrow>
          (case EnsureConnected s of
             (False, s1) \<Rightarrow> s1
           | (True, s1) \<Rightarrow>
               (case SendFrame fb s1 of
                  (False, s2) \<Rightarrow> s2
                | (True, s2) \<Rightarrow> snd (WaitAck s2))))"

text \<open>Stop and wait: send one frame, wait for its byte.\<close>

definition sendOne :: "SenderConfig \<Rightarrow> int \<Rightarrow> u64 \<Rightarrow> bytes \<Rightarrow> sender \<Rightarrow> sender" where
  "sendOne cfg now seq fb s =
     (case SendFrame fb s of
        (False, s1) \<Rightarrow> incRetry s1
      | (True, s1) \<Rightarrow>
          (case WaitAck s1 of
             (None, s2) \<Rightarrow> incRetry s2
           | (Some ack, s2) \<Rightarrow>
               if ack = AckSuccess then
                 (case commitSeq now seq s2 of
                    (False, s3) \<Rightarrow> s3
                  | (True, s3) \<Rightarrow> s3\<lparr>retryCount := 0\<rparr>)
               else if ack = AckFail then incRetryCap cfg s2
               else incRetry s2))"

text \<open>The frame to send: the cached bytes when the oldest frame is the cached one.\<close>

definition useCache :: "u64 \<Rightarrow> bytes \<Rightarrow> sender \<Rightarrow> bytes \<times> sender" where
  "useCache seq fb s =
     (case cached s of
        Some (q, b) \<Rightarrow> if q = seq then (b, s) else (fb, s\<lparr>cached := Some (seq, fb)\<rparr>)
      | None \<Rightarrow> (fb, s\<lparr>cached := Some (seq, fb)\<rparr>))"

definition runOnce :: "nat \<Rightarrow> codec \<Rightarrow> SenderConfig \<Rightarrow> int \<Rightarrow> sender \<Rightarrow> sender" where
  "runOnce fuel cd cfg now s =
     (case Peek (swal s) of
        (Inl e, w) \<Rightarrow>
          let s1 = s\<lparr>swal := w\<rparr> in
          if e = ErrEmpty \<and> now - lastHeartbeat s1 \<ge> HeartbeatInterval cfg
          then (sendHeartbeat cd s1)\<lparr>lastHeartbeat := now\<rparr> else s1
      | (Inr (seq, fb0), w) \<Rightarrow>
          (case useCache seq fb0 (s\<lparr>swal := w\<rparr>) of (fb, s1) \<Rightarrow>
             (case EnsureConnected s1 of
                (False, s2) \<Rightarrow> incRetry s2
              | (True, s2) \<Rightarrow>
                  if Pipeline cfg > 1 then snd (runPipeline fuel cfg now seq fb s2)
                  else sendOne cfg now seq fb s2)))"

end
