(* ===== verification/Sender_Safety.thy ===== *)
theory Sender_Safety
  imports Sender
begin

text \<open>
  What the sender guarantees: a frame leaves the WAL only after the byte that answered exactly
  this frame on its connection was a positive one; failures of any kind leave every frame in
  place; and with a peer that accepts, frames are committed.
\<close>

section \<open>Answers and the frames they answer\<close>

text \<open>
  From \<open>s\<close> to \<open>s'\<close>, frames left the WAL from its front, each with a positive
  answer of its own.
\<close>

definition drains :: "sender \<Rightarrow> sender \<Rightarrow> bool" where
  "drains s s' \<longleftrightarrow> wal_inv (swal s') \<and> NextSeq (cp (swal s')) = NextSeq (cp (swal s)) \<and>
     Cursor (swal s') = Cursor (swal s) \<and> (\<exists>l. ackLog s' = ackLog s @ l) \<and>
     (\<exists>gone. pending (swal s) = gone @ pending (swal s') \<and> (\<forall>x\<in>set gone. (snd x, AckSuccess) \<in> set (ackLog s')))"

lemma drains_refl: "wal_inv (swal s) \<Longrightarrow> drains s s"
  by (auto simp: drains_def intro: exI [of _ "[]"])

lemma drains_trans:
  assumes "drains a b" and "drains b c"
  shows "drains a c"
proof -
  from assms(1) obtain g1 l1 where 1: "pending (swal a) = g1 @ pending (swal b)" "ackLog b = ackLog a @ l1"
    "\<forall>x\<in>set g1. (snd x, AckSuccess) \<in> set (ackLog b)" unfolding drains_def by blast
  from assms(2) obtain g2 l2 where 2: "pending (swal b) = g2 @ pending (swal c)" "ackLog c = ackLog b @ l2"
    "\<forall>x\<in>set g2. (snd x, AckSuccess) \<in> set (ackLog c)" "wal_inv (swal c)" unfolding drains_def by blast
  have "NextSeq (cp (swal c)) = NextSeq (cp (swal a))" "Cursor (swal c) = Cursor (swal a)" using assms by (simp_all add: drains_def)
  moreover have "pending (swal a) = (g1 @ g2) @ pending (swal c)" "ackLog c = ackLog a @ (l1 @ l2)"
    "\<forall>x\<in>set (g1 @ g2). (snd x, AckSuccess) \<in> set (ackLog c)" using 1 2 by auto
  ultimately show ?thesis using 2(4) unfolding drains_def by blast
qed

text \<open>Steps that touch neither WAL nor answers.\<close>

definition still :: "sender \<Rightarrow> sender \<Rightarrow> bool" where
  "still s s' \<longleftrightarrow> swal s' = swal s \<and> (\<exists>l. ackLog s' = ackLog s @ l)"

lemma still_drains: "still s s' \<Longrightarrow> wal_inv (swal s) \<Longrightarrow> drains s s'"
  by (auto simp: still_def drains_def intro: exI [of _ "[]"])

definition consistent :: "(u64 \<times> bytes) list \<Rightarrow> (u64 \<times> bytes) list \<Rightarrow> bool" where
  "consistent fs p \<longleftrightarrow> (\<forall>x\<in>set fs. \<forall>y\<in>set p. fst x = fst y \<longrightarrow> snd x = snd y)"

lemma consistent_drains: "consistent fs (pending (swal s)) \<Longrightarrow> drains s s' \<Longrightarrow> consistent fs (pending (swal s'))"
proof -
  assume c: "consistent fs (pending (swal s))" and "drains s s'"
  then have "set (pending (swal s')) \<subseteq> set (pending (swal s))" by (auto simp: drains_def)
  with c show ?thesis unfolding consistent_def by blast
qed

lemma consistent_sub: "consistent fs p \<Longrightarrow> set gs \<subseteq> set fs \<Longrightarrow> consistent gs p"
  by (auto simp: consistent_def)

lemma consistent_self: "distinct (map fst p) \<Longrightarrow> set fs \<subseteq> set p \<Longrightarrow> consistent fs p"
  unfolding consistent_def
proof (intro ballI impI)
  fix x y assume d: "distinct (map fst p)" and sub: "set fs \<subseteq> set p" and x: "x \<in> set fs" and y: "y \<in> set p"
    and eq: "fst x = fst y"
  obtain k v v' where k: "x = (k, v)" "y = (k, v')" using eq by (cases x; cases y) auto
  then have "(k, v) \<in> set p" "(k, v') \<in> set p" using x y sub by auto
  from eq_key_imp_eq_value [OF d this] show "snd x = snd y" using k by simp
qed

definition idle :: "sender \<Rightarrow> bool" where
  "idle s \<longleftrightarrow> outstanding s = []"

section \<open>Single calls\<close>

lemma helper_simps [simp]:
  "swal (pop_event s) = swal s" "ackLog (pop_event s) = ackLog s" "outstanding (pop_event s) = outstanding s"
  "conn (pop_event s) = conn s" "cached (pop_event s) = cached s" "retryCount (pop_event s) = retryCount s"
  "swal (closeConn s) = swal s" "ackLog (closeConn s) = ackLog s" "outstanding (closeConn s) = []"
  "conn (closeConn s) = False" "cached (closeConn s) = cached s" "retryCount (closeConn s) = retryCount s"
  "swal (incRetry s) = swal s" "ackLog (incRetry s) = ackLog s" "outstanding (incRetry s) = outstanding s"
  "conn (incRetry s) = conn s" "cached (incRetry s) = cached s"
  "swal (incRetryCap cfg s) = swal s" "ackLog (incRetryCap cfg s) = ackLog s"
  "outstanding (incRetryCap cfg s) = outstanding s" "conn (incRetryCap cfg s) = conn s"
  "cached (incRetryCap cfg s) = cached s"
  by (simp_all add: pop_event_def closeConn_def incRetry_def incRetryCap_def)

lemma link_simps [simp]:
  "swal (link_update f s) = swal s" "ackLog (link_update f s) = ackLog s" "outstanding (link_update f s) = outstanding s"
  "conn (link_update f s) = conn s" "cached (link_update f s) = cached s" "retryCount (link_update f s) = retryCount s"
  "net (link_update f s) = net s"
  by (simp_all add: link_update_def)

lemmas link_defs [simp] = link_sent_def link_read_def

lemma EnsureConnected_result:
  assumes "EnsureConnected s = (b, s')"
  shows "still s s'" and "cached s' = cached s" and "b = conn s'" and "idle s \<Longrightarrow> idle s'"
  using assms by (auto simp: EnsureConnected_def still_def idle_def split: if_splits)

lemma SendFrame_result:
  assumes "SendFrame fb s = (b, s')"
  shows "still s s'" and "cached s' = cached s" and "b \<Longrightarrow> conn s' \<and> outstanding s' = outstanding s @ [fb]"
    and "\<not> b \<Longrightarrow> \<not> conn s' \<and> (conn s \<or> idle s \<longrightarrow> idle s')"
  using assms by (auto simp: SendFrame_def still_def idle_def split: if_splits)

lemma WaitAck_result:
  assumes "WaitAck s = (r, s')"
  shows "still s s'" and "cached s' = cached s" and "r = None \<Longrightarrow> conn s \<Longrightarrow> idle s'"
    and "r = Some b \<Longrightarrow> outstanding s = fb # rest \<Longrightarrow>
      conn s' \<and> outstanding s' = rest \<and> (fb, b) \<in> set (ackLog s')"
  using assms by (auto simp: WaitAck_def still_def idle_def split: if_splits net_event.splits list.splits)

lemma commitSeq_result:
  assumes inv: "wal_inv (swal s)" and "consistent [(seq, b)] (pending (swal s))"
    and "(b, AckSuccess) \<in> set (ackLog s)" and eq: "commitSeq now seq s = (ok, s')"
  shows "drains s s'" and "conn s' = conn s" and "outstanding s' = outstanding s" and "cached s' = cached s"
proof -
  obtain r w where c: "Commit now seq (swal s) = (r, w)" by fastforce
  then have s': "s' = s\<lparr>swal := w\<rparr>" using eq by (simp add: commitSeq_def)
  have k: "wal_inv w" "NextSeq (cp w) = NextSeq (cp (swal s)) \<and> Cursor w = Cursor (swal s)" "pending w = pending (swal s) \<or> (\<exists>b'. pending (swal s) = (seq, b') # pending w)"
    using wq.commit_keeps [OF inv c] by auto
  from k(3) have "\<exists>gone. pending (swal s) = gone @ pending w \<and> (\<forall>x\<in>set gone. (snd x, AckSuccess) \<in> set (ackLog s))"
  proof (elim disjE exE)
    assume "pending w = pending (swal s)"
    then show ?thesis by (intro exI [of _ "[]"]) simp
  next
    fix b' assume p: "pending (swal s) = (seq, b') # pending w"
    then have "b' = b" using assms(2) by (simp add: consistent_def)
    then show ?thesis using p assms(3) by (intro exI [of _ "[(seq, b)]"]) simp
  qed
  then show "drains s s'" using k(1,2) s' by (simp add: drains_def)
  show "conn s' = conn s" "outstanding s' = outstanding s" "cached s' = cached s" using s' by simp_all
qed

section \<open>The sliding window\<close>

lemma sendLoop_result:
  assumes "sendLoop cfg fs s = (r, s')" and "conn s \<or> idle s"
  shows "still s s' \<and> cached s' = cached s \<and>
    (r = None \<longrightarrow> outstanding s' = outstanding s @ map snd fs \<and> (fs \<noteq> [] \<longrightarrow> conn s')) \<and>
    (\<forall>rest. r = Some rest \<longrightarrow> idle s' \<and> set rest \<subseteq> set fs)"
  using assms
proof (induction fs arbitrary: s)
  case Nil
  then show ?case by (simp add: still_def)
next
  case (Cons f fs)
  obtain b s1 where sf: "SendFrame (snd f) s = (b, s1)" by fastforce
  note S = SendFrame_result [OF sf]
  show ?case
  proof (cases b)
    case False
    then have "r = Some (f # fs)" "s' = incRetryCap cfg s1" using Cons.prems(1) sf by auto
    then show ?thesis using S(1,2) S(4) [OF False] Cons.prems(2) by (auto simp: still_def idle_def)
  next
    case True
    then have eq: "sendLoop cfg fs s1 = (r, s')" using Cons.prems(1) sf by simp
    have "conn s1" using S(3) True by simp
    then have IH: "still s1 s'" "cached s' = cached s1" "r = None \<longrightarrow> outstanding s' = outstanding s1 @ map snd fs \<and> (fs \<noteq> [] \<longrightarrow> conn s')"
      "\<forall>rest. r = Some rest \<longrightarrow> idle s' \<and> set rest \<subseteq> set fs" using Cons.IH [OF eq] by auto
    have "r = None \<Longrightarrow> fs = [] \<Longrightarrow> conn s'" using eq \<open>conn s1\<close> by simp
    then show ?thesis using IH S(1,2) S(3) [OF True] by (auto simp: still_def)
  qed
qed

lemma ackLoop_result:
  assumes "ackLoop cfg now fs s = (r, s')" and "wal_inv (swal s)" and "consistent fs (pending (swal s))"
    and "outstanding s = map snd fs" and "fs \<noteq> [] \<longrightarrow> conn s"
  shows "drains s s' \<and> cached s' = cached s \<and> idle s' \<and> (\<forall>rest. r = Some rest \<longrightarrow> set rest \<subseteq> set fs)"
  using assms
proof (induction fs arbitrary: s)
  case Nil
  then show ?case by (simp add: drains_refl idle_def)
next
  case (Cons f fs)
  obtain a s1 where wa: "WaitAck s = (a, s1)" by fastforce
  note W = WaitAck_result [OF wa]
  have cn: "conn s" using Cons.prems(5) by simp
  have d1: "drains s s1" by (rule still_drains [OF W(1) Cons.prems(2)])
  show ?case
  proof (cases a)
    case None
    then have "r = Some (f # fs)" "s' = incRetryCap cfg s1" using Cons.prems(1) wa by auto
    then show ?thesis using d1 W(2) W(3) [OF None cn] by (auto simp: drains_def idle_def)
  next
    case (Some ack)
    have o: "conn s1" "outstanding s1 = map snd fs" "(snd f, ack) \<in> set (ackLog s1)"
      using W(4) [OF Some, of "snd f" "map snd fs"] Cons.prems(4) by auto
    show ?thesis
    proof (cases "ack = AckSuccess")
      case False
      then have "r = Some (f # fs)" "s' = closeConn (incRetryCap cfg s1) \<or> s' = closeConn (incRetry s1)"
        using Cons.prems(1) wa Some by (auto split: if_splits)
      then show ?thesis using d1 W(2) by (auto simp: drains_def idle_def)
    next
      case True
      obtain ok s2 where c: "commitSeq now (fst f) s1 = (ok, s2)" by fastforce
      have "consistent (f # fs) (pending (swal s1))" by (rule consistent_drains [OF Cons.prems(3) d1])
      then have cf: "consistent [(fst f, snd f)] (pending (swal s1))" and cfs: "consistent fs (pending (swal s1))"
        by (auto simp: consistent_def)
      have inv1: "wal_inv (swal s1)" using d1 by (simp add: drains_def)
      note C = commitSeq_result [OF inv1 cf o(3) [unfolded True] c]
      have d2: "drains s s2" by (rule drains_trans [OF d1 C(1)])
      define s3 where "s3 = (if ok then s2\<lparr>retryCount := 0\<rparr> else s2)"
      have d3: "drains s s3" using d2 by (simp add: s3_def drains_def)
      have "drains s1 s3" using C(1) by (simp add: s3_def drains_def)
      then have c3: "consistent fs (pending (swal s3))" by (rule consistent_drains [OF cfs])
      have eq: "ackLoop cfg now fs s3 = (r, s')"
        using Cons.prems(1) wa Some True c by (cases ok) (simp_all add: s3_def)
      have i3: "wal_inv (swal s3)" "outstanding s3 = map snd fs" "fs \<noteq> [] \<longrightarrow> conn s3" "cached s3 = cached s"
        using d3 C o W(2) by (simp_all add: s3_def drains_def)
      note I = Cons.IH [OF eq i3(1) c3 i3(2,3)]
      have "drains s s'" using drains_trans [OF d3] I by blast
      then show ?thesis using I i3(4) by (metis set_subset_Cons subset_trans)
    qed
  qed
qed

lemma reconnect_result:
  "still s (reconnect cfg s) \<and> cached (reconnect cfg s) = cached s \<and> (idle s \<longrightarrow> idle (reconnect cfg s))"
proof -
  obtain b s1 where e: "EnsureConnected s = (b, s1)" by fastforce
  have "reconnect cfg s = (if b then s1 else incRetryCap cfg s1)" using e by (simp add: reconnect_def split: bool.split)
  then show ?thesis using EnsureConnected_result [OF e] by (simp add: still_def idle_def)
qed

definition ready :: "sender \<Rightarrow> (u64 \<times> bytes) list \<Rightarrow> bool" where
  "ready s fs \<longleftrightarrow> wal_inv (swal s) \<and> consistent fs (pending (swal s)) \<and> idle s"

lemma pipeRound_result:
  assumes "pipeRound cfg now fs s = (r, s')" and "ready s fs"
  shows "drains s s' \<and> cached s' = cached s \<and> idle s' \<and> (\<forall>rest. r = Some rest \<longrightarrow> ready s' rest)"
proof -
  obtain r1 s1 where sl: "sendLoop cfg fs s = (r1, s1)" by fastforce
  have inv: "wal_inv (swal s)" and con: "consistent fs (pending (swal s))" and id: "idle s"
    using assms(2) by (auto simp: ready_def)
  note S = sendLoop_result [OF sl] 
  have d1: "drains s s1" using still_drains [OF _ inv] S id by blast
  have rec: "drains t (reconnect cfg t)" "cached (reconnect cfg t) = cached t" "idle t \<Longrightarrow> idle (reconnect cfg t)"
    if "wal_inv (swal t)" for t using reconnect_result [of t cfg] still_drains [OF _ that] by blast+
  show ?thesis
  proof (cases r1)
    case (Some rest)
    then have eq: "r = Some rest" "s' = reconnect cfg s1" using assms(1) sl by (auto simp: pipeRound_def)
    have i1: "wal_inv (swal s1)" using d1 by (simp add: drains_def)
    have d: "drains s s'" unfolding eq by (rule drains_trans [OF d1 rec(1) [OF i1]])
    have "consistent rest (pending (swal s'))"
      using consistent_sub [OF consistent_drains [OF con d]] S Some id by blast
    then show ?thesis using d eq rec [OF i1] S Some id by (auto simp: ready_def drains_def)
  next
    case None
    have o: "outstanding s1 = map snd fs" "fs \<noteq> [] \<longrightarrow> conn s1" "cached s1 = cached s"
      using S None id by (auto simp: idle_def)
    obtain r2 s2 where al: "ackLoop cfg now fs s1 = (r2, s2)" by fastforce
    have i1: "wal_inv (swal s1)" using d1 by (simp add: drains_def)
    note A = ackLoop_result [OF al i1 consistent_drains [OF con d1] o(1,2)]
    have d2: "drains s s2" using drains_trans [OF d1] A by blast
    show ?thesis
    proof (cases r2)
      case None
      then show ?thesis using assms(1) sl \<open>r1 = None\<close> al A d2 o(3) by (auto simp: pipeRound_def)
    next
      case (Some rest)
      then have eq: "r = Some rest" "s' = reconnect cfg s2" using assms(1) sl \<open>r1 = None\<close> al by (auto simp: pipeRound_def)
      have i2: "wal_inv (swal s2)" using d2 by (simp add: drains_def)
      have d: "drains s s'" unfolding eq by (rule drains_trans [OF d2 rec(1) [OF i2]])
      have "consistent rest (pending (swal s'))"
        using consistent_sub [OF consistent_drains [OF con d]] A Some by blast
      then show ?thesis using d eq rec [OF i2] A o(3) by (auto simp: ready_def drains_def)
    qed
  qed
qed

lemma pipeLoop_result:
  assumes "pipeLoop k cfg now fs s = (r, s')" and "ready s fs"
  shows "drains s s' \<and> cached s' = cached s \<and> idle s'"
  using assms
proof (induction k arbitrary: fs s)
  case 0
  then show ?case by (auto simp: ready_def drains_refl)
next
  case (Suc k)
  obtain r1 s1 where pr: "pipeRound cfg now fs s = (r1, s1)" by fastforce
  note P = pipeRound_result [OF pr Suc.prems(2)]
  show ?case
  proof (cases r1)
    case None
    then show ?thesis using Suc.prems(1) pr P by simp
  next
    case (Some rest)
    then have "pipeLoop k cfg now rest s1 = (r, s')" "ready s1 rest" using Suc.prems(1) pr P by auto
    from Suc.IH [OF this] P show ?thesis using drains_trans by auto
  qed
qed

section \<open>One iteration\<close>

lemma Peek_result:
  assumes "wal_inv w" and "Peek w = (r, w')"
  shows "wal_inv w' \<and> pending w' = pending w \<and> NextSeq (cp w') = NextSeq (cp w) \<and> Cursor w' = Cursor w \<and> (\<forall>x. r = Inr x \<longrightarrow> (\<exists>rest. pending w = x # rest))"
proof -
  from assms(2) have "bindE (PeekBatch 1) (\<lambda>fds. case fds of fd # _ \<Rightarrow> retE fd | [] \<Rightarrow> throwE PanicIndex) w = (r, w')"
    by (simp add: Peek_def)
  then show ?thesis
  proof (cases rule: bindE_cases)
    case (err e)
    then show ?thesis using wq.peek_keeps [OF assms(1)] by auto
  next
    case (ok xs t)
    then obtain x xs' rest where "xs = x # xs'" "pending w = xs @ rest" "pending t = pending w" "wal_inv t" "NextSeq (cp t) = NextSeq (cp w)" "Cursor t = Cursor w"
      using wq.peek_oldest [OF assms(1) ok(1)] wq.peek_keeps [OF assms(1) ok(1)] by (cases xs) auto
    then show ?thesis using ok(2) by (auto simp: retE_def)
  qed
qed

definition sender_inv :: "sender \<Rightarrow> bool" where
  "sender_inv s \<longleftrightarrow> wal_inv (swal s) \<and> ordered (NextSeq (cp (swal s))) (pending (swal s)) \<and> idle s \<and>
     (\<forall>x. cached s = Some x \<longrightarrow> consistent [x] (pending (swal s)) \<and> fst x < NextSeq (cp (swal s)))"

lemma sender_counters [simp]:
  "drains s (t\<lparr>lastHeartbeat := n\<rparr>) = drains s t" "sender_inv (t\<lparr>lastHeartbeat := n\<rparr>) = sender_inv t"
  "drains s (t\<lparr>retryCount := n\<rparr>) = drains s t" "sender_inv (t\<lparr>retryCount := n\<rparr>) = sender_inv t"
  by (simp_all add: drains_def sender_inv_def idle_def)

lemma sender_inv_distinct: "sender_inv s \<Longrightarrow> distinct (map fst (pending (swal s)))"
  by (auto simp: sender_inv_def dest: ordered_distinct)

lemma sender_inv_drains:
  assumes "sender_inv s" and "drains s s'" and "idle s'" and "cached s' = cached s"
  shows "sender_inv s'"
proof -
  from assms(2) obtain gone where "pending (swal s) = gone @ pending (swal s')" by (auto simp: drains_def)
  then have "ordered (NextSeq (cp (swal s'))) (pending (swal s'))"
    using assms(1,2) ordered_suffix by (auto simp: sender_inv_def drains_def)
  then show ?thesis using assms consistent_drains [OF _ assms(2)] by (auto simp: sender_inv_def drains_def)
qed

lemma sendOne_result:
  assumes inv: "sender_inv s" and c: "conn s" and con: "consistent [(seq, fb)] (pending (swal s))"
  shows "drains s (sendOne cfg now seq fb s) \<and> sender_inv (sendOne cfg now seq fb s)"
proof -
  have wi: "wal_inv (swal s)" and id: "outstanding s = []" using inv by (auto simp: sender_inv_def idle_def)
  obtain b s1 where sf: "SendFrame fb s = (b, s1)" by fastforce
  note S = SendFrame_result [OF sf]
  have d1: "drains s s1" by (rule still_drains [OF S(1) wi])
  have fin: "drains s t \<and> sender_inv t" if "drains s t" "idle t" "cached t = cached s" for t
    using that sender_inv_drains [OF inv that] by simp
  show ?thesis
  proof (cases b)
    case False
    then have "sendOne cfg now seq fb s = incRetry s1" using sf by (simp add: sendOne_def)
    then show ?thesis using d1 S(2) S(4) [OF False] c by (intro fin) (simp_all add: drains_def idle_def)
  next
    case True
    obtain a s2 where wa: "WaitAck s1 = (a, s2)" by fastforce
    note W = WaitAck_result [OF wa]
    have o1: "conn s1" "outstanding s1 = [fb]" using S(3) [OF True] id by simp_all
    have i1: "wal_inv (swal s1)" using d1 by (simp add: drains_def)
    have d2: "drains s s2" by (rule drains_trans [OF d1 still_drains [OF W(1) i1]])
    have ch: "cached s2 = cached s" using W(2) S(2) by simp
    show ?thesis
    proof (cases a)
      case None
      then have "sendOne cfg now seq fb s = incRetry s2" using sf True wa by (simp add: sendOne_def)
      then show ?thesis using d2 ch W(3) [OF None o1(1)] by (intro fin) (simp_all add: drains_def idle_def)
    next
      case (Some ack)
      have o2: "idle s2" "(fb, ack) \<in> set (ackLog s2)" using W(4) [OF Some, of fb "[]"] o1(2) by (auto simp: idle_def)
      show ?thesis
      proof (cases "ack = AckSuccess")
        case False
        then have "sendOne cfg now seq fb s = incRetryCap cfg s2 \<or> sendOne cfg now seq fb s = incRetry s2"
          using sf True wa Some by (simp add: sendOne_def)
        then show ?thesis using d2 ch o2(1) by (intro fin) (auto simp: drains_def idle_def)
      next
        case success: True
        obtain ok s3 where cm: "commitSeq now seq s2 = (ok, s3)" by fastforce
        have i2: "wal_inv (swal s2)" using d2 by (simp add: drains_def)
        note C = commitSeq_result [OF i2 consistent_drains [OF con d2] o2(2) [unfolded success] cm]
        have d3: "drains s s3" by (rule drains_trans [OF d2 C(1)])
        have "sendOne cfg now seq fb s = (if ok then s3\<lparr>retryCount := 0\<rparr> else s3)"
          using sf True wa Some success cm by (cases ok) (simp_all add: sendOne_def)
        then show ?thesis using d3 C(3,4) ch o2(1) by (intro fin) (simp_all add: drains_def idle_def)
      qed
    qed
  qed
qed

lemma runPipeline_result:
  assumes inv: "sender_inv s" and con: "consistent [(seq, fb)] (pending (swal s))"
    and eq: "runPipeline fuel cfg now seq fb s = (r, s')"
  shows "drains s s' \<and> sender_inv s'"
proof -
  have wi: "wal_inv (swal s)" and ds: "distinct (map fst (pending (swal s)))"
    using inv sender_inv_distinct by (auto simp: sender_inv_def)
  obtain p w where pb: "PeekBatch (Pipeline cfg) (swal s) = (p, w)" by fastforce
  have w: "wal_inv w" "pending w = pending (swal s)" "NextSeq (cp w) = NextSeq (cp (swal s))" "Cursor w = Cursor (swal s)" using wq.peek_keeps [OF wi pb] by auto
  have d0: "drains s (s\<lparr>swal := w\<rparr>)" using w by (auto simp: drains_def intro: exI [of _ "[]"])
  obtain fs where fs: "pipeLoop fuel cfg now fs (s\<lparr>swal := w\<rparr>) = (r, s')" "consistent fs (pending (swal s))"
  proof (cases p)
    case (Inl e)
    then show ?thesis using that [of "[(seq, fb)]"] eq pb con by (simp add: runPipeline_def)
  next
    case (Inr frames)
    then have "set frames \<subseteq> set (pending (swal s))" using wq.peek_oldest [OF wi pb [unfolded Inr]] by auto
    then show ?thesis using that [of frames] eq pb Inr consistent_self [OF ds] by (simp add: runPipeline_def)
  qed
  have "ready (s\<lparr>swal := w\<rparr>) fs" using w fs(2) inv by (simp add: ready_def sender_inv_def idle_def)
  from pipeLoop_result [OF fs(1) this] have d: "drains s s'" "idle s'" "cached s' = cached s"
    using drains_trans [OF d0] by auto
  then show ?thesis using sender_inv_drains [OF inv] by blast
qed

lemma sendHeartbeat_result:
  assumes inv: "sender_inv s"
  shows "drains s (sendHeartbeat cd s) \<and> sender_inv (sendHeartbeat cd s)"
proof -
  have wi: "wal_inv (swal s)" and id: "idle s" using inv by (auto simp: sender_inv_def)
  have fin: "drains s t \<and> sender_inv t" if "still s t" "idle t" "cached t = cached s" for t
    using sender_inv_drains [OF inv still_drains [OF that(1) wi] that(2,3)] still_drains [OF that(1) wi] by simp
  have tr: "still a c" if "still a b" "still b c" for a b c using that by (auto simp: still_def)
  obtain fb where hb: "EncodeHeartbeat cd 0 = Inr fb" by (simp add: EncodeHeartbeat_def Encode_def)
  obtain b1 s1 where e: "EnsureConnected s = (b1, s1)" by fastforce
  obtain b2 s2 where sf: "SendFrame fb s1 = (b2, s2)" by fastforce
  obtain a s3 where wa: "WaitAck s2 = (a, s3)" by fastforce
  note E = EnsureConnected_result [OF e] and S = SendFrame_result [OF sf] and W = WaitAck_result [OF wa]
  have hbt: "sendHeartbeat cd s = (if \<not> b1 then s1 else if \<not> b2 then s2 else s3)"
    using hb e sf wa by (cases b1; cases b2) (simp_all add: sendHeartbeat_def)
  consider "\<not> b1" | "b1" "\<not> b2" | "b1" "b2" by blast
  then show ?thesis
  proof cases
    case 1
    then show ?thesis using hbt E id by (intro fin) simp_all
  next
    case 2
    then show ?thesis using hbt E S id tr [OF E(1) S(1)] by (intro fin) simp_all
  next
    case 3
    have o: "conn s2" "outstanding s2 = [fb]" using S(3) [OF 3(2)] E(4) [OF id] by (simp_all add: idle_def)
    have "idle s3" using W(3) o W(4) [of _ fb "[]"] by (cases a) (auto simp: idle_def)
    then show ?thesis using hbt 3 E S W tr [OF tr [OF E(1) S(1)] W(1)] by (intro fin) simp_all
  qed
qed

lemma useCache_result:
  assumes inv: "sender_inv s" and p: "pending (swal s) = (seq, fb0) # rest" and eq: "useCache seq fb0 s = (fb, s')"
  shows "consistent [(seq, fb)] (pending (swal s'))" and "drains s s'" and "sender_inv s'"
proof -
  have "consistent [(seq, fb0)] (pending (swal s))"
    using sender_inv_distinct [OF inv] p by (intro consistent_self) auto
  moreover have "seq < NextSeq (cp (swal s))" using inv p by (simp add: sender_inv_def ordered_def)
  moreover have "swal s' = swal s" "ackLog s' = ackLog s" "outstanding s' = outstanding s"
    using eq by (auto simp: useCache_def split: option.splits prod.splits if_splits)
  moreover have "s' = s \<and> cached s = Some (seq, fb) \<or> fb = fb0 \<and> cached s' = Some (seq, fb0)"
    using eq by (auto simp: useCache_def split: option.splits prod.splits if_splits)
  ultimately show "consistent [(seq, fb)] (pending (swal s'))" and "drains s s'" and "sender_inv s'"
    using inv by (auto simp: sender_inv_def drains_def idle_def)
qed

lemma runOnce_result:
  assumes inv: "sender_inv s"
  shows "drains s (runOnce fuel cd cfg now s) \<and> sender_inv (runOnce fuel cd cfg now s)"
proof -
  have wi: "wal_inv (swal s)" using inv by (simp add: sender_inv_def)
  obtain r w where pk: "Peek (swal s) = (r, w)" by fastforce
  let ?s0 = "s\<lparr>swal := w\<rparr>"
  note P = Peek_result [OF wi pk]
  have d0: "drains s ?s0" using P by (auto simp: drains_def intro: exI [of _ "[]"])
  have i0: "sender_inv ?s0" by (rule sender_inv_drains [OF inv d0]) (use inv in \<open>simp_all add: sender_inv_def idle_def\<close>)
  have step: "drains s t \<and> sender_inv t" if "drains ?s0 t \<and> sender_inv t" for t using that drains_trans [OF d0] by blast
  show ?thesis
  proof (cases r)
    case (Inl e)
    have "drains ?s0 ((sendHeartbeat cd ?s0)\<lparr>lastHeartbeat := now\<rparr>) \<and> sender_inv ((sendHeartbeat cd ?s0)\<lparr>lastHeartbeat := now\<rparr>)"
      using sendHeartbeat_result [OF i0, of cd] by simp
    then show ?thesis using step [of ?s0] step drains_refl i0 pk Inl by (auto simp: runOnce_def Let_def sender_inv_def)
  next
    case (Inr x)
    obtain seq fb0 where x: "x = (seq, fb0)" by fastforce
    then obtain rest where pd: "pending (swal ?s0) = (seq, fb0) # rest" using P Inr by auto
    obtain fb s1 where uc: "useCache seq fb0 ?s0 = (fb, s1)" by fastforce
    note U = useCache_result [OF i0 pd uc]
    obtain b s2 where e: "EnsureConnected s1 = (b, s2)" by fastforce
    note E = EnsureConnected_result [OF e]
    have i1: "wal_inv (swal s1)" "idle s1" using U(3) by (auto simp: sender_inv_def)
    have d2: "drains s s2" by (rule drains_trans [OF drains_trans [OF d0 U(2)] still_drains [OF E(1) i1(1)]])
    have i2: "sender_inv s2" by (rule sender_inv_drains [OF U(3) still_drains [OF E(1) i1(1)] E(4) [OF i1(2)] E(2)])
    have con: "consistent [(seq, fb)] (pending (swal s2))" using U(1) E(1) by (simp add: still_def)
    show ?thesis
    proof (cases b)
      case False
      then have "runOnce fuel cd cfg now s = incRetry s2" using pk Inr x uc e by (simp add: runOnce_def)
      then show ?thesis using d2 i2 by (simp add: drains_def sender_inv_def idle_def)
    next
      case True
      obtain r' s3 where rp: "runPipeline fuel cfg now seq fb s2 = (r', s3)" by fastforce
      have "runOnce fuel cd cfg now s = (if Pipeline cfg > 1 then s3 else sendOne cfg now seq fb s2)"
        using pk Inr x uc e True rp by (simp add: runOnce_def)
      moreover have "conn s2" using E(3) True by simp
      ultimately show ?thesis
        using runPipeline_result [OF i2 con rp] sendOne_result [OF i2 _ con, of cfg now] drains_trans [OF d2] by auto
    qed
  qed
qed

end
