(* ===== verification/Sender_System.thy ===== *)
theory Sender_System
  imports Sender_Safety
begin

text \<open>
  The sending process as a system: iterations of the sender's loop, appends and cursor updates
  of the poller on the same WAL, and arbitrary changes of what the network and the disk will do.
  Whatever happens, a frame leaves the WAL only after its own positive answer; and with a peer
  that accepts, everything pending is delivered.
\<close>

section \<open>Steps\<close>

inductive sstep :: "codec \<Rightarrow> SenderConfig \<Rightarrow> sender \<Rightarrow> sender \<Rightarrow> bool" for cd cfg where
  iterate: "sstep cd cfg s (runOnce fuel cd cfg now s)"
| append: "AppendBatch ft fbs (swal s) = (r, w) \<Longrightarrow>
    unat (NextSeq (cp (swal s))) + (length (pending w) - length (pending (swal s))) < 2 ^ 64 \<Longrightarrow>
    sstep cd cfg s (s\<lparr>swal := w\<rparr>)"
| cursor: "SetCursor now ts (swal s) = (rc, w) \<Longrightarrow> sstep cd cfg s (s\<lparr>swal := w\<rparr>)"
| network: "sstep cd cfg s (s\<lparr>net := evs\<rparr>)"
| device: "sstep cd cfg s (s\<lparr>swal := (swal s)\<lparr>dsk := (dsk (swal s))\<lparr>outcomes := os\<rparr>\<rparr>\<rparr>)"

text \<open>
  From \<open>s\<close> to \<open>s'\<close>, frames were added behind the pending ones and frames left
  from the front, each with a positive answer of its own.
\<close>

definition delivers :: "sender \<Rightarrow> sender \<Rightarrow> bool" where
  "delivers s s' \<longleftrightarrow> (\<exists>l. ackLog s' = ackLog s @ l) \<and>
     (\<exists>gone new. pending (swal s) @ new = gone @ pending (swal s') \<and>
        (\<forall>x\<in>set gone. (snd x, AckSuccess) \<in> set (ackLog s')))"

lemma drains_delivers: "drains s s' \<Longrightarrow> delivers s s'"
  unfolding drains_def delivers_def by (metis append_Nil2)

lemma delivers_refl: "delivers s s"
  by (auto simp: delivers_def intro: exI [of _ "[]"])

lemma delivers_trans:
  assumes "delivers a b" and "delivers b c"
  shows "delivers a c"
proof -
  from assms(1) obtain g1 n1 l1 where 1: "pending (swal a) @ n1 = g1 @ pending (swal b)" "ackLog b = ackLog a @ l1"
    "\<forall>x\<in>set g1. (snd x, AckSuccess) \<in> set (ackLog b)" unfolding delivers_def by blast
  from assms(2) obtain g2 n2 l2 where 2: "pending (swal b) @ n2 = g2 @ pending (swal c)" "ackLog c = ackLog b @ l2"
    "\<forall>x\<in>set g2. (snd x, AckSuccess) \<in> set (ackLog c)" unfolding delivers_def by blast
  have "pending (swal a) @ (n1 @ n2) = (g1 @ g2) @ pending (swal c)" using 1(1) 2(1) by (metis append.assoc)
  moreover have "ackLog c = ackLog a @ (l1 @ l2)" "\<forall>x\<in>set (g1 @ g2). (snd x, AckSuccess) \<in> set (ackLog c)"
    using 1 2 by auto
  ultimately show ?thesis unfolding delivers_def by blast
qed

text \<open>An append keeps the invariant of the sender: the new numbers are above all others.\<close>

lemma sender_inv_append:
  assumes inv: "sender_inv s" and ap: "AppendBatch ft fbs (swal s) = (r, w)"
    and nw: "unat (NextSeq (cp (swal s))) + (length (pending w) - length (pending (swal s))) < 2 ^ 64"
  shows "sender_inv (s\<lparr>swal := w\<rparr>) \<and> delivers s (s\<lparr>swal := w\<rparr>)"
proof
  have wi: "wal_inv (swal s)" and ord: "ordered (NextSeq (cp (swal s))) (pending (swal s))"
    using inv by (auto simp: sender_inv_def)
  obtain new where new: "wal_inv w" "pending w = pending (swal s) @ new"
    "map fst new = seqs_from (NextSeq (cp (swal s))) (length new)"
    "NextSeq (cp w) = NextSeq (cp (swal s)) + word_of_nat (length new)" using wq.append_keeps [OF wi ap] by auto
  have fits: "unat (NextSeq (cp (swal s))) + length new < 2 ^ 64" using nw new(2) by simp
  have le: "NextSeq (cp (swal s)) \<le> NextSeq (cp w)"
    using fits new(4) by (simp add: word_le_nat_alt unat_word_ariths unat_of_nat)
  have high: "NextSeq (cp (swal s)) \<le> fst y" if "y \<in> set new" for y
    using ordered_seqs_from [OF fits] that new(3) by (metis image_eqI set_map)
  have "consistent [x] (pending w) \<and> fst x < NextSeq (cp w)" if "cached s = Some x" for x
  proof -
    have x: "consistent [x] (pending (swal s))" "fst x < NextSeq (cp (swal s))" using inv that by (auto simp: sender_inv_def)
    then have "\<forall>y\<in>set new. fst x \<noteq> fst y" using high by force
    then show ?thesis using x new(2) le by (auto simp: consistent_def intro: order.strict_trans2)
  qed
  then show "sender_inv (s\<lparr>swal := w\<rparr>)"
    using inv new(1) wq.append_ordered [OF wi ap ord nw] by (simp add: sender_inv_def idle_def)
  show "delivers s (s\<lparr>swal := w\<rparr>)" using new(2) by (auto simp: delivers_def intro: exI [of _ "[]"])
qed

lemma SetCursor_queue:
  assumes "SetCursor now ts w = (r, w')"
  shows "pending w' = pending w" "wal_inv w' = wal_inv w" "NextSeq (cp w') = NextSeq (cp w)"
  using SetCursor_result [OF assms] meta_same_simps [of "w\<lparr>cp := (cp w)\<lparr>CursorNs := ts\<rparr>\<rparr>" w']
    meta_same_fields [of "w\<lparr>cp := (cp w)\<lparr>CursorNs := ts\<rparr>\<rparr>" w'] by auto

lemma sstep_inv:
  assumes "sstep cd cfg s s'" and "sender_inv s"
  shows "sender_inv s' \<and> delivers s s'"
  using assms
proof cases
  case (iterate fuel now)
  then show ?thesis using runOnce_result [OF assms(2)] drains_delivers by blast
next
  case (append ft fbs r w)
  then show ?thesis using sender_inv_append [OF assms(2)] by blast
next
  case (cursor now ts rc w)
  then have "sender_inv s'" using assms(2) SetCursor_queue [OF cursor(2)] by (simp add: sender_inv_def idle_def)
  moreover have "delivers s s'" using cursor SetCursor_queue [OF cursor(2)] delivers_refl [of s] by (simp add: delivers_def)
  ultimately show ?thesis ..
next
  case (network evs)
  then show ?thesis using assms(2) delivers_refl [of s] by (simp add: sender_inv_def idle_def delivers_def)
next
  case (device os)
  then show ?thesis using assms(2) delivers_refl [of s] by (simp add: sender_inv_def idle_def delivers_def)
qed

lemma steps_inv:
  assumes "(sstep cd cfg)\<^sup>*\<^sup>* s s'" and "sender_inv s"
  shows "sender_inv s' \<and> delivers s s'"
  using assms
proof (induction rule: rtranclp_induct)
  case base
  then show ?case by (simp add: delivers_refl)
next
  case (step t u)
  then show ?case using sstep_inv [OF step.hyps(2)] delivers_trans by blast
qed

section \<open>Waiting between attempts\<close>

lemma backoff_loop_min:
  assumes "0 < d" and "d \<le> mx" and "mx < 2 ^ 62"
  shows "backoff_loop mx k d = min (d * 2 ^ k) mx"
  using assms
proof (induction k arbitrary: d)
  case 0
  then show ?case by simp
next
  case (Suc k)
  have w: "wrap64 (d * 2) = d * 2" using Suc.prems by (simp add: wrap64_id in_i64_def)
  have "d * 2 * 1 \<le> d * 2 * 2 ^ k" using Suc.prems by (intro mult_left_mono) auto
  then have le: "d * 2 \<le> d * 2 ^ Suc k" by (simp add: mult.assoc)
  show ?case
  proof (cases "mx \<le> d * 2")
    case True
    then show ?thesis using le w by (simp add: Let_def min_absorb2)
  next
    case False
    then show ?thesis using Suc.IH [of "d * 2"] Suc.prems w by (simp add: Let_def mult.assoc)
  qed
qed

section \<open>A peer that accepts\<close>

text \<open>The first frames of a window are answered positively: they are committed one by one.\<close>

lemma ackLoop_accepts:
  assumes "conn s" and "healthy (swal s)" and "pending (swal s) = fs @ rest"
    and "outstanding s = map snd fs @ os" and "net s = replicate (length fs) (NetByte AckSuccess) @ evs"
  shows "\<exists>s'. ackLoop cfg now (fs @ gs) s = ackLoop cfg now gs s' \<and> conn s' \<and> healthy (swal s') \<and>
    pending (swal s') = rest \<and> outstanding s' = os \<and> net s' = evs \<and> cached s' = cached s \<and>
    retryCount s' = (if fs = [] then retryCount s else 0) \<and> NextSeq (cp (swal s')) = NextSeq (cp (swal s))"
  using assms
proof (induction fs arbitrary: s)
  case Nil
  then show ?case by auto
next
  case (Cons f fs)
  obtain q b where f: "f = (q, b)" by fastforce
  let ?s1 = "(link_read AckSuccess (pop_event s))\<lparr>outstanding := map snd fs @ os, ackLog := ackLog s @ [(b, AckSuccess)]\<rparr>"
  have wa: "WaitAck s = (Some AckSuccess, ?s1)"
    using Cons.prems f by (simp add: WaitAck_def next_event_def)
  obtain w where w: "Commit now q (swal s) = (Inr (), w)" "healthy w" "pending w = fs @ rest"
    using wq.commit_live [of "swal s" q b "fs @ rest" now] Cons.prems f by auto
  have nx: "NextSeq (cp w) = NextSeq (cp (swal s))"
    using wq.commit_keeps [OF _ w(1)] Cons.prems(2) by (simp add: healthy_def)
  let ?s2 = "?s1\<lparr>swal := w, retryCount := 0\<rparr>"
  have "ackLoop cfg now ((f # fs) @ gs) s = ackLoop cfg now (fs @ gs) ?s2"
    using wa w(1) f by (simp add: commitSeq_def)
  moreover have "\<exists>s'. ackLoop cfg now (fs @ gs) ?s2 = ackLoop cfg now gs s' \<and> conn s' \<and> healthy (swal s') \<and>
    pending (swal s') = rest \<and> outstanding s' = os \<and> net s' = evs \<and> cached s' = cached ?s2 \<and>
    retryCount s' = (if fs = [] then retryCount ?s2 else 0) \<and> NextSeq (cp (swal s')) = NextSeq (cp (swal ?s2))"
    by (rule Cons.IH) (use Cons.prems w in \<open>simp_all add: pop_event_def\<close>)
  ultimately show ?case using nx by auto
qed

lemma sendLoop_accepts:
  assumes "conn s" and "net s = replicate (length fs) NetOk @ evs"
  shows "\<exists>s'. sendLoop cfg fs s = (None, s') \<and> conn s' \<and> net s' = evs \<and> outstanding s' = outstanding s @ map snd fs \<and>
    swal s' = swal s"
  using assms
proof (induction fs arbitrary: s)
  case Nil
  then show ?case by simp
next
  case (Cons f fs)
  let ?s1 = "(link_sent (snd f) (pop_event s))\<lparr>outstanding := outstanding s @ [snd f]\<rparr>"
  have "SendFrame (snd f) s = (True, ?s1)" using Cons.prems by (simp add: SendFrame_def next_event_def)
  moreover obtain s' where "sendLoop cfg fs ?s1 = (None, s')" "conn s'" "net s' = evs"
    "outstanding s' = outstanding ?s1 @ map snd fs" "swal s' = swal ?s1"
    using Cons.IH [of ?s1] Cons.prems by (auto simp: pop_event_def)
  ultimately show ?case by simp
qed

lemma healthy_inv: "healthy w \<Longrightarrow> wal_inv w"
  by (simp add: healthy_def)

lemma Peek_first: "healthy w \<Longrightarrow> pending w = x # xs \<Longrightarrow> Peek w = (Inr x, w)"
  by (simp add: Peek_healthy)

text \<open>How many frames an iteration has in flight.\<close>

definition window_len :: "SenderConfig \<Rightarrow> nat \<Rightarrow> nat" where
  "window_len cfg n = (if Pipeline cfg > 1 then min (nat (Pipeline cfg)) n else min 1 n)"

definition running_ok :: "sender \<Rightarrow> bool" where
  "running_ok s \<longleftrightarrow> conn s \<and> healthy (swal s) \<and> outstanding s = []"

lemma pipeline_accepts:
  assumes "running_ok s" and "pending (swal s) = fs @ rest" and "fs \<noteq> []"
    and "net s = replicate (length fs) NetOk @ replicate (length fs) (NetByte AckSuccess) @ evs"
  shows "\<exists>s'. pipeLoop (Suc fuel) cfg now fs s = (None, s') \<and> running_ok s' \<and> pending (swal s') = rest \<and>
    net s' = evs \<and> retryCount s' = 0"
proof -
  obtain s1 where "sendLoop cfg fs s = (None, s1)" "conn s1" "net s1 = replicate (length fs) (NetByte AckSuccess) @ evs"
    "outstanding s1 = map snd fs" "swal s1 = swal s"
    using sendLoop_accepts [OF _ assms(4), of cfg] assms(1) by (auto simp: running_ok_def)
  moreover from this obtain s' where "ackLoop cfg now fs s1 = (None, s')" "running_ok s'" "pending (swal s') = rest"
    "net s' = evs" "retryCount s' = 0"
    using ackLoop_accepts [of s1 fs rest "[]" evs cfg now "[]"] assms by (auto simp: running_ok_def)
  ultimately show ?thesis by (simp add: pipeRound_def)
qed

lemma sendOne_accepts:
  assumes "running_ok s" and "pending (swal s) = (q, b) # rest" and "net s = NetOk # NetByte AckSuccess # evs"
  shows "running_ok (sendOne cfg now q fb s) \<and> pending (swal (sendOne cfg now q fb s)) = rest \<and>
    net (sendOne cfg now q fb s) = evs \<and> retryCount (sendOne cfg now q fb s) = 0"
proof -
  obtain w where w: "Commit now q (swal s) = (Inr (), w)" "healthy w" "pending w = rest"
    using wq.commit_live [of "swal s" q b rest now] assms(1,2) by (auto simp: running_ok_def)
  then show ?thesis using assms
    by (simp add: sendOne_def SendFrame_def WaitAck_def next_event_def pop_event_def commitSeq_def running_ok_def)
qed

lemma runOnce_accepts:
  assumes ok: "running_ok s" and ne: "pending (swal s) \<noteq> []"
    and k: "k = window_len cfg (length (pending (swal s)))"
    and ev: "net s = replicate k NetOk @ replicate k (NetByte AckSuccess) @ evs"
  shows "running_ok (runOnce (Suc fuel) cd cfg now s) \<and>
    pending (swal (runOnce (Suc fuel) cd cfg now s)) = drop k (pending (swal s)) \<and>
    net (runOnce (Suc fuel) cd cfg now s) = evs \<and> retryCount (runOnce (Suc fuel) cd cfg now s) = 0"
proof -
  obtain q b rest where p: "pending (swal s) = (q, b) # rest" using ne by (metis list.exhaust surj_pair)
  have h: "healthy (swal s)" and c: "conn s" using ok by (auto simp: running_ok_def)
  obtain fb s1 where uc: "useCache q b s = (fb, s1)" by fastforce
  then have s1: "running_ok s1" "swal s1 = swal s" "net s1 = net s" "conn s1"
    using ok by (auto simp: useCache_def running_ok_def split: option.splits prod.splits if_splits)
  have run: "runOnce (Suc fuel) cd cfg now s =
      (if Pipeline cfg > 1 then snd (runPipeline (Suc fuel) cfg now q fb s1) else sendOne cfg now q fb s1)"
    using Peek_first [OF h p] uc s1(4) by (simp add: runOnce_def EnsureConnected_def)
  show ?thesis
  proof (cases "Pipeline cfg > 1")
    case False
    then have "k = 1" using k p by (simp add: window_len_def)
    then show ?thesis using sendOne_accepts [OF s1(1), of q b rest evs cfg now fb] run False p ev s1 by simp
  next
    case True
    let ?fs = "take (nat (Pipeline cfg)) (pending (swal s))"
    have k': "k = length ?fs" using k True by (simp add: window_len_def min.commute)
    have "?fs \<noteq> []" using True p by simp
    moreover have "pending (swal s) = ?fs @ drop (nat (Pipeline cfg)) (pending (swal s))" by simp
    ultimately obtain s' where s': "pipeLoop (Suc fuel) cfg now ?fs s1 = (None, s')" "running_ok s'"
      "pending (swal s') = drop (nat (Pipeline cfg)) (pending (swal s))" "net s' = evs" "retryCount s' = 0"
      using pipeline_accepts [OF s1(1), of ?fs _ evs fuel cfg now] s1 ev k' by metis
    have "PeekBatch (Pipeline cfg) (swal s1) = (Inr ?fs, swal s1)"
      using wq.peek_live [of "swal s" "Pipeline cfg"] h True p s1(2) by simp
    then have "runPipeline (Suc fuel) cfg now q fb s1 = (None, s')"
      using s'(1) by (simp add: runPipeline_def del: pipeLoop.simps)
    moreover have "drop (nat (Pipeline cfg)) (pending (swal s)) = drop k (pending (swal s))"
      unfolding k' by (cases "nat (Pipeline cfg) \<le> length (pending (swal s))") auto
    ultimately show ?thesis using run True s' by simp
  qed
qed

text \<open>What the network delivers when the peer accepts all of \<open>n\<close> frames, window by window.\<close>

function accept_script :: "SenderConfig \<Rightarrow> nat \<Rightarrow> net_event list" where
  "accept_script cfg n =
     (if n = 0 then []
      else (let k = window_len cfg n in
        replicate k NetOk @ replicate k (NetByte AckSuccess) @ accept_script cfg (n - k)))"
  by pat_completeness auto
termination
  by (relation "measure snd") (auto simp: window_len_def)

declare accept_script.simps [simp del]

lemma drains_all:
  assumes "running_ok s" and "net s = accept_script cfg (length (pending (swal s)))"
  shows "\<exists>k \<le> length (pending (swal s)). pending (swal ((runOnce (Suc fuel) cd cfg now ^^ k) s)) = []"
  using assms
proof (induction "length (pending (swal s))" arbitrary: s rule: less_induct)
  case less
  show ?case
  proof (cases "pending (swal s) = []")
    case True
    then show ?thesis by (intro exI [of _ 0]) simp
  next
    case False
    let ?n = "length (pending (swal s))"
    let ?k = "window_len cfg ?n"
    let ?t = "runOnce (Suc fuel) cd cfg now s"
    have k: "0 < ?k" using False by (simp add: window_len_def)
    have "net s = replicate ?k NetOk @ replicate ?k (NetByte AckSuccess) @ accept_script cfg (?n - ?k)"
      using less.prems(2) False by (simp add: accept_script.simps [of cfg ?n] Let_def)
    note R = runOnce_accepts [OF less.prems(1) False refl this, of fuel cd now]
    have "length (pending (swal ?t)) < ?n" using R k False by simp
    moreover have "net ?t = accept_script cfg (length (pending (swal ?t)))" using R by simp
    ultimately obtain j where "j \<le> length (pending (swal ?t))"
      "pending (swal ((runOnce (Suc fuel) cd cfg now ^^ j) ?t)) = []" using less.hyps R by blast
    then show ?thesis using \<open>length (pending (swal ?t)) < ?n\<close>
      by (intro exI [of _ "Suc j"]) (simp add: funpow_Suc_right del: funpow.simps)
  qed
qed

section \<open>Go-back-N\<close>

lemma pipeRound_refused:
  assumes "running_ok s" and "pending (swal s) = acc @ (f # fs) @ rest"
    and "net s = replicate (length (acc @ f # fs)) NetOk @ replicate (length acc) (NetByte AckSuccess) @ NetByte AckFail # evs"
  shows "\<exists>s'. pipeRound cfg now (acc @ f # fs) s = (Some (f # fs), s') \<and> pending (swal s') = (f # fs) @ rest \<and>
    healthy (swal s') \<and> outstanding s' = [] \<and> conn s' = (evs = [] \<or> hd evs \<noteq> NetFail) \<and> net s' = tl evs"
proof -
  obtain s1 where sl: "sendLoop cfg (acc @ f # fs) s = (None, s1)" and s1: "conn s1"
    "net s1 = replicate (length acc) (NetByte AckSuccess) @ NetByte AckFail # evs"
    "outstanding s1 = map snd acc @ map snd (f # fs)" "swal s1 = swal s"
    using sendLoop_accepts [OF _ assms(3), of cfg] assms(1) by (auto simp: running_ok_def)
  obtain s2 where s2: "ackLoop cfg now (acc @ f # fs) s1 = ackLoop cfg now (f # fs) s2" "conn s2"
    "healthy (swal s2)" "pending (swal s2) = (f # fs) @ rest" "outstanding s2 = map snd (f # fs)"
    "net s2 = NetByte AckFail # evs"
    using s1 ackLoop_accepts [of s1 acc "(f # fs) @ rest" "map snd (f # fs)" "NetByte AckFail # evs" cfg now "f # fs"] assms
    by (auto simp: running_ok_def)
  let ?s3 = "closeConn (incRetryCap cfg ((link_read AckFail (pop_event s2))\<lparr>outstanding := map snd fs,
    ackLog := ackLog s2 @ [(snd f, AckFail)]\<rparr>))"
  have al: "ackLoop cfg now (f # fs) s2 = (Some (f # fs), ?s3)"
    using s2 by (simp add: WaitAck_def next_event_def AckFail_def AckSuccess_def)
  have pr: "pipeRound cfg now (acc @ f # fs) s = (Some (f # fs), reconnect cfg ?s3)"
    unfolding pipeRound_def sl prod.case option.case s2(1) al ..
  have "pending (swal (reconnect cfg ?s3)) = (f # fs) @ rest" "healthy (swal (reconnect cfg ?s3))"
    "outstanding (reconnect cfg ?s3) = []" "net (reconnect cfg ?s3) = tl evs"
    "conn (reconnect cfg ?s3) = (evs = [] \<or> hd evs \<noteq> NetFail)"
    using s2 by (auto simp: reconnect_def EnsureConnected_def next_event_def pop_event_def closeConn_def incRetryCap_def
        split: list.splits)
  then show ?thesis using pr by blast
qed

section \<open>A sender on the small WAL\<close>

definition demo_sender :: "net_event list \<Rightarrow> sender" where
  "demo_sender evs = \<lparr>swal = small_wal, conn = True, outstanding = [], ackLog = [], links = [([], [])], net = evs,
     retryCount = 0, cached = None, lastHeartbeat = 0\<rparr>"

definition demo_scfg :: "int \<Rightarrow> SenderConfig" where
  "demo_scfg w = NewSender \<lparr>MaxRetry = 0, BackoffBase = 0, BackoffMax = 0, HeartbeatInterval = 0, IdleSleep = 0, Pipeline = w\<rparr>"

lemma demo_sender_facts: "sender_inv (demo_sender evs)" "running_ok (demo_sender evs)"
  "pending (swal (demo_sender evs)) = [(1, small_frame)]"
  by (simp_all add: sender_inv_def running_ok_def demo_sender_def idle_def ordered_def small_wal_inv small_wal_healthy
      small_wal_pending small_wal_cp)

section \<open>Properties of the sender\<close>

text \<open>
  C3: At least once: in every run of the sending process (iterations in stop-and-wait or window
  mode, appends and cursor updates of the poller, any network, any disk), the frames that
  are no longer pending left from the front of the queue, and the byte that answered exactly this
  frame on its connection was a positive one. No failure, refusal or invalid answer removes a frame.
\<close>

theorem sender_at_least_once:
  assumes "sender_inv s" and "(sstep cd cfg)\<^sup>*\<^sup>* s s'"
  shows "\<exists>gone new. pending (swal s) @ new = gone @ pending (swal s') \<and>
    (\<forall>x\<in>set gone. (snd x, AckSuccess) \<in> set (ackLog s'))"
  using steps_inv [OF assms(2,1)] by (auto simp: delivers_def)

theorem sender_at_least_once_witness:
  "\<exists>s'. (sstep stored_codec (demo_scfg 1))\<^sup>*\<^sup>* (demo_sender [NetOk, NetByte AckSuccess]) s' \<and>
    pending (swal s') = [] \<and> (small_frame, AckSuccess) \<in> set (ackLog s')"
proof -
  let ?s = "demo_sender [NetOk, NetByte AckSuccess]"
  let ?t = "runOnce (Suc 0) stored_codec (demo_scfg 1) 0 ?s"
  have st: "(sstep stored_codec (demo_scfg 1))\<^sup>*\<^sup>* ?s ?t" by (intro r_into_rtranclp sstep.iterate)
  have p: "pending (swal ?t) = []"
    using runOnce_accepts [OF demo_sender_facts(2) _ refl, of _ "demo_scfg 1" "[]" 0 stored_codec 0]
    by (simp add: demo_sender_facts(3) window_len_def demo_scfg_def NewSender_def) (simp add: demo_sender_def)
  from sender_at_least_once [OF demo_sender_facts(1) st] obtain gone new where
    g: "pending (swal ?s) @ new = gone @ pending (swal ?t)" "\<forall>x\<in>set gone. (snd x, AckSuccess) \<in> set (ackLog ?t)" by blast
  then have "(1, small_frame) \<in> set gone" using p by (auto simp: demo_sender_facts(3))
  then have "(small_frame, AckSuccess) \<in> set (ackLog ?t)" using g(2) by force
  with st p show ?thesis by blast
qed

text \<open>
  C13: Delivery: with a working disk and a peer that accepts, the sender empties the WAL, in
  stop-and-wait as in window mode, in at most as many iterations as there are frames.
\<close>

theorem sender_drains_wal:
  assumes "running_ok s" and "net s = accept_script cfg (length (pending (swal s)))"
  shows "\<exists>k \<le> length (pending (swal s)). pending (swal ((runOnce (Suc fuel) cd cfg now ^^ k) s)) = []"
  using assms by (rule drains_all)

theorem sender_drains_wal_witness:
  "\<exists>k \<le> 1. pending (swal ((runOnce 1 stored_codec (demo_scfg 8) 0 ^^ k) (demo_sender [NetOk, NetByte AckSuccess]))) = []"
proof -
  have "net (demo_sender [NetOk, NetByte AckSuccess]) =
      accept_script (demo_scfg 8) (length (pending (swal (demo_sender [NetOk, NetByte AckSuccess]))))"
    unfolding demo_sender_facts(3) by (simp add: accept_script.simps window_len_def demo_scfg_def NewSender_def demo_sender_def)
  from sender_drains_wal [OF demo_sender_facts(2) this, of 0 stored_codec 0] show ?thesis
    by (simp add: demo_sender_facts(3))
qed

text \<open>
  C16: Go-back-N: when the frames of a window before some frame are accepted and this frame is
  refused, exactly the accepted ones are committed, the connection is closed so that no answer to
  the rest of the window can be taken for a later frame's, and the round ends with the refused
  frame and all after it to be sent again, in order.
\<close>

theorem window_goes_back:
  assumes "running_ok s" and "pending (swal s) = ok @ (f # fs) @ rest"
    and "net s = replicate (length (ok @ f # fs)) NetOk @ replicate (length ok) (NetByte AckSuccess) @ NetByte AckFail # evs"
  shows "\<exists>s'. pipeRound cfg now (ok @ f # fs) s = (Some (f # fs), s') \<and> pending (swal s') = (f # fs) @ rest \<and>
    healthy (swal s') \<and> outstanding s' = [] \<and> conn s' = (evs = [] \<or> hd evs \<noteq> NetFail) \<and> net s' = tl evs"
  using assms by (rule pipeRound_refused)

theorem window_goes_back_witness:
  "\<exists>s'. pipeRound (demo_scfg 8) 0 [(1, small_frame)] (demo_sender [NetOk, NetByte AckFail]) = (Some [(1, small_frame)], s') \<and>
    pending (swal s') = [(1, small_frame)] \<and> outstanding s' = [] \<and> conn s'"
proof -
  have "net (demo_sender [NetOk, NetByte AckFail]) = replicate (length ([] @ [(1 :: u64, small_frame)])) NetOk @
      replicate (length ([] :: (u64 \<times> bytes) list)) (NetByte AckSuccess) @ NetByte AckFail # []"
    by (simp add: demo_sender_def)
  from window_goes_back [OF demo_sender_facts(2) _ this, of "[]" "demo_scfg 8" 0] show ?thesis
    by (auto simp: demo_sender_facts(3))
qed

text \<open>
  The wait before the n-th attempt is the base doubled n-1 times, capped at the maximum,
  without overflow of the 64-bit duration for any number of attempts.
\<close>

theorem backoff_exact:
  assumes "0 < BackoffBase cfg" and "BackoffBase cfg \<le> BackoffMax cfg" and "BackoffMax cfg < 2 ^ 62"
  shows "backoff cfg n = (if n \<le> 0 then 0 else min (BackoffBase cfg * 2 ^ nat (n - 1)) (BackoffMax cfg))"
  using backoff_loop_min [OF assms] by (simp add: backoff_def)

theorem backoff_exact_witness:
  "backoff (demo_scfg 1) 4 = 8000000000 \<and> backoff (demo_scfg 1) 100 = 60000000000"
proof -
  have "0 < BackoffBase (demo_scfg 1)" "BackoffBase (demo_scfg 1) \<le> BackoffMax (demo_scfg 1)"
    "BackoffMax (demo_scfg 1) < 2 ^ 62" by (simp_all add: demo_scfg_def NewSender_def)
  note B = backoff_exact [OF this]
  show ?thesis unfolding B by (simp add: demo_scfg_def NewSender_def)
qed

end
