(* ===== verification/Sender_Links.thy ===== *)
theory Sender_Links
  imports Sender_System
begin

text \<open>
  The sender's view of its connections: every answer it has noted for a frame is the byte at the
  same position of the same connection as the frame. This is what ties the sender to the server,
  which answers frames in their order.
\<close>

definition answered :: "(bytes list \<times> byte list) list \<Rightarrow> (bytes \<times> byte) set" where
  "answered ls = (\<Union>(sent, rd)\<in>set ls. set (zip sent rd))"

definition links_ok :: "sender \<Rightarrow> bool" where
  "links_ok s \<longleftrightarrow> set (ackLog s) \<subseteq> answered (links s) \<and>
     (conn s \<longrightarrow> (\<exists>ls sent rd. links s = ls @ [(sent, rd)] \<and> length rd \<le> length sent \<and>
        outstanding s = drop (length rd) sent))"

lemma zip_grows: "set (zip a b) \<subseteq> set (zip (a @ x) (b @ y))"
  by (fastforce simp: in_set_zip nth_append)

lemma answered_snoc [simp]: "answered (ls @ [(sent, rd)]) = answered ls \<union> set (zip sent rd)"
  by (auto simp: answered_def)

lemma links_ok_same:
  assumes "links_ok s" and "links s' = links s" and "ackLog s' = ackLog s"
    and "conn s' \<longrightarrow> conn s \<and> outstanding s' = outstanding s"
  shows "links_ok s'"
  using assms by (auto simp: links_ok_def)

lemma links_simps [simp]:
  "links (pop_event s) = links s" "links (closeConn s) = links s" "links (incRetry s) = links s"
  "links (incRetryCap cfg s) = links s"
  by (simp_all add: pop_event_def closeConn_def incRetry_def incRetryCap_def)

lemma links_ok_close [simp]: "links_ok s \<Longrightarrow> links_ok (closeConn s)"
  by (erule links_ok_same) simp_all

lemma links_ok_retry [simp]: "links_ok (incRetry s) = links_ok s" "links_ok (incRetryCap cfg s) = links_ok s"
  by (simp_all add: links_ok_def)

lemma links_ok_wal [simp]: "links_ok (s\<lparr>swal := w\<rparr>) = links_ok s" "links_ok (s\<lparr>retryCount := n\<rparr>) = links_ok s"
  "links_ok (s\<lparr>cached := x\<rparr>) = links_ok s" "links_ok (s\<lparr>lastHeartbeat := n\<rparr>) = links_ok s" "links_ok (s\<lparr>net := evs\<rparr>) = links_ok s"
  by (simp_all add: links_ok_def)

section \<open>Single calls\<close>

lemma EnsureConnected_links: "links_ok s \<Longrightarrow> EnsureConnected s = (b, s') \<Longrightarrow> links_ok s'"
  by (auto simp: EnsureConnected_def links_ok_def split: if_splits)

lemma link_sent_grows:
  assumes "links s = ls @ [(sent, rd)]"
  shows "links (link_sent fb s) = ls @ [(sent @ [fb], rd)]" and "answered (links s) \<subseteq> answered (links (link_sent fb s))"
  using assms zip_grows [of sent rd "[fb]" "[]"] by (auto simp: link_update_def)

lemma link_read_grows:
  assumes "links s = ls @ [(sent, rd)]"
  shows "links (link_read b s) = ls @ [(sent, rd @ [b])]" and "answered (links s) \<subseteq> answered (links (link_read b s))"
  using assms zip_grows [of sent rd "[]" "[b]"] by (auto simp: link_update_def)

lemma SendFrame_links:
  assumes ok: "links_ok s" and eq: "SendFrame fb s = (b, s')"
  shows "links_ok s'"
proof (cases "conn s")
  case False
  then show ?thesis using ok eq by (simp add: SendFrame_def)
next
  case True
  then obtain ls sent rd where l: "links s = ls @ [(sent, rd)]" "length rd \<le> length sent" "outstanding s = drop (length rd) sent"
    using ok unfolding links_ok_def by blast
  have "links (pop_event s) = ls @ [(sent, rd)]" using l(1) by simp
  note G = link_sent_grows [OF this, of fb]
  have s': "links s' = links (link_sent fb (pop_event s))" "ackLog s' = ackLog s" "conn s' \<longrightarrow> outstanding s' = outstanding s @ [fb]"
    using eq True by (auto simp: SendFrame_def split: if_splits)
  have "set (ackLog s') \<subseteq> answered (links s')" using ok G(2) s'(1,2) by (auto simp: links_ok_def)
  moreover have "links s' = ls @ [(sent @ [fb], rd)]" using s'(1) G(1) by simp
  ultimately show ?thesis using l s'(3) unfolding links_ok_def by auto
qed

lemma WaitAck_links:
  assumes ok: "links_ok s" and eq: "WaitAck s = (r, s')" and out: "conn s \<Longrightarrow> outstanding s \<noteq> []"
  shows "links_ok s'"
proof (cases "conn s \<and> (\<exists>b. next_event s = NetByte b)")
  case False
  then have "s' = s \<or> s' = closeConn (pop_event s)" using eq by (auto simp: WaitAck_def split: net_event.splits if_splits)
  moreover have "links_ok (pop_event s)" using ok by (rule links_ok_same) simp_all
  ultimately show ?thesis using ok by auto
next
  case True
  then obtain b where b: "next_event s = NetByte b" and c: "conn s" by blast
  obtain fb rest where o: "outstanding s = fb # rest" using out [OF c] by (cases "outstanding s") auto
  obtain ls sent rd where l: "links s = ls @ [(sent, rd)]" "length rd \<le> length sent" "outstanding s = drop (length rd) sent"
    using ok c unfolding links_ok_def by blast
  have "links (pop_event s) = ls @ [(sent, rd)]" using l(1) by simp
  note G = link_read_grows [OF this, of b]
  have s': "s' = (link_read b (pop_event s))\<lparr>outstanding := rest, ackLog := ackLog s @ [(fb, b)]\<rparr>"
    using eq b c o by (simp add: WaitAck_def)
  have dr: "drop (length rd) sent = fb # rest" using l(3) o by simp
  have lt: "length rd < length sent" using dr by (metis drop_all list.distinct(1) not_le)
  have hd: "sent ! length rd = fb" and tl: "rest = drop (Suc (length rd)) sent"
    using dr lt by (simp_all add: Cons_nth_drop_Suc [symmetric])
  have "(fb, b) \<in> set (zip sent (rd @ [b]))" unfolding in_set_zip using lt hd by (intro exI [of _ "length rd"]) auto
  then have "set (ackLog s') \<subseteq> answered (links s')" using ok G s' by (auto simp: links_ok_def)
  then show ?thesis using s' G(1) lt tl unfolding links_ok_def by auto
qed

section \<open>The loop\<close>

lemma commitSeq_links: "links_ok s \<Longrightarrow> commitSeq now q s = (ok, s') \<Longrightarrow> links_ok s'"
  by (auto simp: commitSeq_def split: prod.splits)

lemma sendLoop_links: "links_ok s \<Longrightarrow> sendLoop cfg fs s = (r, s') \<Longrightarrow> links_ok s'"
proof (induction fs arbitrary: s)
  case (Cons f fs)
  obtain b s1 where sf: "SendFrame (snd f) s = (b, s1)" by fastforce
  then have "links_ok s1" using SendFrame_links Cons.prems(1) by blast
  then show ?case using Cons sf by (cases b) auto
qed simp

lemma ackLoop_links:
  assumes "links_ok s" and "ackLoop cfg now fs s = (r, s')" and "outstanding s = map snd fs" and "fs \<noteq> [] \<longrightarrow> conn s"
  shows "links_ok s'"
  using assms
proof (induction fs arbitrary: s)
  case (Cons f fs)
  obtain a s1 where wa: "WaitAck s = (a, s1)" by fastforce
  have l1: "links_ok s1" by (rule WaitAck_links [OF Cons.prems(1) wa]) (simp add: Cons.prems(3))
  show ?case
  proof (cases "a = Some AckSuccess")
    case False
    then have "s' \<in> {incRetryCap cfg s1, closeConn (incRetryCap cfg s1), closeConn (incRetry s1)}"
      using Cons.prems(2) wa by (auto split: option.splits if_splits)
    then show ?thesis using l1 by auto
  next
    case True
    then have o: "conn s1" "outstanding s1 = map snd fs"
      using WaitAck_result(4) [OF wa, of AckSuccess "snd f" "map snd fs"] Cons.prems(3) by auto
    obtain ok s2 where c: "commitSeq now (fst f) s1 = (ok, s2)" by fastforce
    have s2: "conn s2" "outstanding s2 = map snd fs" using c o by (auto simp: commitSeq_def split: prod.splits)
    have "ackLoop cfg now fs (if ok then s2\<lparr>retryCount := 0\<rparr> else s2) = (r, s')"
      using Cons.prems(2) wa True c by (cases ok) simp_all
    from Cons.IH [OF _ this] show ?thesis using commitSeq_links [OF l1 c] s2 by (cases ok) simp_all
  qed
qed simp

lemma reconnect_links: "links_ok s \<Longrightarrow> links_ok (reconnect cfg s)"
  using EnsureConnected_links [of s] by (auto simp: reconnect_def split: prod.splits bool.splits)

lemma pipeRound_links:
  assumes "links_ok s" and "pipeRound cfg now fs s = (r, s')" and "idle s"
  shows "links_ok s'"
proof -
  obtain r1 s1 where sl: "sendLoop cfg fs s = (r1, s1)" by fastforce
  have l1: "links_ok s1" by (rule sendLoop_links [OF assms(1) sl])
  show ?thesis
  proof (cases r1)
    case (Some rest)
    then show ?thesis using assms(2) sl reconnect_links [OF l1] by (auto simp: pipeRound_def)
  next
    case None
    then have o: "outstanding s1 = map snd fs" "fs \<noteq> [] \<longrightarrow> conn s1"
      using sendLoop_result [OF sl] assms(3) by (auto simp: idle_def)
    obtain r2 s2 where al: "ackLoop cfg now fs s1 = (r2, s2)" by fastforce
    have "links_ok s2" by (rule ackLoop_links [OF l1 al o])
    then show ?thesis using assms(2) sl None al reconnect_links by (auto simp: pipeRound_def split: option.splits)
  qed
qed

lemma pipeLoop_links:
  assumes "links_ok s" and "pipeLoop fuel cfg now fs s = (r, s')" and "ready s fs"
  shows "links_ok s'"
  using assms
proof (induction fuel arbitrary: fs s)
  case (Suc fuel)
  obtain r1 s1 where pr: "pipeRound cfg now fs s = (r1, s1)" by fastforce
  have l1: "links_ok s1" by (rule pipeRound_links [OF Suc.prems(1) pr]) (use Suc.prems(3) in \<open>simp add: ready_def\<close>)
  show ?case
  proof (cases r1)
    case None
    then show ?thesis using l1 Suc.prems(2) pr by simp
  next
    case (Some rest)
    then have "ready s1 rest" using pipeRound_result [OF pr Suc.prems(3)] by blast
    then show ?thesis using Suc.IH [OF l1] Suc.prems(2) pr Some by simp
  qed
qed simp

lemma runPipeline_links:
  assumes ok: "links_ok s" and inv: "sender_inv s" and con: "consistent [(seq, fb)] (pending (swal s))"
    and eq: "runPipeline fuel cfg now seq fb s = (r, s')"
  shows "links_ok s'"
proof -
  have wi: "wal_inv (swal s)" and ds: "distinct (map fst (pending (swal s)))"
    using inv sender_inv_distinct by (auto simp: sender_inv_def)
  obtain p w where pb: "PeekBatch (Pipeline cfg) (swal s) = (p, w)" by fastforce
  have w: "wal_inv w" "pending w = pending (swal s)" using wq.peek_keeps [OF wi pb] by auto
  define fs where "fs = (case p of Inl _ \<Rightarrow> [(seq, fb)] | Inr frames \<Rightarrow> frames)"
  have "consistent fs (pending (swal s))"
  proof (cases p)
    case (Inl e)
    then show ?thesis using con by (simp add: fs_def)
  next
    case (Inr frames)
    then have "set frames \<subseteq> set (pending (swal s))" using wq.peek_oldest [OF wi pb [unfolded Inr]] by auto
    then show ?thesis using consistent_self [OF ds] Inr by (simp add: fs_def)
  qed
  then have "ready (s\<lparr>swal := w\<rparr>) fs" using w inv by (simp add: ready_def sender_inv_def idle_def)
  moreover have "pipeLoop fuel cfg now fs (s\<lparr>swal := w\<rparr>) = (r, s')"
    using eq pb by (cases p) (simp_all add: runPipeline_def fs_def)
  ultimately show ?thesis using pipeLoop_links [of "s\<lparr>swal := w\<rparr>"] ok by simp
qed

lemma sendOne_links:
  assumes "links_ok s"
  shows "links_ok (sendOne cfg now seq fb s)"
proof -
  obtain b s1 where sf: "SendFrame fb s = (b, s1)" by fastforce
  have l1: "links_ok s1" by (rule SendFrame_links [OF assms sf])
  obtain a s2 where wa: "WaitAck s1 = (a, s2)" by fastforce
  obtain ok s3 where c: "commitSeq now seq s2 = (ok, s3)" by fastforce
  show ?thesis
  proof (cases b)
    case False
    then show ?thesis using sf l1 by (simp add: sendOne_def)
  next
    case True
    have "links_ok s2" by (rule WaitAck_links [OF l1 wa]) (use SendFrame_result(3) [OF sf True] in simp)
    then have "links_ok s2" "links_ok s3" using commitSeq_links [OF _ c] by auto
    then show ?thesis using sf True wa c by (auto simp: sendOne_def split: option.splits bool.splits)
  qed
qed

lemma sendHeartbeat_links:
  assumes "links_ok s"
  shows "links_ok (sendHeartbeat cd s)"
proof -
  obtain fb where hb: "EncodeHeartbeat cd 0 = Inr fb" by (simp add: EncodeHeartbeat_def Encode_def)
  obtain b1 s1 where e: "EnsureConnected s = (b1, s1)" by fastforce
  obtain b2 s2 where sf: "SendFrame fb s1 = (b2, s2)" by fastforce
  obtain a s3 where wa: "WaitAck s2 = (a, s3)" by fastforce
  have l1: "links_ok s1" by (rule EnsureConnected_links [OF assms e])
  have l2: "links_ok s2" by (rule SendFrame_links [OF l1 sf])
  have "links_ok s3" if b2 by (rule WaitAck_links [OF l2 wa]) (use SendFrame_result(3) [OF sf that] in simp)
  then show ?thesis using hb e sf wa l1 l2 by (cases b1; cases b2) (simp_all add: sendHeartbeat_def)
qed

lemma runOnce_links:
  assumes ok: "links_ok s" and inv: "sender_inv s"
  shows "links_ok (runOnce fuel cd cfg now s)"
proof -
  have wi: "wal_inv (swal s)" using inv by (simp add: sender_inv_def)
  obtain r w where pk: "Peek (swal s) = (r, w)" by fastforce
  note P = Peek_result [OF wi pk]
  have i0: "sender_inv (s\<lparr>swal := w\<rparr>)" using P inv by (simp add: sender_inv_def idle_def)
  show ?thesis
  proof (cases r)
    case (Inl e)
    then show ?thesis using pk ok sendHeartbeat_links [of "s\<lparr>swal := w\<rparr>" cd] by (simp add: runOnce_def Let_def)
  next
    case (Inr x)
    obtain seq fb0 where x: "x = (seq, fb0)" by fastforce
    then obtain rest where pd: "pending (swal (s\<lparr>swal := w\<rparr>)) = (seq, fb0) # rest" using P Inr by auto
    obtain fb s1 where uc: "useCache seq fb0 (s\<lparr>swal := w\<rparr>) = (fb, s1)" by fastforce
    note U = useCache_result [OF i0 pd uc]
    have l1: "links_ok s1" using uc ok by (auto simp: useCache_def split: option.splits prod.splits if_splits)
    obtain b s2 where e: "EnsureConnected s1 = (b, s2)" by fastforce
    note E = EnsureConnected_result [OF e]
    have l2: "links_ok s2" by (rule EnsureConnected_links [OF l1 e])
    have i1: "wal_inv (swal s1)" "idle s1" using U(3) by (auto simp: sender_inv_def)
    have i2: "sender_inv s2" by (rule sender_inv_drains [OF U(3) still_drains [OF E(1) i1(1)] E(4) [OF i1(2)] E(2)])
    have con: "consistent [(seq, fb)] (pending (swal s2))" using U(1) E(1) by (simp add: still_def)
    obtain r' s3 where rp: "runPipeline fuel cfg now seq fb s2 = (r', s3)" by fastforce
    have "runOnce fuel cd cfg now s = (if \<not> b then incRetry s2 else if Pipeline cfg > 1 then s3 else sendOne cfg now seq fb s2)"
      using pk Inr x uc e rp by (cases b) (simp_all add: runOnce_def)
    then show ?thesis using l2 runPipeline_links [OF l2 i2 con rp] sendOne_links [OF l2] by simp
  qed
qed

lemma sstep_links: "sstep cd cfg s s' \<Longrightarrow> sender_inv s \<Longrightarrow> links_ok s \<Longrightarrow> links_ok s'"
  by (erule sstep.cases) (auto intro: runOnce_links)

lemma steps_links:
  assumes "(sstep cd cfg)\<^sup>*\<^sup>* s s'" and "sender_inv s" and "links_ok s"
  shows "links_ok s'"
  using assms
proof (induction rule: rtranclp_induct)
  case (step t u)
  then show ?case using steps_inv sstep_links by blast
qed simp

end
