(* ===== verification/Go_Text.thy ===== *)
theory Go_Text
  imports Prelude
begin

text \<open>
  What the sources use of Go's \<^verbatim>\<open>bytes\<close>, \<^verbatim>\<open>strings\<close>, \<^verbatim>\<open>strconv\<close>
  and \<^verbatim>\<open>fmt\<close> packages. A Go string is a sequence of bytes, so text is \<open>bytes\<close>
  here and literals are written with \<open>str\<close>.
\<close>

definition str :: "string \<Rightarrow> bytes" where
  "str s = map (\<lambda>c. word_of_nat (of_char c)) s"

definition newline :: byte where "newline = 10"

section \<open>Splitting and joining\<close>

text \<open>\<^verbatim>\<open>bytes.Split(s, []byte{b})\<close>.\<close>

fun split_byte :: "byte \<Rightarrow> bytes \<Rightarrow> bytes list" where
  "split_byte b [] = [[]]"
| "split_byte b (x # xs) =
     (if x = b then [] # split_byte b xs
      else (x # hd (split_byte b xs)) # tl (split_byte b xs))"

fun join_byte :: "byte \<Rightarrow> bytes list \<Rightarrow> bytes" where
  "join_byte b [] = []"
| "join_byte b [l] = l"
| "join_byte b (l # ls) = l @ b # join_byte b ls"

lemma split_byte_not_Nil [simp]: "split_byte b xs \<noteq> []"
  by (induction xs) auto

lemma join_byte_Cons: "ls \<noteq> [] \<Longrightarrow> join_byte b (l # ls) = l @ b # join_byte b ls"
  by (cases ls) auto

lemma join_split [simp]: "join_byte b (split_byte b xs) = xs"
proof (induction xs)
  case Nil
  show ?case by simp
next
  case (Cons x xs)
  obtain l ls where sp: "split_byte b xs = l # ls" by (cases "split_byte b xs") auto
  show ?case
  proof (cases "x = b")
    case True
    then show ?thesis using Cons by (simp add: join_byte_Cons)
  next
    case False
    then show ?thesis using Cons sp by (cases ls) auto
  qed
qed

lemma split_byte_lines: "l \<in> set (split_byte b xs) \<Longrightarrow> b \<notin> set l"
proof (induction xs arbitrary: l)
  case Nil
  then show ?case by simp
next
  case (Cons x xs)
  have sub: "set (tl (split_byte b xs)) \<subseteq> set (split_byte b xs)"
    by (cases "split_byte b xs") auto
  have "hd (split_byte b xs) \<in> set (split_byte b xs)" by simp
  with Cons sub show ?case by (auto split: if_splits)
qed

lemma split_byte_line: "b \<notin> set l \<Longrightarrow> split_byte b l = [l]"
  by (induction l) auto

lemma split_byte_append: "b \<notin> set l \<Longrightarrow> split_byte b (l @ b # xs) = l # split_byte b xs"
  by (induction l) auto

text \<open>Lines that contain no separator survive joining and splitting.\<close>

lemma split_join: "ls \<noteq> [] \<Longrightarrow> \<forall>l\<in>set ls. b \<notin> set l \<Longrightarrow> split_byte b (join_byte b ls) = ls"
proof (induction ls)
  case Nil
  then show ?case by simp
next
  case (Cons l ls)
  show ?case
  proof (cases ls)
    case Nil
    then show ?thesis using Cons.prems by (simp add: split_byte_line)
  next
    case (Cons m ms)
    then show ?thesis using Cons.IH Cons.prems by (simp add: split_byte_append)
  qed
qed

section \<open>Searching\<close>

definition has_prefix :: "bytes \<Rightarrow> bytes \<Rightarrow> bool" where
  "has_prefix p s \<longleftrightarrow> take (length p) s = p"

definition has_suffix :: "bytes \<Rightarrow> bytes \<Rightarrow> bool" where
  "has_suffix p s \<longleftrightarrow> length p \<le> length s \<and> drop (length s - length p) s = p"

text \<open>\<^verbatim>\<open>bytes.Index\<close>, \<^verbatim>\<open>bytes.LastIndex\<close>; not found is \<open>None\<close>.\<close>

fun index_of :: "bytes \<Rightarrow> bytes \<Rightarrow> nat option" where
  "index_of p [] = (if p = [] then Some 0 else None)"
| "index_of p (x # xs) = (if has_prefix p (x # xs) then Some 0 else map_option Suc (index_of p xs))"

fun last_index_of :: "bytes \<Rightarrow> bytes \<Rightarrow> nat option" where
  "last_index_of p [] = (if p = [] then Some 0 else None)"
| "last_index_of p (x # xs) =
     (case last_index_of p xs of
        Some i \<Rightarrow> Some (Suc i)
      | None \<Rightarrow> if has_prefix p (x # xs) then Some 0 else None)"

section \<open>White space\<close>

text \<open>The UTF-8 encodings of the runes for which \<^verbatim>\<open>unicode.IsSpace\<close> holds.\<close>

definition space_seqs :: "bytes list" where
  "space_seqs = [[9], [10], [11], [12], [13], [32], [0xC2, 0x85], [0xC2, 0xA0], [0xE1, 0x9A, 0x80]] @
     map (\<lambda>b. [0xE2, 0x80, b]) [0x80, 0x81, 0x82, 0x83, 0x84, 0x85, 0x86, 0x87, 0x88, 0x89, 0x8A, 0xA8, 0xA9, 0xAF] @
     [[0xE2, 0x81, 0x9F], [0xE3, 0x80, 0x80]]"

function trim_front :: "bytes list \<Rightarrow> bytes \<Rightarrow> bytes" where
  "trim_front seqs s =
     (case find (\<lambda>q. q \<noteq> [] \<and> has_prefix q s) seqs of
        None \<Rightarrow> s
      | Some q \<Rightarrow> trim_front seqs (drop (length q) s))"
  by pat_completeness auto
termination
proof (relation "measure (\<lambda>(seqs, s). length s)", goal_cases)
  case 1
  show ?case by simp
next
  case (2 seqs s q)
  then have q: "q \<noteq> []" "has_prefix q s" by (auto simp: find_Some_iff)
  then have "length q \<le> length s" by (metis has_prefix_def length_take min.absorb_iff2 min.commute)
  with q(1) show ?case by (cases q) auto
qed

declare trim_front.simps [simp del]

definition TrimSpace :: "bytes \<Rightarrow> bytes" where
  "TrimSpace s = rev (trim_front (map rev space_seqs) (rev (trim_front space_seqs s)))"

lemma trim_front_stop: "(\<And>q. q \<in> set seqs \<Longrightarrow> q \<noteq> [] \<Longrightarrow> \<not> has_prefix q s) \<Longrightarrow> trim_front seqs s = s"
  by (subst trim_front.simps) (auto simp: find_Some_iff split: option.split)

section \<open>Numbers\<close>

definition is_digit :: "byte \<Rightarrow> bool" where
  "is_digit b \<longleftrightarrow> 48 \<le> b \<and> b \<le> 57"

definition digits_val :: "bytes \<Rightarrow> int" where
  "digits_val ds = foldl (\<lambda>a d. a * 10 + (uint d - 48)) 0 ds"

text \<open>\<^verbatim>\<open>strconv.ParseInt(s, 10, 64)\<close>: an optional sign and digits, in range.\<close>

definition ParseInt :: "bytes \<Rightarrow> int option" where
  "ParseInt s =
     (let neg = (s \<noteq> [] \<and> hd s = 45);
          ds = (if s \<noteq> [] \<and> (hd s = 45 \<or> hd s = 43) then tl s else s)
      in if ds = [] \<or> \<not> list_all is_digit ds then None
         else let v = (if neg then - digits_val ds else digits_val ds) in
           if in_i64 v then Some v else None)"

text \<open>\<^verbatim>\<open>fmt.Sscanf(s, "%d", &n)\<close>: blanks, an optional sign, the longest run of digits.\<close>

definition Sscanf_d :: "bytes \<Rightarrow> int option" where
  "Sscanf_d s =
     (let t = dropWhile (\<lambda>b. b = 32 \<or> b = 9 \<or> b = 11 \<or> b = 12) s;
          sgn = (if t \<noteq> [] \<and> (hd t = 45 \<or> hd t = 43) then [hd t] else []);
          ds = takeWhile is_digit (drop (length sgn) t)
      in ParseInt (sgn @ ds))"

lemma ParseInt_range: "ParseInt s = Some v \<Longrightarrow> in_i64 v"
  by (auto simp: ParseInt_def Let_def split: if_splits)

section \<open>Printing numbers\<close>

fun dec_digits :: "nat \<Rightarrow> bytes" where
  "dec_digits n = (if n < 10 then [48 + word_of_nat n]
     else dec_digits (n div 10) @ [48 + word_of_nat (n mod 10)])"

declare dec_digits.simps [simp del]

text \<open>\<^verbatim>\<open>fmt.Sprintf("%d", n)\<close>.\<close>

definition show_int :: "int \<Rightarrow> bytes" where
  "show_int n = (if n < 0 then 45 # dec_digits (nat (- n)) else dec_digits (nat n))"

lemma digit_cases: "k < 10 \<Longrightarrow> k = 0 \<or> k = 1 \<or> k = 2 \<or> k = 3 \<or> k = 4 \<or> k = 5 \<or> k = 6 \<or> k = 7 \<or> k = 8 \<or> k = (9 :: nat)"
  by presburger

lemma digit_byte:
  assumes "k < 10"
  shows "uint (48 + word_of_nat k :: byte) = 48 + int k" and "is_digit (48 + word_of_nat k)"
  using digit_cases [OF assms] by (auto simp: is_digit_def)

lemma dec_digits_digits: "list_all is_digit (dec_digits n) \<and> dec_digits n \<noteq> []"
proof (induction n rule: dec_digits.induct)
  case (1 n)
  then show ?case by (cases "n < 10") (simp_all add: dec_digits.simps [of n] digit_byte(2))
qed

lemma digits_val_append: "digits_val (ds @ [d]) = digits_val ds * 10 + (uint d - 48)"
  by (simp add: digits_val_def)

lemma digits_val_dec: "digits_val (dec_digits n) = int n"
proof (induction n rule: dec_digits.induct)
  case (1 n)
  show ?case
  proof (cases "n < 10")
    case True
    then show ?thesis by (subst dec_digits.simps) (simp add: digits_val_def digit_byte(1))
  next
    case False
    have "digits_val (dec_digits n) = int (n div 10) * 10 + int (n mod 10)"
      using False 1 by (subst dec_digits.simps) (simp add: digits_val_append digit_byte(1))
    also have "\<dots> = int (n div 10 * 10 + n mod 10)" by (simp only: of_nat_add of_nat_mult of_nat_numeral)
    finally show ?thesis by (simp only: div_mult_mod_eq)
  qed
qed

lemma digit_not_sign: "is_digit b \<Longrightarrow> b \<noteq> 45 \<and> b \<noteq> 43 \<and> b \<noteq> 32 \<and> b \<noteq> 9 \<and> b \<noteq> 10 \<and> b \<noteq> 11 \<and> b \<noteq> 12"
  by (auto simp: is_digit_def)

lemma ParseInt_show:
  assumes "in_i64 n"
  shows "ParseInt (show_int n) = Some n"
proof (cases "n < 0")
  case True
  then show ?thesis
    using assms dec_digits_digits [of "nat (- n)"] by (simp add: ParseInt_def show_int_def digits_val_dec)
next
  case False
  have "hd (dec_digits (nat n)) \<noteq> 45 \<and> hd (dec_digits (nat n)) \<noteq> 43"
    using dec_digits_digits [of "nat n"] digit_not_sign by (cases "dec_digits (nat n)") auto
  then show ?thesis
    using False assms dec_digits_digits [of "nat n"] by (simp add: ParseInt_def show_int_def digits_val_dec Let_def)
qed

lemma takeWhile_digits: "list_all is_digit ds \<Longrightarrow> takeWhile is_digit ds = ds"
  by (induction ds) auto

lemma Sscanf_show: "in_i64 n \<Longrightarrow> Sscanf_d (show_int n) = Some n"
proof -
  assume n: "in_i64 n"
  obtain b bs where s: "show_int n = b # bs" "b = 45 \<and> list_all is_digit bs \<or> is_digit b \<and> list_all is_digit bs"
    using dec_digits_digits [of "nat n"] dec_digits_digits [of "nat (- n)"]
    by (cases "n < 0"; cases "dec_digits (nat n)") (auto simp: show_int_def)
  have "Sscanf_d (show_int n) = ParseInt (show_int n)"
    using s digit_not_sign [of b] by (auto simp: Sscanf_d_def Let_def takeWhile_digits)
  then show ?thesis using ParseInt_show [OF n] by simp
qed

text \<open>No white space starts with, or ends in, a printable ASCII byte.\<close>

definition printable :: "byte \<Rightarrow> bool" where
  "printable b \<longleftrightarrow> 32 < b \<and> b < 127"

lemma trim_printable:
  assumes "printable b"
  shows "trim_front space_seqs (b # bs) = b # bs" and "trim_front (map rev space_seqs) (b # bs) = b # bs"
  using assms by (auto intro!: trim_front_stop simp: space_seqs_def has_prefix_def printable_def)

lemma TrimSpace_line:
  assumes "s \<noteq> []" and "printable (hd s)" and "printable (last s)"
  shows "TrimSpace (s @ [newline]) = s"
proof -
  obtain b bs where s: "s = b # bs" using assms(1) by (cases s) auto
  obtain l ls where rs: "rev s = l # ls" using assms(1) by (cases "rev s") auto
  then have "printable l" using assms(3) by (metis hd_rev list.sel(1))
  have front: "trim_front space_seqs (s @ [newline]) = s @ [newline]"
    using trim_printable(1) assms(2) s by simp
  have "trim_front (map rev space_seqs) (newline # rev s) = trim_front (map rev space_seqs) (rev s)"
    by (subst trim_front.simps) (simp add: space_seqs_def has_prefix_def newline_def)
  also have "\<dots> = rev s" using trim_printable(2) [OF \<open>printable l\<close>] rs by simp
  finally show ?thesis by (simp add: TrimSpace_def front)
qed

lemma TrimSpace_id:
  assumes "s \<noteq> []" and "printable (hd s)" and "printable (last s)"
  shows "TrimSpace s = s"
proof -
  have "trim_front space_seqs s = s"
    using trim_printable(1) [OF assms(2), of "tl s"] assms(1) by simp
  moreover have "rev s = last s # tl (rev s)" using assms(1) by (metis hd_rev list.collapse rev_is_Nil_conv)
  then have "trim_front (map rev space_seqs) (rev s) = rev s"
    using trim_printable(2) [OF assms(3), of "tl (rev s)"] by metis
  ultimately show ?thesis by (simp add: TrimSpace_def)
qed

lemma show_int_ends: "show_int n \<noteq> []" "printable (hd (show_int n))" "printable (last (show_int n))"
proof -
  have d: "is_digit b \<Longrightarrow> printable b" for b
    by (simp add: is_digit_def printable_def word_le_nat_alt word_less_nat_alt)
  have ends: "printable (hd (dec_digits m))" "printable (last (dec_digits m))" for m
    using dec_digits_digits [of m] d by (auto simp: list_all_iff)
  show "show_int n \<noteq> []" using dec_digits_digits by (simp add: show_int_def)
  show "printable (hd (show_int n))" using ends by (simp add: show_int_def printable_def)
  show "printable (last (show_int n))" using ends dec_digits_digits by (simp add: show_int_def)
qed

end
