(* ===== verification/Vm_Client.thy ===== *)
theory Vm_Client
  imports Protocol Go_Text
begin

text \<open>
  The VictoriaMetrics client, \<^verbatim>\<open>src/internal/vm/client.go\<close>. The HTTP exchange itself
  (building the request, authentication, the network, the server) is a parameter: the outcome of
  a request is a value of \<open>http_result\<close>. What the client makes of the outcome, the binary
  search for the oldest data and the extraction of time stamps are modelled.
\<close>

section \<open>Responses\<close>

text \<open>
  A request fails, or there is a response with a status and a body; reading the body delivers
  bytes and then ends, normally (\<open>None\<close>) or with an error.
\<close>

datatype http_result = HttpFail string | HttpResp int "bytes \<times> string option"

datatype vm_err =
    VmRequest string
  | VmRead string
  | VmTooLarge
  | VmStatus int bytes

definition maxExportRespBytes :: nat where "maxExportRespBytes = 536870912"

definition vm_truncate :: "bytes \<Rightarrow> nat \<Rightarrow> bytes" where
  "vm_truncate s n = (if length s \<le> n then s else take n s @ str ''...'')"

definition ExportRange :: "(int \<Rightarrow> int \<Rightarrow> http_result) \<Rightarrow> int \<Rightarrow> int \<Rightarrow> vm_err + bytes" where
  "ExportRange srv start end =
     (case srv start end of
        HttpFail e \<Rightarrow> Inl (VmRequest e)
      | HttpResp status st \<Rightarrow>
          (case limitedReadAll (maxExportRespBytes + 1) st of
             Inl e \<Rightarrow> Inl (VmRead e)
           | Inr body \<Rightarrow>
               if length body > maxExportRespBytes then Inl VmTooLarge
               else if status \<noteq> 200 then Inl (VmStatus status (vm_truncate body 512))
               else Inr body))"

definition ExportHasData :: "(int \<Rightarrow> int \<Rightarrow> http_result) \<Rightarrow> int \<Rightarrow> int \<Rightarrow> vm_err + bool" where
  "ExportHasData srv start end =
     (case srv start end of
        HttpFail e \<Rightarrow> Inl (VmRequest e)
      | HttpResp status st \<Rightarrow>
          if status \<noteq> 200 then Inl (VmStatus status (vm_truncate (take 4096 (fst st)) 512))
          else if fst st \<noteq> [] then Inr True
          else (case snd st of
                  None \<Rightarrow> Inr False
                | Some e \<Rightarrow> if e = ''unexpected EOF'' then Inr False else Inl (VmRead e)))"

section \<open>The oldest data\<close>

text \<open>The loop of \<^verbatim>\<open>ProbeOldestData\<close>; \<open>has\<close> is the probe of \<open>[0, x)\<close>.\<close>

function probe_loop :: "(int \<Rightarrow> vm_err + bool) \<Rightarrow> int \<Rightarrow> int \<Rightarrow> vm_err + int" where
  "probe_loop has lo hi =
     (if hi - lo > 1 then
        (let mid = lo + quot (hi - lo) 2 in
         case has mid of
           Inl e \<Rightarrow> Inl e
         | Inr True \<Rightarrow> probe_loop has lo mid
         | Inr False \<Rightarrow> probe_loop has mid hi)
      else Inr lo)"
  by pat_completeness auto
termination
  by (relation "measure (\<lambda>(has, lo, hi). nat (hi - lo))") (auto simp: quot_nonneg)

declare probe_loop.simps [simp del]

definition ProbeOldestData :: "(int \<Rightarrow> int \<Rightarrow> http_result) \<Rightarrow> int \<Rightarrow> vm_err + int" where
  "ProbeOldestData srv now =
     (case ExportHasData srv 0 now of
        Inl e \<Rightarrow> Inl e
      | Inr False \<Rightarrow> Inr 0
      | Inr True \<Rightarrow> probe_loop (ExportHasData srv 0) 0 now)"

section \<open>Writing\<close>

datatype import_err = ImportHTTPError int bytes | ImportOther bytes

definition ImportWrite :: "(bytes \<Rightarrow> http_result) \<Rightarrow> bytes \<Rightarrow> import_err option" where
  "ImportWrite srv raw =
     (if length raw = 0 then None
      else case srv raw of
        HttpFail e \<Rightarrow> Some (ImportOther (str ''vm: import: '' @ str e))
      | HttpResp status st \<Rightarrow>
          if status \<noteq> 204 \<and> status \<noteq> 200 then Some (ImportHTTPError status (take 4096 (fst st)))
          else None)"

definition ForceFlush :: "http_result \<Rightarrow> vm_err option" where
  "ForceFlush res =
     (case res of
        HttpFail e \<Rightarrow> Some (VmRequest e)
      | HttpResp status st \<Rightarrow> if status \<noteq> 200 then Some (VmStatus status []) else None)"

section \<open>Time stamps\<close>

definition timestamps_key :: bytes where
  "timestamps_key = str ''\"timestamps\":[''"

definition lastTsInLine :: "bytes \<Rightarrow> int" where
  "lastTsInLine line =
     (case last_index_of timestamps_key line of
        None \<Rightarrow> 0
      | Some idx \<Rightarrow>
          let rest = drop (idx + length timestamps_key) line in
          (case index_of [93] rest of
             None \<Rightarrow> 0
           | Some end \<Rightarrow>
               let arr = take end rest;
                   tok = (case last_index_of [44] arr of Some l \<Rightarrow> drop (l + 1) arr | None \<Rightarrow> arr)
               in (case ParseInt (TrimSpace tok) of None \<Rightarrow> 0 | Some ts \<Rightarrow> ts)))"

fun max_ts :: "int \<Rightarrow> bytes list \<Rightarrow> int" where
  "max_ts m [] = m"
| "max_ts m (line # ls) =
     (if length line = 0 then max_ts m ls
      else let ts = lastTsInLine line in max_ts (if ts > m then ts else m) ls)"

definition LastSampleTimestamp :: "bytes \<Rightarrow> int" where
  "LastSampleTimestamp raw = max_ts 0 (split_byte newline raw)"

section \<open>The binary search\<close>

lemma quot_half: "1 < hi - lo \<Longrightarrow> lo < lo + quot (hi - lo) 2 \<and> lo + quot (hi - lo) 2 < hi" for lo hi :: int
  by (auto simp: quot_nonneg)

text \<open>
  Without failing probes the search ends at neighbouring bounds, the lower one without data
  before it (or where it started), the upper one with data before it.
\<close>

lemma probe_loop_brackets:
  assumes "lo < hi" and "\<forall>x. lo < x \<and> x < hi \<longrightarrow> \<not> isl (has x)"
  shows "\<exists>r. probe_loop has lo hi = Inr r \<and> lo \<le> r \<and> r < hi \<and>
    (r = lo \<or> has r = Inr False) \<and> (r + 1 = hi \<or> has (r + 1) = Inr True)"
  using assms
proof (induction has lo hi rule: probe_loop.induct)
  case (1 has lo hi)
  show ?case
  proof (cases "hi - lo > 1")
    case False
    then show ?thesis using "1.prems" by (auto simp: probe_loop.simps [of has lo hi])
  next
    case True
    let ?mid = "lo + quot (hi - lo) 2"
    note mid = quot_half [OF True]
    obtain b where b: "has ?mid = Inr b" using "1.prems"(2) mid by (cases "has ?mid") (auto dest!: spec [of _ ?mid])
    show ?thesis
    proof (cases b)
      case t: True
      then obtain r where "probe_loop has lo ?mid = Inr r \<and> lo \<le> r \<and> r < ?mid \<and>
          (r = lo \<or> has r = Inr False) \<and> (r + 1 = ?mid \<or> has (r + 1) = Inr True)"
        using "1.IH"(1) [OF True refl b [unfolded t]] "1.prems"(2) mid by force
      then show ?thesis using True b t mid by (auto simp: probe_loop.simps [of has lo hi] Let_def)
    next
      case f: False
      then obtain r where "probe_loop has ?mid hi = Inr r \<and> ?mid \<le> r \<and> r < hi \<and>
          (r = ?mid \<or> has r = Inr False) \<and> (r + 1 = hi \<or> has (r + 1) = Inr True)"
        using "1.IH"(2) [OF True refl b [unfolded f]] "1.prems"(2) mid by force
      then show ?thesis using True b f mid by (auto simp: probe_loop.simps [of has lo hi] Let_def)
    qed
  qed
qed

text \<open>An export server over a store of time-stamped samples, as the client sees it.\<close>

definition serves :: "(int \<Rightarrow> int \<Rightarrow> http_result) \<Rightarrow> int set \<Rightarrow> bool" where
  "serves srv ts \<longleftrightarrow> (\<forall>a b. \<exists>body. srv a b = HttpResp 200 (body, None) \<and>
     (body = [] \<longleftrightarrow> \<not> (\<exists>t\<in>ts. a \<le> t \<and> t < b)))"

lemma ExportHasData_serves:
  assumes "serves srv ts"
  shows "ExportHasData srv a b = Inr (\<exists>t\<in>ts. a \<le> t \<and> t < b)"
proof -
  obtain body where "srv a b = HttpResp 200 (body, None)" "(body = []) = (\<not> (\<exists>t\<in>ts. a \<le> t \<and> t < b))"
    using assms unfolding serves_def by blast
  then show ?thesis by (auto simp: ExportHasData_def)
qed

lemma probe_loop_oldest:
  assumes has: "\<And>x. lo < x \<Longrightarrow> x \<le> hi \<Longrightarrow> has x = Inr (old < x)" and "lo \<le> old" and "old < hi"
  shows "probe_loop has lo hi = Inr old"
proof -
  obtain r where r: "probe_loop has lo hi = Inr r" "lo \<le> r" "r < hi" "r = lo \<or> has r = Inr False"
    "r + 1 = hi \<or> has (r + 1) = Inr True"
    using probe_loop_brackets [of lo hi has] assms by auto
  have "r \<le> old" using r(2-4) has [of r] assms(2) by (cases "r = lo") auto
  moreover have "old < r + 1" using r(2,3,5) has [of "r + 1"] assms(3) by auto
  ultimately show ?thesis using r(1) by simp
qed

lemma ProbeOldestData_has:
  assumes "\<And>x. 0 < x \<Longrightarrow> x \<le> now \<Longrightarrow> ExportHasData srv 0 x = Inr (old < x)" and "0 \<le> old" and "old < now"
  shows "ProbeOldestData srv now = Inr old"
  using probe_loop_oldest [of 0 now "ExportHasData srv 0" old] assms by (simp add: ProbeOldestData_def)

lemma ProbeOldestData_finds:
  assumes "serves srv ts" and "old \<in> ts" and "\<forall>t\<in>ts. old \<le> t" and "0 \<le> old" and "old < now"
  shows "ProbeOldestData srv now = Inr old"
proof (rule ProbeOldestData_has [OF _ assms(4,5)])
  show "ExportHasData srv 0 x = Inr (old < x)" for x
    unfolding ExportHasData_serves [OF assms(1)] using assms(2-4) by force
qed

section \<open>Properties of the client\<close>

text \<open>
  An export is delivered only as a whole: success means the server answered 200, the body
  was read to its end and is within the size limit, and the result is all of it.
\<close>

theorem ExportRange_whole:
  "ExportRange srv start stop = Inr body \<longleftrightarrow>
    srv start stop = HttpResp 200 (body, None) \<and> length body \<le> maxExportRespBytes"
proof
  assume l: "ExportRange srv start stop = Inr body"
  then obtain status st where s: "srv start stop = HttpResp status st"
    and rd: "limitedReadAll (maxExportRespBytes + 1) st = Inr body"
    and le: "length body \<le> maxExportRespBytes" and ok: "status = 200"
    by (auto simp: ExportRange_def not_less split: http_result.splits sum.splits if_splits)
  show "srv start stop = HttpResp 200 (body, None) \<and> length body \<le> maxExportRespBytes"
    using s ok le limitedReadAll_Inr [OF rd le] by simp
next
  assume "srv start stop = HttpResp 200 (body, None) \<and> length body \<le> maxExportRespBytes"
  then show "ExportRange srv start stop = Inr body"
    using limitedReadAll_full [of body maxExportRespBytes] by (simp add: ExportRange_def)
qed

end
