(* ===== verification/Poller.thy ===== *)
theory Poller
  imports Complex_Main Wal_Contract Vm_Client
begin

text \<open>
  The poller, \<^verbatim>\<open>src/internal/sender/poller.go\<close>: windows of the source database are
  exported, cut into frames, appended to the WAL, and only then the cursor moves. Durations are
  nanoseconds, times of the cursor milliseconds, both as in the code. What a round meets (the
  clock at each reading, the answers of the source) is a record \<open>round\<close>; the result of a
  prefetch is in its slot. Cancellation, logging and metrics are not modelled.
\<close>

section \<open>Configuration and state\<close>

record PollerConfig =
  Interval :: int
  Window :: int
  Watermark :: int
  MaxWindow :: int
  FrameLines :: int
  FrameBytes :: int
  WindowTarget :: int
  ExportLag :: int
  Compression :: u8

definition DefaultExportVisibilityLag :: int where "DefaultExportVisibilityLag = 15000000000"
definition emptySkipMaxWindow :: int where "emptySkipMaxWindow = 3600000000000"
definition oversizeMinWindow :: int where "oversizeMinWindow = 1000000"

definition NewPoller :: "PollerConfig \<Rightarrow> PollerConfig" where
  "NewPoller c =
     (let wm = (if Watermark c \<le> 0 then 1000000000 else Watermark c);
          lag1 = (if ExportLag c < DefaultExportVisibilityLag then DefaultExportVisibilityLag else ExportLag c);
          lag = (if lag1 < wm then wm else lag1);
          fb = (if FrameBytes c \<le> 0 then 524288 else FrameBytes c)
      in \<lparr>Interval = (if Interval c \<le> 0 then 500000000 else Interval c),
          Window = (if Window c \<le> 0 then 5000000000 else Window c),
          Watermark = wm,
          MaxWindow = (if MaxWindow c \<le> 0 then 30000000000 else MaxWindow c),
          FrameLines = (if FrameLines c \<le> 0 then 5000 else FrameLines c),
          FrameBytes = fb,
          WindowTarget = (if WindowTarget c \<le> 0 then wrap64 (fb * 4) else WindowTarget c),
          ExportLag = lag,
          Compression = (if Compression c = 0 then TypeDataZstd else Compression c)\<rparr>)"

record prefetchSlot =
  slot_cursor :: int
  slot_end :: int
  slot_result :: "vm_err + bytes"

record poller =
  pwal :: wal
  underfillStreak :: int
  streakAllEmpty :: bool
  oversizeStreak :: int
  prefetch :: "prefetchSlot option"
  lastFlushWarn :: int

definition new_poller :: "wal \<Rightarrow> poller" where
  "new_poller w = \<lparr>pwal = w, underfillStreak = 0, streakAllEmpty = True, oversizeStreak = 0,
     prefetch = None, lastFlushWarn = 0\<rparr>"

text \<open>What one round meets.\<close>

record poll_round =
  rNow :: int
  rFlush :: http_result
  rWarnNow :: int
  rExport :: "int \<Rightarrow> int \<Rightarrow> http_result"
  rPreNow1 :: int
  rPreNow2 :: int
  rPreExport :: "int \<Rightarrow> int \<Rightarrow> http_result"
  rWalNow :: int

section \<open>Windows\<close>

definition ms :: "int \<Rightarrow> int" where
  "ms d = quot d 1000000"

fun shrink_loop :: "nat \<Rightarrow> int \<Rightarrow> int" where
  "shrink_loop 0 w = w"
| "shrink_loop (Suc k) w =
     (if w > oversizeMinWindow then
        let w' = quot w 2 in shrink_loop k (if w' < oversizeMinWindow then oversizeMinWindow else w')
      else w)"

fun grow_loop :: "nat \<Rightarrow> int \<Rightarrow> int \<Rightarrow> int" where
  "grow_loop 0 cap w = w"
| "grow_loop (Suc k) cap w = (if w < cap then grow_loop k cap (wrap64 (w * 2)) else w)"

definition windowSize :: "PollerConfig \<Rightarrow> poller \<Rightarrow> int" where
  "windowSize cfg p =
     (if oversizeStreak p > 0 then shrink_loop (nat (oversizeStreak p)) (Window cfg)
      else
        let cap = (if streakAllEmpty p then emptySkipMaxWindow else MaxWindow cfg);
            w = grow_loop (nat (underfillStreak p)) cap (Window cfg)
        in if w > cap then cap else w)"

definition windowEnd :: "PollerConfig \<Rightarrow> poller \<Rightarrow> int \<Rightarrow> int \<Rightarrow> bool \<Rightarrow> int" where
  "windowEnd cfg p cursor now flushOK =
     (let end0 = cursor + ms (windowSize cfg p);
          max0 = now - ms (Watermark cfg);
          lagEnd = now - ms (ExportLag cfg);
          maxEnd = (if \<not> flushOK \<and> lagEnd < max0 then lagEnd else max0);
          end1 = (if end0 > maxEnd then maxEnd else end0)
      in if underfillStreak p = 0 \<and> end1 - cursor > ms (MaxWindow cfg) then cursor + ms (MaxWindow cfg) else end1)"

definition flushSource :: "poll_round \<Rightarrow> poller \<Rightarrow> bool \<times> poller" where
  "flushSource e p =
     (case ForceFlush (rFlush e) of
        None \<Rightarrow> (True, p)
      | Some _ \<Rightarrow> (False, if rWarnNow e - lastFlushWarn p > 60000000000 then p\<lparr>lastFlushWarn := rWarnNow e\<rparr> else p))"

section \<open>Cutting an export into frames\<close>

text \<open>The local variables of \<^verbatim>\<open>splitFrames\<close> and its closure \<^verbatim>\<open>flush\<close>.\<close>

record splitting =
  sFrames :: "bytes list"
  sCur :: bytes
  sLines :: int

definition split_flush :: "splitting \<Rightarrow> splitting" where
  "split_flush s = (if length (sCur s) > 0
     then \<lparr>sFrames = sFrames s @ [sCur s], sCur = [], sLines = 0\<rparr> else s)"

definition split_add :: "int \<Rightarrow> bytes \<Rightarrow> splitting \<Rightarrow> splitting" where
  "split_add maxBytes line s =
     (let c1 = (if sLines s > 0 then sCur s @ [newline] else sCur s);
          s2 = s\<lparr>sCur := c1 @ line, sLines := sLines s + 1\<rparr>
      in if int (length (sCur s2)) > maxBytes then split_flush s2 else s2)"

definition split_line :: "int \<Rightarrow> int \<Rightarrow> bytes \<Rightarrow> splitting \<Rightarrow> splitting" where
  "split_line maxLines maxBytes line s =
     (if length line = 0 then s
      else
        split_add maxBytes line
          (if sLines s > 0 \<and> (sLines s \<ge> maxLines \<or> int (length (sCur s)) + int (length line) + 1 > maxBytes)
           then split_flush s else s))"

definition splitFrames :: "bytes \<Rightarrow> int \<Rightarrow> int \<Rightarrow> bytes list" where
  "splitFrames raw maxLines maxBytes =
     sFrames (split_flush (fold (split_line maxLines maxBytes) (split_byte newline raw)
       \<lparr>sFrames = [], sCur = [], sLines = 0\<rparr>))"

section \<open>One round\<close>

definition launchPrefetch :: "PollerConfig \<Rightarrow> poll_round \<Rightarrow> int \<Rightarrow> poller \<Rightarrow> poller" where
  "launchPrefetch cfg e cursor p =
     (if prefetch p \<noteq> None then p
      else
        let nw0 = windowSize cfg p;
            nw = (if underfillStreak p = 0 \<and> nw0 > MaxWindow cfg then MaxWindow cfg else nw0);
            ne0 = cursor + ms nw;
            maxEnd = rPreNow1 e - ms (Watermark cfg);
            ne = (if ne0 > maxEnd then maxEnd else ne0)
        in if rPreNow2 e - ne < ms (ExportLag cfg) then p
           else if ne \<le> cursor then p
           else p\<lparr>prefetch := Some \<lparr>slot_cursor = cursor, slot_end = ne,
                    slot_result = ExportRange (rPreExport e) cursor ne\<rparr>\<rparr>)"

text \<open>The export of the round: the prefetched result when it was made for this cursor.\<close>

definition fetch :: "poll_round \<Rightarrow> int \<Rightarrow> int \<Rightarrow> poller \<Rightarrow> (vm_err + bytes) \<times> int \<times> poller" where
  "fetch e cursor end p =
     (case prefetch p of
        None \<Rightarrow> (ExportRange (rExport e) cursor end, end, p)
      | Some slot \<Rightarrow>
          if slot_cursor slot = cursor then (slot_result slot, slot_end slot, p\<lparr>prefetch := None\<rparr>)
          else (ExportRange (rExport e) cursor end, end, p\<lparr>prefetch := None\<rparr>))"

definition noteDensity :: "PollerConfig \<Rightarrow> nat \<Rightarrow> bytes \<Rightarrow> poller \<Rightarrow> poller" where
  "noteDensity cfg nframes raw p =
     (if nframes = 0 then p\<lparr>underfillStreak := underfillStreak p + 1\<rparr>
      else if int (length raw) < WindowTarget cfg
      then p\<lparr>underfillStreak := underfillStreak p + 1, streakAllEmpty := False\<rparr>
      else p\<lparr>underfillStreak := 0, streakAllEmpty := True\<rparr>)"

definition moveCursor :: "poll_round \<Rightarrow> int \<Rightarrow> poller \<Rightarrow> poller" where
  "moveCursor e end p =
     (case SetCursor (rWalNow e) end (pwal p) of
        (Inl _, w) \<Rightarrow> p\<lparr>pwal := w, prefetch := None\<rparr>
      | (Inr _, w) \<Rightarrow> p\<lparr>pwal := w, oversizeStreak := 0\<rparr>)"

fun encodeAll :: "codec \<Rightarrow> u8 \<Rightarrow> bytes list \<Rightarrow> proto_err + bytes list" where
  "encodeAll cd typ [] = Inr []"
| "encodeAll cd typ (f # fs) =
     (case Encode cd typ 0 f of
        Inl e \<Rightarrow> Inl e
      | Inr fb \<Rightarrow> (case encodeAll cd typ fs of Inl e \<Rightarrow> Inl e | Inr fbs \<Rightarrow> Inr (fb # fbs)))"

definition is_too_large :: "proto_err \<Rightarrow> bool" where
  "is_too_large e = (case e of ErrTooLarge _ \<Rightarrow> True | _ \<Rightarrow> False)"

definition storeFrames :: "codec \<Rightarrow> PollerConfig \<Rightarrow> poll_round \<Rightarrow> int \<Rightarrow> bytes list \<Rightarrow> poller \<Rightarrow> poller" where
  "storeFrames cd cfg e end frames p =
     (case encodeAll cd (Compression cfg) frames of
        Inl err \<Rightarrow>
          (if is_too_large err then p\<lparr>oversizeStreak := oversizeStreak p + 1, prefetch := None\<rparr>
           else p\<lparr>prefetch := None\<rparr>)
      | Inr enc \<Rightarrow>
          (case AppendBatch (Compression cfg) enc (pwal p) of
             (Inl _, w) \<Rightarrow> p\<lparr>pwal := w, prefetch := None\<rparr>
           | (Inr _, w) \<Rightarrow> moveCursor e end (p\<lparr>pwal := w\<rparr>)))"

text \<open>The flush of the source when the window would end within the lag, and the window's end.\<close>

definition flushStep :: "PollerConfig \<Rightarrow> poll_round \<Rightarrow> poller \<Rightarrow> bool \<times> poller" where
  "flushStep cfg e p =
     (let rawEnd = Cursor (pwal p) + ms (windowSize cfg p)
      in if rawEnd > rNow e - ms (ExportLag cfg) then flushSource e p else (True, p))"

definition roundEnd :: "PollerConfig \<Rightarrow> poll_round \<Rightarrow> poller \<Rightarrow> int" where
  "roundEnd cfg e p =
     windowEnd cfg (snd (flushStep cfg e p)) (Cursor (pwal p)) (rNow e) (fst (flushStep cfg e p))"

definition pollOnce :: "codec \<Rightarrow> PollerConfig \<Rightarrow> poll_round \<Rightarrow> poller \<Rightarrow> poller" where
  "pollOnce cd cfg e p =
     (let cursor = Cursor (pwal p);
          p1 = snd (flushStep cfg e p);
          end0 = roundEnd cfg e p
      in if end0 \<le> cursor then p1
         else
           (case fetch e cursor end0 p1 of
              (Inl _, _, p2) \<Rightarrow> p2\<lparr>underfillStreak := 0, streakAllEmpty := True, oversizeStreak := 0\<rparr>
            | (Inr raw, end, p2) \<Rightarrow>
                let frames = splitFrames raw (FrameLines cfg) (FrameBytes cfg);
                    p3 = launchPrefetch cfg e end (noteDensity cfg (length frames) raw p2)
                in if frames = [] then moveCursor e end p3 else storeFrames cd cfg e end frames p3))"

section \<open>Backpressure\<close>

datatype bpState = bpNormal | bpDegraded | bpPaused

text \<open>The constants are the 64-bit floating point numbers next to 0.60 and 0.80.\<close>

definition bpYellowTrigger :: rat where "bpYellowTrigger = 5404319552844595 / 9007199254740992"
definition bpRedTrigger :: rat where "bpRedTrigger = 7205759403792794 / 9007199254740992"
definition bpGreenResume :: rat where "bpGreenResume = 5404319552844595 / 9007199254740992"

definition bpNext :: "rat \<Rightarrow> bpState \<Rightarrow> bpState" where
  "bpNext usage st =
     (case st of
        bpNormal \<Rightarrow> if usage \<ge> bpRedTrigger then bpPaused
                     else if usage \<ge> bpYellowTrigger then bpDegraded else bpNormal
      | bpDegraded \<Rightarrow> if usage \<ge> bpRedTrigger then bpPaused
                       else if usage < bpGreenResume then bpNormal else bpDegraded
      | bpPaused \<Rightarrow> if usage < bpGreenResume then bpNormal else bpPaused)"

text \<open>One tick of the loop, with the disk usage it reads.\<close>

definition tick :: "codec \<Rightarrow> PollerConfig \<Rightarrow> rat \<Rightarrow> poll_round \<Rightarrow> bpState \<times> poller \<Rightarrow> bpState \<times> poller" where
  "tick cd cfg usage e sp =
     (let st = bpNext usage (fst sp) in
      if st = bpPaused then (st, snd sp) else (st, pollOnce cd cfg e (snd sp)))"

end
