(* ===== verification/Poller_Safety.thy ===== *)
theory Poller_Safety
  imports Poller
begin

text \<open>
  What the poller guarantees: an export is cut into frames without losing, reordering or
  splitting a line and within the limits; the window sizes follow a closed form; the cursor
  moves over a window only when the WAL holds everything exported from it, and no window reaches
  into the part of the time line that exports may not show yet.
\<close>

section \<open>Frames hold the lines\<close>

lemma join_byte_snoc: "ls \<noteq> [] \<Longrightarrow> join_byte b (ls @ [l]) = join_byte b ls @ b # l"
proof (induction ls)
  case (Cons x xs)
  then show ?case by (cases xs) (simp_all add: join_byte_Cons)
qed simp

lemma join_byte_empty: "\<forall>l\<in>set ls. l \<noteq> [] \<Longrightarrow> join_byte b ls = [] \<longleftrightarrow> ls = []"
  by (induction b ls rule: join_byte.induct) auto

definition group_ok :: "int \<Rightarrow> int \<Rightarrow> bytes list \<Rightarrow> bool" where
  "group_ok ml mb g \<longleftrightarrow> g \<noteq> [] \<and> int (length g) \<le> max 1 ml \<and>
     (int (length (join_byte newline g)) \<le> mb \<or> length g = 1)"

definition splits :: "int \<Rightarrow> int \<Rightarrow> bytes list \<Rightarrow> splitting \<Rightarrow> bool" where
  "splits ml mb ls s \<longleftrightarrow> (\<exists>gs cur. sFrames s = map (join_byte newline) gs \<and> sCur s = join_byte newline cur \<and>
     sLines s = int (length cur) \<and> concat gs @ cur = ls \<and> (\<forall>g\<in>set gs. group_ok ml mb g) \<and>
     (cur \<noteq> [] \<longrightarrow> int (length cur) \<le> max 1 ml \<and> int (length (join_byte newline cur)) \<le> mb))"

lemma splits_flush:
  assumes "splits ml mb ls s" and "\<forall>l\<in>set ls. l \<noteq> []"
  shows "splits ml mb ls (split_flush s) \<and> sLines (split_flush s) = 0 \<and> sCur (split_flush s) = []"
proof -
  obtain gs cur where g: "sFrames s = map (join_byte newline) gs" "sCur s = join_byte newline cur"
    "sLines s = int (length cur)" "concat gs @ cur = ls" "\<forall>g\<in>set gs. group_ok ml mb g"
    "cur \<noteq> [] \<longrightarrow> int (length cur) \<le> max 1 ml \<and> int (length (join_byte newline cur)) \<le> mb"
    using assms(1) unfolding splits_def by blast
  show ?thesis
  proof (cases "cur = []")
    case True
    then show ?thesis using assms(1) g by (simp add: split_flush_def)
  next
    case False
    then have "sCur s \<noteq> []" using g(2,4) assms(2) join_byte_empty [of cur newline] by auto
    then have fl: "split_flush s = \<lparr>sFrames = sFrames s @ [sCur s], sCur = [], sLines = 0\<rparr>" by (simp add: split_flush_def)
    have "splits ml mb ls (split_flush s)"
      unfolding splits_def fl using g False by (intro exI [of _ "gs @ [cur]"] exI [of _ "[]"]) (auto simp: group_ok_def)
    then show ?thesis using fl by simp
  qed
qed

text \<open>Adding a line to the current frame, and closing it when the line alone exceeds the limit.\<close>

lemma splits_add:
  assumes sp: "splits ml mb ls s" and ne: "line \<noteq> []" and all: "\<forall>l\<in>set ls. l \<noteq> []"
    and room: "sLines s > 0 \<Longrightarrow> sLines s < ml \<and> int (length (sCur s)) + int (length line) + 1 \<le> mb"
  shows "splits ml mb (ls @ [line]) (split_add mb line s)"
proof -
  obtain gs cur where g: "sFrames s = map (join_byte newline) gs" "sCur s = join_byte newline cur"
    "sLines s = int (length cur)" "concat gs @ cur = ls" "\<forall>g\<in>set gs. group_ok ml mb g"
    "cur \<noteq> [] \<longrightarrow> int (length cur) \<le> max 1 ml \<and> int (length (join_byte newline cur)) \<le> mb"
    using sp unfolding splits_def by blast
  let ?s2 = "s\<lparr>sCur := (if sLines s > 0 then sCur s @ [newline] else sCur s) @ line, sLines := sLines s + 1\<rparr>"
  have c2: "sCur ?s2 = join_byte newline (cur @ [line])" using g(2,3) by (cases "cur = []") (simp_all add: join_byte_snoc)
  have len: "int (length (cur @ [line])) \<le> max 1 ml" using room g(3) by (cases "cur = []") auto
  show ?thesis
  proof (cases "int (length (sCur ?s2)) > mb")
    case False
    then have "int (length (join_byte newline (cur @ [line]))) \<le> mb" unfolding c2 by simp
    then have "splits ml mb (ls @ [line]) ?s2" unfolding splits_def
      using g(1,3-5) c2 len by (intro exI [of _ gs] exI [of _ "cur @ [line]"]) auto
    then show ?thesis using False by (simp add: split_add_def Let_def)
  next
    case True
    then have "cur = []" using room g(2,3) by (cases "cur = []") auto
    then have fl: "split_flush ?s2 = \<lparr>sFrames = sFrames s @ [line], sCur = [], sLines = 0\<rparr>"
      using g(2,3) ne by (simp add: split_flush_def)
    have "group_ok ml mb [line]" by (simp add: group_ok_def)
    then have "splits ml mb (ls @ [line]) (split_flush ?s2)" unfolding splits_def fl
      using g \<open>cur = []\<close> by (intro exI [of _ "gs @ [[line]]"] exI [of _ "[]"]) auto
    then show ?thesis using True by (simp add: split_add_def Let_def)
  qed
qed

lemma splits_line:
  assumes sp: "splits ml mb ls s" and all: "\<forall>l\<in>set ls. l \<noteq> []"
  shows "splits ml mb (ls @ (if line = [] then [] else [line])) (split_line ml mb line s)"
proof (cases "line = []")
  case True
  then show ?thesis using sp by (simp add: split_line_def)
next
  case False
  let ?s1 = "if sLines s > 0 \<and> (sLines s \<ge> ml \<or> int (length (sCur s)) + int (length line) + 1 > mb)
    then split_flush s else s"
  have "splits ml mb ls ?s1" using sp splits_flush [OF sp all] by simp
  moreover have "sLines ?s1 < ml \<and> int (length (sCur ?s1)) + int (length line) + 1 \<le> mb" if "sLines ?s1 > 0"
    using that splits_flush [OF sp all] by (auto split: if_splits)
  ultimately show ?thesis using splits_add [of ml mb ls ?s1 line] False all by (simp add: split_line_def)
qed

lemma splits_fold:
  assumes "splits ml mb ls s" and "\<forall>l\<in>set ls. l \<noteq> []"
  shows "splits ml mb (ls @ filter (\<lambda>l. l \<noteq> []) lines) (fold (split_line ml mb) lines s)"
  using assms
proof (induction lines arbitrary: ls s)
  case Nil
  then show ?case by simp
next
  case (Cons l lines)
  have "splits ml mb ((ls @ (if l = [] then [] else [l])) @ filter (\<lambda>l. l \<noteq> []) lines)
      (fold (split_line ml mb) lines (split_line ml mb l s))"
    by (rule Cons.IH [OF splits_line [OF Cons.prems]]) (use Cons.prems in auto)
  then show ?case by (cases "l = []") simp_all
qed

lemma splitFrames_groups:
  "\<exists>gs. splitFrames raw ml mb = map (join_byte newline) gs \<and>
    concat gs = filter (\<lambda>l. l \<noteq> []) (split_byte newline raw) \<and> (\<forall>g\<in>set gs. group_ok ml mb g)"
proof -
  let ?ls = "filter (\<lambda>l. l \<noteq> []) (split_byte newline raw)"
  let ?s = "fold (split_line ml mb) (split_byte newline raw) \<lparr>sFrames = [], sCur = [], sLines = 0\<rparr>"
  have "splits ml mb [] \<lparr>sFrames = [], sCur = [], sLines = 0\<rparr>"
    unfolding splits_def by (intro exI [of _ "[]"]) simp
  from splits_fold [OF this] have "splits ml mb ?ls ?s" by simp
  from splits_flush [OF this] have f: "splits ml mb ?ls (split_flush ?s)" "sLines (split_flush ?s) = 0" by auto
  then obtain gs cur where "sFrames (split_flush ?s) = map (join_byte newline) gs" "cur = []"
    "concat gs @ cur = ?ls" "\<forall>g\<in>set gs. group_ok ml mb g" unfolding splits_def by auto
  then show ?thesis by (auto simp: splitFrames_def)
qed

lemma group_lines:
  assumes "concat gs = filter (\<lambda>l. l \<noteq> []) (split_byte newline raw)" and "g \<in> set gs" and "g \<noteq> []"
  shows "split_byte newline (join_byte newline g) = g"
proof -
  have "set g \<subseteq> set (split_byte newline raw)" using assms(1,2) by (metis UN_upper dual_order.trans filter_is_subset set_concat)
  then show ?thesis using split_join [OF assms(3), of newline] split_byte_lines by blast
qed

section \<open>Window sizes\<close>

lemma div_pow_le: "0 \<le> w \<Longrightarrow> w div 2 ^ k \<le> w" for w :: int
  using zdiv_mono2 [of w 1 "2 ^ k"] by simp

lemma shrink_loop_max:
  assumes "oversizeMinWindow \<le> w"
  shows "shrink_loop k w = max (w div 2 ^ k) oversizeMinWindow"
  using assms
proof (induction k arbitrary: w)
  case 0
  then show ?case by simp
next
  case (Suc k)
  have pos: "0 < w" using Suc.prems by (simp add: oversizeMinWindow_def)
  have q: "quot w 2 = w div 2" using pos by (simp add: quot_nonneg)
  have d: "w div 2 ^ Suc k = w div 2 div 2 ^ k" by (simp add: zdiv_zmult2_eq)
  show ?case
  proof (cases "w > oversizeMinWindow")
    case False
    then show ?thesis using Suc.prems div_pow_le [of w "Suc k"] pos by simp
  next
    case True
    show ?thesis
    proof (cases "w div 2 < oversizeMinWindow")
      case lt: True
      have "shrink_loop k oversizeMinWindow = oversizeMinWindow"
        using Suc.IH [of oversizeMinWindow] div_pow_le [of oversizeMinWindow k] by (simp add: oversizeMinWindow_def)
      moreover have "w div 2 div 2 ^ k \<le> w div 2" using pos by (intro div_pow_le) simp
      ultimately show ?thesis using lt True q d by (simp add: Let_def)
    next
      case ge: False
      then show ?thesis using Suc.IH [of "w div 2"] True q d by (simp add: Let_def)
    qed
  qed
qed

lemma grow_loop_min:
  assumes "0 < w" and "cap < 2 ^ 62"
  shows "min (grow_loop k cap w) cap = min (w * 2 ^ k) cap"
  using assms
proof (induction k arbitrary: w)
  case 0
  then show ?case by simp
next
  case (Suc k)
  show ?case
  proof (cases "w < cap")
    case True
    then have "wrap64 (w * 2) = w * 2" using Suc.prems by (simp add: wrap64_id in_i64_def)
    then show ?thesis using Suc.IH [of "w * 2"] Suc.prems True by (simp add: mult.assoc)
  next
    case False
    have "(1 :: int) \<le> 2 ^ Suc k" by (rule one_le_power) simp
    then have "w * 1 \<le> w * 2 ^ Suc k" using Suc.prems(1) by (intro mult_left_mono) auto
    then show ?thesis using False by (simp add: min_absorb2)
  qed
qed

lemma windowSize_closed:
  assumes "oversizeMinWindow \<le> Window cfg" and "MaxWindow cfg < 2 ^ 62"
  shows "windowSize cfg p =
    (if oversizeStreak p > 0 then max (Window cfg div 2 ^ nat (oversizeStreak p)) oversizeMinWindow
     else min (Window cfg * 2 ^ nat (underfillStreak p)) (if streakAllEmpty p then emptySkipMaxWindow else MaxWindow cfg))"
proof -
  have pos: "0 < Window cfg" using assms(1) by (simp add: oversizeMinWindow_def)
  let ?cap = "if streakAllEmpty p then emptySkipMaxWindow else MaxWindow cfg"
  have "?cap < 2 ^ 62" using assms(2) by (simp add: emptySkipMaxWindow_def)
  note g = grow_loop_min [OF pos this, of "nat (underfillStreak p)"]
  have clip: "(if w > cap then cap else w) = min w cap" for w cap :: int by (simp add: min_def)
  show ?thesis
    unfolding windowSize_def Let_def clip g shrink_loop_max [OF assms(1)] ..
qed

lemma windowEnd_bounds:
  "windowEnd cfg p c now ok \<le> c + ms (windowSize cfg p)" "windowEnd cfg p c now ok \<le> now - ms (Watermark cfg)"
  "\<not> ok \<Longrightarrow> windowEnd cfg p c now ok \<le> now - ms (ExportLag cfg)"
  by (auto simp: windowEnd_def Let_def)

section \<open>Content of frames\<close>

definition carries :: "codec \<Rightarrow> bytes \<Rightarrow> bytes \<Rightarrow> bool" where
  "carries cd fb content \<longleftrightarrow> (\<exists>f. Decode fb = Inr f \<and> Decompress cd f = Inr content)"

lemma Encode_carries:
  assumes "Encode cd typ 0 ch = Inr fb" and "ch \<noteq> []" and "codec_roundtrip cd ch"
  shows "carries cd (rewriteSeq s fb) ch"
proof -
  have "typ \<noteq> TypeHeartbeat" using assms(1,2) by (auto simp: Encode_def)
  from Encode_decodes [OF assms(1) this assms(3)] obtain f where f: "Decode fb = Inr f" "Decompress cd f = Inr ch" by blast
  have "Decompress cd (f\<lparr>fSeq := s\<rparr>) = Decompress cd f" by (simp add: Decompress_def)
  then show ?thesis using Decode_rewriteSeq [OF f(1), of s] f(2) unfolding carries_def by force
qed

lemma encodeAll_carries:
  assumes "encodeAll cd typ chs = Inr enc" and "\<forall>ch\<in>set chs. ch \<noteq> [] \<and> codec_roundtrip cd ch"
  shows "\<forall>ch\<in>set chs. \<exists>x\<in>set (batch_frames s enc). carries cd (snd x) ch"
  using assms
proof (induction chs arbitrary: enc s)
  case Nil
  then show ?case by simp
next
  case (Cons c chs)
  then obtain fb fbs where enc: "Encode cd typ 0 c = Inr fb" "encodeAll cd typ chs = Inr fbs" "enc = fb # fbs"
    by (auto split: sum.splits)
  have "carries cd (rewriteSeq s fb) c" using Encode_carries [OF enc(1)] Cons.prems(2) by simp
  moreover have "\<forall>ch\<in>set chs. \<exists>x\<in>set (batch_frames (s + 1) fbs). carries cd (snd x) ch"
    by (rule Cons.IH [OF enc(2)]) (use Cons.prems(2) in simp)
  ultimately show ?case using enc(3) by auto
qed

text \<open>Every line of an export is in one of the frames.\<close>

definition holds_lines :: "codec \<Rightarrow> bytes \<Rightarrow> (u64 \<times> bytes) list \<Rightarrow> bool" where
  "holds_lines cd raw q \<longleftrightarrow> (\<forall>line\<in>set (split_byte newline raw). line \<noteq> [] \<longrightarrow>
     (\<exists>x\<in>set q. \<exists>content. carries cd (snd x) content \<and> line \<in> set (split_byte newline content)))"

lemma holds_lines_mono: "holds_lines cd raw q \<Longrightarrow> set q \<subseteq> set q' \<Longrightarrow> holds_lines cd raw q'"
  unfolding holds_lines_def by blast

lemma chunks_nonempty:
  assumes "ch \<in> set (splitFrames raw ml mb)"
  shows "ch \<noteq> []"
proof -
  obtain gs where g: "splitFrames raw ml mb = map (join_byte newline) gs"
    "concat gs = filter (\<lambda>l. l \<noteq> []) (split_byte newline raw)" "\<forall>g\<in>set gs. group_ok ml mb g"
    using splitFrames_groups by blast
  then obtain g where "g \<in> set gs" "ch = join_byte newline g" "g \<noteq> []" using assms by (auto simp: group_ok_def)
  moreover have "\<forall>l\<in>set g. l \<noteq> []"
  proof
    fix l assume "l \<in> set g"
    then have "l \<in> set (concat gs)" using \<open>g \<in> set gs\<close> by auto
    then show "l \<noteq> []" by (simp add: g(2))
  qed
  ultimately show ?thesis using join_byte_empty [of g newline] by simp
qed

lemma frames_hold_lines:
  assumes "\<forall>ch\<in>set (splitFrames raw ml mb). \<exists>x\<in>set q. carries cd (snd x) ch"
  shows "holds_lines cd raw q"
  unfolding holds_lines_def
proof (intro ballI impI)
  fix line assume l: "line \<in> set (split_byte newline raw)" "line \<noteq> []"
  obtain gs where g: "splitFrames raw ml mb = map (join_byte newline) gs"
    "concat gs = filter (\<lambda>l. l \<noteq> []) (split_byte newline raw)" "\<forall>g\<in>set gs. group_ok ml mb g"
    using splitFrames_groups by blast
  have "line \<in> set (concat gs)" using l g(2) by simp
  then obtain g' where g': "g' \<in> set gs" "line \<in> set g'" by auto
  then have "split_byte newline (join_byte newline g') = g'" using group_lines [OF g(2) g'(1)] g(3) by (simp add: group_ok_def)
  moreover have "\<exists>x\<in>set q. carries cd (snd x) (join_byte newline g')" using assms g(1) g'(1) by simp
  ultimately show "\<exists>x\<in>set q. \<exists>content. carries cd (snd x) content \<and> line \<in> set (split_byte newline content)"
    using g'(2) by metis
qed

section \<open>One round\<close>

text \<open>An export of \<open>[a, b)\<close> was asked for in one of the rounds and answered in full.\<close>

definition asked :: "poll_round set \<Rightarrow> int \<Rightarrow> int \<Rightarrow> bytes \<Rightarrow> bool" where
  "asked E a b raw \<longleftrightarrow> (\<exists>e\<in>E. ExportRange (rExport e) a b = Inr raw \<or> ExportRange (rPreExport e) a b = Inr raw)"

definition slot_ok :: "poll_round set \<Rightarrow> poller \<Rightarrow> bool" where
  "slot_ok E p \<longleftrightarrow> (\<forall>slot. prefetch p = Some slot \<longrightarrow> slot_cursor slot < slot_end slot \<and>
     (\<exists>e\<in>E. slot_result slot = ExportRange (rPreExport e) (slot_cursor slot) (slot_end slot)))"

lemma asked_mono: "asked E a b raw \<Longrightarrow> E \<subseteq> E' \<Longrightarrow> asked E' a b raw"
  unfolding asked_def by blast

lemma slot_ok_mono: "slot_ok E p \<Longrightarrow> E \<subseteq> E' \<Longrightarrow> slot_ok E' p"
  unfolding slot_ok_def by blast

lemma slot_ok_prefetch: "prefetch p' = prefetch p \<or> prefetch p' = None \<Longrightarrow> slot_ok E p \<Longrightarrow> slot_ok E p'"
  by (auto simp: slot_ok_def)

lemma flushSource_keeps:
  "pwal (snd (flushSource e p)) = pwal p" "prefetch (snd (flushSource e p)) = prefetch p"
  "underfillStreak (snd (flushSource e p)) = underfillStreak p" "fst (flushSource e p) \<longleftrightarrow> ForceFlush (rFlush e) = None"
  "windowSize cfg (snd (flushSource e p)) = windowSize cfg p"
  by (auto simp: flushSource_def windowSize_def split: option.split)

lemma fetch_result:
  assumes "fetch e c end0 p = (Inr raw, b, p2)" and "slot_ok E p" and "c < end0"
  shows "asked (insert e E) c b raw \<and> c < b \<and> pwal p2 = pwal p \<and> prefetch p2 = None"
proof (cases "prefetch p")
  case None
  then show ?thesis using assms by (auto simp: fetch_def asked_def)
next
  case (Some slot)
  then have "slot_cursor slot < slot_end slot"
    "\<exists>e'\<in>E. slot_result slot = ExportRange (rPreExport e') (slot_cursor slot) (slot_end slot)"
    using assms(2) by (auto simp: slot_ok_def)
  then show ?thesis using assms Some by (auto simp: fetch_def asked_def split: if_splits)
qed

lemma noteDensity_keeps: "pwal (noteDensity cfg n raw p) = pwal p" "prefetch (noteDensity cfg n raw p) = prefetch p"
  by (simp_all add: noteDensity_def)

lemma launchPrefetch_keeps: "pwal (launchPrefetch cfg e c p) = pwal p"
  by (simp add: launchPrefetch_def Let_def)

lemma launchPrefetch_slot:
  assumes "prefetch p = None"
  shows "slot_ok (insert e E) (launchPrefetch cfg e c p)"
    and "prefetch (launchPrefetch cfg e c p) = Some slot \<Longrightarrow> slot_end slot \<le> rPreNow2 e - ms (ExportLag cfg)"
  using assms by (auto simp: slot_ok_def launchPrefetch_def Let_def split: if_splits)

lemma moveCursor_result:
  "pending (pwal (moveCursor e b p)) = pending (pwal p)" "wal_inv (pwal (moveCursor e b p)) = wal_inv (pwal p)"
  "Cursor (pwal (moveCursor e b p)) = max (Cursor (pwal p)) b"
  "prefetch (moveCursor e b p) = prefetch p \<or> prefetch (moveCursor e b p) = None"
proof -
  obtain r w where sc: "SetCursor (rWalNow e) b (pwal p) = (r, w)" by fastforce
  note S = SetCursor_result [OF sc] meta_same_simps [of "(pwal p)\<lparr>cp := (cp (pwal p))\<lparr>CursorNs := b\<rparr>\<rparr>" w]
    meta_same_fields [of "(pwal p)\<lparr>cp := (cp (pwal p))\<lparr>CursorNs := b\<rparr>\<rparr>" w]
  have mv: "moveCursor e b p = (if isl r then p\<lparr>pwal := w, prefetch := None\<rparr> else p\<lparr>pwal := w, oversizeStreak := 0\<rparr>)"
    using sc by (cases r) (simp_all add: moveCursor_def)
  show "pending (pwal (moveCursor e b p)) = pending (pwal p)" "wal_inv (pwal (moveCursor e b p)) = wal_inv (pwal p)"
    "Cursor (pwal (moveCursor e b p)) = max (Cursor (pwal p)) b" using S by (auto simp: mv Cursor_def)
  show "prefetch (moveCursor e b p) = prefetch p \<or> prefetch (moveCursor e b p) = None" by (simp add: mv)
qed

text \<open>What a round may do to WAL and cursor.\<close>

definition advances :: "codec \<Rightarrow> poll_round set \<Rightarrow> poller \<Rightarrow> poller \<Rightarrow> bool" where
  "advances cd E p p' \<longleftrightarrow> wal_inv (pwal p') \<and> (\<exists>new. pending (pwal p') = pending (pwal p) @ new \<and>
     (Cursor (pwal p') = Cursor (pwal p) \<or>
      Cursor (pwal p) < Cursor (pwal p') \<and>
      (\<exists>raw. asked E (Cursor (pwal p)) (Cursor (pwal p')) raw \<and> holds_lines cd raw new)))"

lemma advances_same: "wal_inv (pwal p) \<Longrightarrow> pwal p' = pwal p \<Longrightarrow> advances cd E p p'"
  by (auto simp: advances_def)

lemma storeFrames_result:
  assumes inv: "wal_inv (pwal p)" and cl: "clean (pwal p)" and ask: "asked E (Cursor (pwal p)) b raw"
    and lt: "Cursor (pwal p) < b" and rt: "\<And>ch. codec_roundtrip cd ch"
  shows "advances cd E p (storeFrames cd cfg e b (splitFrames raw ml mb) p) \<and>
    (prefetch (storeFrames cd cfg e b (splitFrames raw ml mb) p) = prefetch p \<or>
     prefetch (storeFrames cd cfg e b (splitFrames raw ml mb) p) = None)"
proof (cases "encodeAll cd (Compression cfg) (splitFrames raw ml mb)")
  case (Inl err)
  then show ?thesis using advances_same [OF inv] by (simp add: storeFrames_def)
next
  case (Inr enc)
  obtain r w where ab: "AppendBatch (Compression cfg) enc (pwal p) = (r, w)" by fastforce
  note A = AppendBatch_result [OF inv ab]
  have ap: "wal_inv w" "\<exists>new. pending w = pending (pwal p) @ new" "Cursor w = Cursor (pwal p)"
    using wq.append_keeps [OF inv ab] appended_cp [of "pwal p" w] A by (auto simp: Cursor_def)
  show ?thesis
  proof (cases r)
    case (Inl err)
    then show ?thesis using \<open>encodeAll _ _ _ = _\<close> ab ap by (auto simp: storeFrames_def advances_def)
  next
    case r: (Inr seqs)
    have st: "storeFrames cd cfg e b (splitFrames raw ml mb) p = moveCursor e b (p\<lparr>pwal := w\<rparr>)"
      using Inr ab r by (simp add: storeFrames_def)
    have "pending w = pending (pwal p) @ batch_frames (NextSeq (cp (pwal p))) enc"
      using A r cl by (simp add: batch_done_def)
    moreover have "holds_lines cd raw (batch_frames (NextSeq (cp (pwal p))) enc)"
      by (rule frames_hold_lines, rule encodeAll_carries [OF Inr]) (use chunks_nonempty rt in blast)
    ultimately show ?thesis using moveCursor_result [of e b "p\<lparr>pwal := w\<rparr>"] ap ask lt
      by (auto simp: st advances_def)
  qed
qed

lemma moveCursor_empty:
  assumes "wal_inv (pwal p)" and "asked E (Cursor (pwal p)) b raw" and "Cursor (pwal p) < b"
    and "splitFrames raw ml mb = []"
  shows "advances cd E p (moveCursor e b p)"
proof -
  have "holds_lines cd raw []" by (rule frames_hold_lines [of raw ml mb]) (simp add: assms(4))
  then show ?thesis using moveCursor_result [of e b p] assms(1-3) by (auto simp: advances_def)
qed

lemma flushStep_keeps:
  "pwal (snd (flushStep cfg e p)) = pwal p" "prefetch (snd (flushStep cfg e p)) = prefetch p"
  "windowSize cfg (snd (flushStep cfg e p)) = windowSize cfg p"
  by (simp_all add: flushStep_def Let_def flushSource_keeps)

text \<open>A round leaves WAL and cursor alone, or has an export to store.\<close>

lemma pollOnce_cases:
  obtains (quiet) "pwal (pollOnce cd cfg e p) = pwal p"
      "prefetch (pollOnce cd cfg e p) = prefetch p \<or> prefetch (pollOnce cd cfg e p) = None"
  | (window) raw b p2 where "Cursor (pwal p) < roundEnd cfg e p"
      "fetch e (Cursor (pwal p)) (roundEnd cfg e p) (snd (flushStep cfg e p)) = (Inr raw, b, p2)"
      "pollOnce cd cfg e p =
        (let frames = splitFrames raw (FrameLines cfg) (FrameBytes cfg);
             p3 = launchPrefetch cfg e b (noteDensity cfg (length frames) raw p2)
         in if frames = [] then moveCursor e b p3 else storeFrames cd cfg e b frames p3)"
proof (cases "roundEnd cfg e p \<le> Cursor (pwal p)")
  case True
  then show ?thesis using quiet by (simp add: pollOnce_def Let_def flushStep_keeps)
next
  case False
  obtain r b p2 where f: "fetch e (Cursor (pwal p)) (roundEnd cfg e p) (snd (flushStep cfg e p)) = (r, b, p2)"
    by (metis prod_cases3)
  show ?thesis
  proof (cases r)
    case (Inl err)
    have "pwal p2 = pwal p" "prefetch p2 = prefetch p \<or> prefetch p2 = None"
      using f by (auto simp: fetch_def flushStep_keeps split: option.splits if_splits)
    then show ?thesis using quiet False f Inl by (simp add: pollOnce_def Let_def)
  next
    case (Inr raw)
    then show ?thesis using window False f by (simp add: pollOnce_def Let_def)
  qed
qed

lemma pollOnce_result:
  assumes inv: "wal_inv (pwal p)" and cl: "clean (pwal p)" and sl: "slot_ok E p"
    and rt: "\<And>ch. codec_roundtrip cd ch"
  shows "advances cd (insert e E) p (pollOnce cd cfg e p) \<and> slot_ok (insert e E) (pollOnce cd cfg e p)"
proof -
  have sl': "slot_ok (insert e E) p" using sl by (rule slot_ok_mono) auto
  show ?thesis
  proof (cases rule: pollOnce_cases [of cd cfg e p])
    case quiet
    then show ?thesis using advances_same [OF inv] slot_ok_prefetch [OF _ sl'] by simp
  next
    case (window raw b p2)
    let ?fr = "splitFrames raw (FrameLines cfg) (FrameBytes cfg)"
    let ?p3 = "launchPrefetch cfg e b (noteDensity cfg (length ?fr) raw p2)"
    have "slot_ok E (snd (flushStep cfg e p))" using sl by (rule slot_ok_prefetch [rotated]) (simp add: flushStep_keeps)
    then have F: "asked (insert e E) (Cursor (pwal p)) b raw" "Cursor (pwal p) < b" "pwal p2 = pwal p" "prefetch p2 = None"
      using fetch_result [OF window(2) _ window(1)] by (auto simp: flushStep_keeps)
    have p3: "pwal ?p3 = pwal p" "slot_ok (insert e E) ?p3"
      using F(3,4) launchPrefetch_slot(1) by (simp_all add: launchPrefetch_keeps noteDensity_keeps)
    have adv: "advances cd (insert e E) p t" if "advances cd (insert e E) ?p3 t" for t
      using that p3(1) by (simp add: advances_def)
    have "pollOnce cd cfg e p = (if ?fr = [] then moveCursor e b ?p3 else storeFrames cd cfg e b ?fr ?p3)"
      using window(3) by (simp add: Let_def)
    then show ?thesis
      using adv [OF moveCursor_empty [of ?p3 _ b raw "FrameLines cfg" "FrameBytes cfg"]]
        adv [OF storeFrames_result [THEN conjunct1, of ?p3 _ b raw]]
        storeFrames_result [THEN conjunct2, of ?p3 "insert e E" b raw cd cfg e "FrameLines cfg" "FrameBytes cfg"]
        moveCursor_result(4) [of e b ?p3] slot_ok_prefetch [OF _ p3(2)] p3(1) inv cl rt F(1,2) by auto
  qed
qed

section \<open>Runs\<close>

text \<open>
  Rounds of the poller with the sender's commits and changes of the disk's behaviour between
  them; \<open>q\<close> are all frames appended so far. A round starts with the WAL in step with its
  file, which holds as long as no write has failed half-way.
\<close>

inductive polled :: "codec \<Rightarrow> PollerConfig \<Rightarrow> poller \<Rightarrow> poll_round list \<Rightarrow> (u64 \<times> bytes) list \<Rightarrow> poller \<Rightarrow> bool"
  for cd cfg p0 where
  start: "polled cd cfg p0 [] [] p0"
| poll: "polled cd cfg p0 es q p \<Longrightarrow> clean (pwal p) \<Longrightarrow>
    pending (pwal (pollOnce cd cfg e p)) = pending (pwal p) @ new \<Longrightarrow>
    polled cd cfg p0 (es @ [e]) (q @ new) (pollOnce cd cfg e p)"
| commit: "polled cd cfg p0 es q p \<Longrightarrow> Commit now seq (pwal p) = (r, w) \<Longrightarrow>
    polled cd cfg p0 es q (p\<lparr>pwal := w\<rparr>)"
| device: "polled cd cfg p0 es q p \<Longrightarrow>
    polled cd cfg p0 es q (p\<lparr>pwal := (pwal p)\<lparr>dsk := (dsk (pwal p))\<lparr>outcomes := os\<rparr>\<rparr>\<rparr>)"

text \<open>Windows that follow each other without a gap.\<close>

fun tiles :: "int \<Rightarrow> (int \<times> int \<times> bytes) list \<Rightarrow> int \<Rightarrow> bool" where
  "tiles a [] z \<longleftrightarrow> a = z"
| "tiles a ((s, t, raw) # ws) z \<longleftrightarrow> s = a \<and> s < t \<and> tiles t ws z"

lemma tiles_snoc: "tiles a ws b \<Longrightarrow> b < c \<Longrightarrow> tiles a (ws @ [(b, c, raw)]) c"
  by (induction a ws b rule: tiles.induct) auto

definition covered :: "codec \<Rightarrow> int \<Rightarrow> poll_round list \<Rightarrow> (u64 \<times> bytes) list \<Rightarrow> int \<Rightarrow> bool" where
  "covered cd a es q z \<longleftrightarrow> (\<exists>ws. tiles a ws z \<and>
     (\<forall>(s, t, raw)\<in>set ws. asked (set es) s t raw \<and> holds_lines cd raw q))"

lemma covered_mono: "covered cd a es q z \<Longrightarrow> covered cd a (es @ es') (q @ q') z"
  unfolding covered_def
proof (elim exE conjE, intro exI conjI)
  fix ws assume t: "tiles a ws z" and w: "\<forall>(s, t, raw)\<in>set ws. asked (set es) s t raw \<and> holds_lines cd raw q"
  show "tiles a ws z" by (rule t)
  have "asked (set (es @ es')) s t raw \<and> holds_lines cd raw (q @ q')"
    if "asked (set es) s t raw \<and> holds_lines cd raw q" for s t raw
    using that asked_mono [of "set es" s t raw "set (es @ es')"] holds_lines_mono [of cd raw q "q @ q'"] by simp
  with w show "\<forall>(s, t, raw)\<in>set ws. asked (set (es @ es')) s t raw \<and> holds_lines cd raw (q @ q')" by blast
qed

lemma polled_covered:
  assumes "polled cd cfg p0 es q p" and "wal_inv (pwal p0)" and "prefetch p0 = None" and rt: "\<And>ch. codec_roundtrip cd ch"
  shows "wal_inv (pwal p) \<and> slot_ok (set es) p \<and> covered cd (Cursor (pwal p0)) es q (Cursor (pwal p))"
  using assms(1)
proof induction
  case start
  then show ?case using assms(2,3) by (auto simp: slot_ok_def covered_def intro: exI [of _ "[]"])
next
  case (poll es q p e new)
  let ?p' = "pollOnce cd cfg e p" and ?E = "set (es @ [e])"
  have "advances cd ?E p ?p'" "slot_ok ?E ?p'"
    using pollOnce_result [of p "set es" cd e cfg] poll rt by (auto simp: insert_commute)
  then obtain new' where n: "wal_inv (pwal ?p')" "pending (pwal ?p') = pending (pwal p) @ new'"
    "Cursor (pwal ?p') = Cursor (pwal p) \<or> Cursor (pwal p) < Cursor (pwal ?p') \<and>
      (\<exists>raw. asked ?E (Cursor (pwal p)) (Cursor (pwal ?p')) raw \<and> holds_lines cd raw new')"
    unfolding advances_def by blast
  have [simp]: "new' = new" using n(2) poll.hyps(3) by simp
  have old: "covered cd (Cursor (pwal p0)) (es @ [e]) (q @ new) (Cursor (pwal p))" using poll.IH covered_mono by blast
  have "covered cd (Cursor (pwal p0)) (es @ [e]) (q @ new) (Cursor (pwal ?p'))"
    using n(3)
  proof (elim disjE conjE exE)
    fix raw assume lt: "Cursor (pwal p) < Cursor (pwal ?p')" and r: "asked ?E (Cursor (pwal p)) (Cursor (pwal ?p')) raw"
      "holds_lines cd raw new'"
    obtain ws where ws: "tiles (Cursor (pwal p0)) ws (Cursor (pwal p))"
      "\<forall>(s, t, raw)\<in>set ws. asked ?E s t raw \<and> holds_lines cd raw (q @ new)" using old unfolding covered_def by blast
    have "holds_lines cd raw (q @ new)" using r(2) by (rule holds_lines_mono) simp
    then show ?thesis unfolding covered_def using tiles_snoc [OF ws(1) lt, of raw] ws(2) r(1)
      by (intro exI [of _ "ws @ [(Cursor (pwal p), Cursor (pwal ?p'), raw)]"]) auto
  qed (use old in simp)
  then show ?case using n(1) \<open>slot_ok ?E ?p'\<close> by simp
next
  case (commit es q p now seq r w)
  have "wal_inv w" "Cursor w = Cursor (pwal p)"
    using commitLocked_result [of "pwal p" now seq r w] commit by (auto simp: Commit_def Cursor_def)
  then show ?case using commit by (simp add: slot_ok_def)
next
  case (device es q p os)
  then show ?case by (simp add: slot_ok_def Cursor_def)
qed

section \<open>Progress\<close>

lemma encodeAll_headers: "encodeAll cd typ chs = Inr enc \<Longrightarrow> \<forall>fb\<in>set enc. HeaderSize \<le> length fb"
proof (induction chs arbitrary: enc)
  case (Cons c chs)
  then obtain fb fbs where enc: "Encode cd typ 0 c = Inr fb" "encodeAll cd typ chs = Inr fbs" "enc = fb # fbs"
    by (auto split: sum.splits)
  have "HeaderSize \<le> length fb" using enc(1) by (auto simp: Encode_def split: if_splits sum.splits)
  then show ?case using Cons.IH [OF enc(2)] enc(3) by simp
qed simp

lemma ms_mono: "0 \<le> a \<Longrightarrow> a \<le> b \<Longrightarrow> ms a \<le> ms b"
  by (simp add: ms_def quot_nonneg zdiv_mono1)

lemma ms_pos: "oversizeMinWindow \<le> d \<Longrightarrow> 1 \<le> ms d"
  using ms_mono [of oversizeMinWindow d] by (simp add: oversizeMinWindow_def ms_def quot_nonneg)

lemma windowSize_min:
  assumes "oversizeMinWindow \<le> Window cfg" and "oversizeMinWindow \<le> MaxWindow cfg" and "MaxWindow cfg < 2 ^ 62"
  shows "oversizeMinWindow \<le> windowSize cfg p"
proof -
  have "(1 :: int) \<le> 2 ^ nat (underfillStreak p)" by (rule one_le_power) simp
  then have "Window cfg * 1 \<le> Window cfg * 2 ^ nat (underfillStreak p)"
    using assms(1) by (intro mult_left_mono) (auto simp: oversizeMinWindow_def)
  then have "oversizeMinWindow \<le> Window cfg * 2 ^ nat (underfillStreak p)" using assms(1) by linarith
  moreover have "oversizeMinWindow \<le> emptySkipMaxWindow" by (simp add: oversizeMinWindow_def emptySkipMaxWindow_def)
  ultimately show ?thesis using assms(2) unfolding windowSize_closed [OF assms(1,3)] by simp
qed

lemma roundEnd_ahead:
  assumes "oversizeMinWindow \<le> Window cfg" and "oversizeMinWindow \<le> MaxWindow cfg" and "MaxWindow cfg < 2 ^ 62"
    and "0 \<le> Watermark cfg" and "Watermark cfg \<le> ExportLag cfg" and "Cursor (pwal p) < rNow e - ms (ExportLag cfg)"
  shows "Cursor (pwal p) < roundEnd cfg e p"
  using ms_pos [OF windowSize_min [OF assms(1-3), of p]] ms_pos [OF assms(2)] ms_mono [OF assms(4,5)] assms(6)
  by (auto simp: roundEnd_def windowEnd_def Let_def flushStep_keeps)

lemma moveCursor_healthy:
  assumes "healthy (pwal p)" and "Cursor (pwal p) \<le> b"
  shows "healthy (pwal (moveCursor e b p))"
proof -
  let ?w = "(pwal p)\<lparr>cp := (cp (pwal p))\<lparr>CursorNs := b\<rparr>\<rparr>"
  have "healthy ?w" using assms(1) by (simp add: healthy_def calm_def clean_def split: handle.splits)
  then obtain w where "persistLocked (rWalNow e) ?w = (Inr (), w)" "healthy w" using persist_healthy(1) by blast
  then show ?thesis using assms(2) by (simp add: moveCursor_def SetCursor_def getE_def thenE_modify Cursor_def)
qed

lemma pollOnce_stores:
  assumes h: "healthy (pwal p)" and pf: "prefetch p = None" and lt: "Cursor (pwal p) < roundEnd cfg e p"
    and ex: "ExportRange (rExport e) (Cursor (pwal p)) (roundEnd cfg e p) = Inr raw"
    and en: "encodeAll cd (Compression cfg) (splitFrames raw (FrameLines cfg) (FrameBytes cfg)) = Inr enc"
  shows "Cursor (pwal (pollOnce cd cfg e p)) = roundEnd cfg e p \<and>
    pending (pwal (pollOnce cd cfg e p)) = pending (pwal p) @ batch_frames (NextSeq (cp (pwal p))) enc \<and>
    healthy (pwal (pollOnce cd cfg e p))"
proof -
  let ?b = "roundEnd cfg e p" and ?fr = "splitFrames raw (FrameLines cfg) (FrameBytes cfg)"
  let ?p3 = "launchPrefetch cfg e ?b (noteDensity cfg (length ?fr) raw (snd (flushStep cfg e p)))"
  have "pollOnce cd cfg e p = (if ?fr = [] then moveCursor e ?b ?p3 else storeFrames cd cfg e ?b ?fr ?p3)"
    using lt pf ex by (simp add: pollOnce_def Let_def fetch_def flushStep_keeps)
  moreover have p3: "pwal ?p3 = pwal p" by (simp add: launchPrefetch_keeps noteDensity_keeps flushStep_keeps)
  moreover obtain w where w: "AppendBatch (Compression cfg) enc (pwal p) =
      (Inr (seqs_from (NextSeq (cp (pwal p))) (length enc)), w)"
    "pending w = pending (pwal p) @ batch_frames (NextSeq (cp (pwal p))) enc" "healthy w"
    "cp w = (cp (pwal p))\<lparr>NextSeq := NextSeq (cp (pwal p)) + word_of_nat (length enc)\<rparr>"
    using AppendBatch_healthy [OF h encodeAll_headers [OF en]] by blast
  moreover have "enc = []" if "?fr = []" using that en by simp
  moreover have "Cursor w = Cursor (pwal p)" using w(4) by (simp add: Cursor_def)
  ultimately show ?thesis using moveCursor_result [of e ?b ?p3] moveCursor_result [of e ?b "?p3\<lparr>pwal := w\<rparr>"] lt en h
    moveCursor_healthy [of ?p3 ?b e] moveCursor_healthy [of "?p3\<lparr>pwal := w\<rparr>" ?b e]
    by (auto simp: storeFrames_def Cursor_def)
qed

section \<open>The visible part of the time line\<close>

lemma pollOnce_window:
  assumes inv: "wal_inv (pwal p)" and lt: "Cursor (pwal p) < Cursor (pwal (pollOnce cd cfg e p))"
  shows "Cursor (pwal (pollOnce cd cfg e p)) = roundEnd cfg e p \<or>
    (\<exists>slot. prefetch p = Some slot \<and> Cursor (pwal (pollOnce cd cfg e p)) = slot_end slot)"
proof (cases rule: pollOnce_cases [of cd cfg e p])
  case quiet
  then show ?thesis using lt by simp
next
  case (window raw b p2)
  let ?fr = "splitFrames raw (FrameLines cfg) (FrameBytes cfg)"
  let ?p3 = "launchPrefetch cfg e b (noteDensity cfg (length ?fr) raw p2)"
  have b: "b = roundEnd cfg e p \<or> (\<exists>slot. prefetch p = Some slot \<and> b = slot_end slot)" and p2: "pwal p2 = pwal p"
    using window(2) by (auto simp: fetch_def flushStep_keeps split: option.splits if_splits)
  have p3: "pwal ?p3 = pwal p" using p2 by (simp add: launchPrefetch_keeps noteDensity_keeps)
  have ap: "Cursor w = Cursor (pwal p)" if "AppendBatch ft enc (pwal p) = (r, w)" for ft enc r w
    using AppendBatch_result [OF inv that] appended_cp [of "pwal p" w] by (simp add: Cursor_def)
  have "Cursor (pwal (storeFrames cd cfg e b ?fr ?p3)) \<in> {Cursor (pwal p), max (Cursor (pwal p)) b}"
    using ap by (auto simp: storeFrames_def p3 moveCursor_result split: sum.splits prod.splits)
  then have "Cursor (pwal (pollOnce cd cfg e p)) \<in> {Cursor (pwal p), max (Cursor (pwal p)) b}"
    using window(3) moveCursor_result(3) [of e b ?p3] p3 by (auto simp: Let_def)
  then show ?thesis using b lt by (auto simp: max_def split: if_splits)
qed

lemma roundEnd_visible:
  "roundEnd cfg e p \<le> rNow e - ms (ExportLag cfg) \<or>
    ForceFlush (rFlush e) = None \<and> roundEnd cfg e p \<le> rNow e - ms (Watermark cfg)"
proof (cases "Cursor (pwal p) + ms (windowSize cfg p) > rNow e - ms (ExportLag cfg)")
  case True
  then have fl: "flushStep cfg e p = flushSource e p" by (simp add: flushStep_def)
  show ?thesis
    using windowEnd_bounds(2,3) flushSource_keeps(4) [of e p] unfolding roundEnd_def fl
    by (cases "fst (flushSource e p)") auto
next
  case False
  then have "flushStep cfg e p = (True, p)" by (simp add: flushStep_def)
  then show ?thesis using windowEnd_bounds(1) [of cfg p "Cursor (pwal p)" "rNow e" True] False by (simp add: roundEnd_def)
qed

section \<open>A small round\<close>

definition demo_pcfg :: PollerConfig where
  "demo_pcfg = NewPoller \<lparr>Interval = 0, Window = 0, Watermark = 0, MaxWindow = 0, FrameLines = 0, FrameBytes = 0,
     WindowTarget = 0, ExportLag = 0, Compression = 0\<rparr>"

definition demo_round :: poll_round where
  "demo_round = \<lparr>rNow = 100000, rFlush = HttpResp 200 ([], None), rWarnNow = 0,
     rExport = (\<lambda>a b. HttpResp 200 ([97, 10], None)), rPreNow1 = 100000, rPreNow2 = 100000,
     rPreExport = (\<lambda>a b. HttpResp 200 ([97, 10], None)), rWalNow = 0\<rparr>"

lemma demo_pcfg_fields: "Window demo_pcfg = 5000000000" "MaxWindow demo_pcfg = 30000000000" "Watermark demo_pcfg = 1000000000"
  "ExportLag demo_pcfg = 15000000000" "FrameLines demo_pcfg = 5000" "FrameBytes demo_pcfg = 524288"
  "Compression demo_pcfg = TypeDataZstd"
  by (simp_all add: demo_pcfg_def NewPoller_def DefaultExportVisibilityLag_def Let_def)

lemma demo_split: "splitFrames [97, 10] 5000 524288 = [[97]]"
  by (simp add: splitFrames_def split_line_def split_add_def split_flush_def newline_def)

lemma demo_encode: "encodeAll stored_codec TypeDataZstd [[97]] = Inr [encodeRaw TypeDataZstd 0 [97] (ChecksumIEEE [97])]"
  using Encode_stored [of TypeDataZstd "[97]" 0] by (simp add: frame_consts)

lemma demo_cursor: "Cursor (pwal (new_poller small_wal)) = 0" "healthy (pwal (new_poller small_wal))"
  "prefetch (new_poller small_wal) = None" "wal_inv (pwal (new_poller small_wal))" "clean (pwal (new_poller small_wal))"
  using small_wal_healthy by (simp_all add: new_poller_def Cursor_def small_wal_cp small_wal_inv healthy_def)

lemma demo_ms: "ms 5000000000 = 5000" "ms 30000000000 = 30000" "ms 1000000000 = 1000" "ms 15000000000 = 15000"
  by (simp_all add: ms_def quot_def)

lemma demo_window: "windowSize demo_pcfg (new_poller w) = 5000000000"
  by (simp add: windowSize_def new_poller_def demo_pcfg_fields emptySkipMaxWindow_def)

lemma demo_roundEnd:
  assumes "Cursor w = 0"
  shows "roundEnd demo_pcfg demo_round (new_poller w) = 5000"
proof -
  have cur: "Cursor (pwal (new_poller w)) = 0" using assms by (simp add: new_poller_def)
  have now: "rNow demo_round = 100000" by (simp add: demo_round_def)
  have "flushStep demo_pcfg demo_round (new_poller w) = (True, new_poller w)"
    by (simp add: flushStep_def cur demo_window demo_ms demo_pcfg_fields now)
  then show ?thesis by (simp add: roundEnd_def windowEnd_def cur demo_window demo_ms demo_pcfg_fields now)
qed

lemma demo_export: "ExportRange (rExport demo_round) a b = Inr [97, 10]" "ExportRange (rPreExport demo_round) a b = Inr [97, 10]"
  by (simp_all add: ExportRange_def demo_round_def limitedReadAll_def maxExportRespBytes_def)

lemma demo_encoded: "encodeAll stored_codec (Compression demo_pcfg)
    (splitFrames [97, 10] (FrameLines demo_pcfg) (FrameBytes demo_pcfg)) =
  Inr [encodeRaw TypeDataZstd 0 [97] (ChecksumIEEE [97])]"
  unfolding demo_pcfg_fields demo_split by (rule demo_encode)

lemma demo_poll_from:
  assumes "healthy w" and "Cursor w = 0"
  shows "Cursor (pwal (pollOnce stored_codec demo_pcfg demo_round (new_poller w))) = 5000"
    and "pending (pwal (pollOnce stored_codec demo_pcfg demo_round (new_poller w))) =
      pending w @ batch_frames (NextSeq (cp w)) [encodeRaw TypeDataZstd 0 [97] (ChecksumIEEE [97])]"
    and "healthy (pwal (pollOnce stored_codec demo_pcfg demo_round (new_poller w)))"
proof -
  have p: "healthy (pwal (new_poller w))" "prefetch (new_poller w) = None" "pwal (new_poller w) = w"
    using assms(1) by (simp_all add: new_poller_def)
  have "Cursor (pwal (new_poller w)) < roundEnd demo_pcfg demo_round (new_poller w)"
    using assms(2) by (simp add: p(3) demo_roundEnd)
  note S = pollOnce_stores [OF p(1,2) this demo_export(1) demo_encoded]
  show "Cursor (pwal (pollOnce stored_codec demo_pcfg demo_round (new_poller w))) = 5000"
    "pending (pwal (pollOnce stored_codec demo_pcfg demo_round (new_poller w))) =
      pending w @ batch_frames (NextSeq (cp w)) [encodeRaw TypeDataZstd 0 [97] (ChecksumIEEE [97])]"
    "healthy (pwal (pollOnce stored_codec demo_pcfg demo_round (new_poller w)))"
    using S demo_roundEnd [OF assms(2)] p(3) by simp_all
qed

lemma demo_poll:
  "Cursor (pwal (pollOnce stored_codec demo_pcfg demo_round (new_poller small_wal))) = 5000"
  "\<exists>new. pending (pwal (pollOnce stored_codec demo_pcfg demo_round (new_poller small_wal))) =
     pending (pwal (new_poller small_wal)) @ new"
proof -
  have "Cursor small_wal = 0" by (simp add: Cursor_def small_wal_cp)
  note D = demo_poll_from [OF small_wal_healthy this]
  show "Cursor (pwal (pollOnce stored_codec demo_pcfg demo_round (new_poller small_wal))) = 5000" by (rule D(1))
  show "\<exists>new. pending (pwal (pollOnce stored_codec demo_pcfg demo_round (new_poller small_wal))) =
     pending (pwal (new_poller small_wal)) @ new" using D(2) by (simp add: new_poller_def)
qed

section \<open>Properties of the poller\<close>



text \<open>
  C14: The cursor stays in the visible part of the time line: a round moves it at most to the
  export lag before the present, or, after a successful flush of the source, to the
  watermark; a prefetch is only started for windows that end before the lag.
\<close>

theorem poller_visible:
  assumes "wal_inv (pwal p)" and "\<forall>slot. prefetch p = Some slot \<longrightarrow> slot_end slot \<le> rNow e - ms (ExportLag cfg)"
  shows "(Cursor (pwal p) < Cursor (pwal (pollOnce cd cfg e p)) \<longrightarrow>
      Cursor (pwal (pollOnce cd cfg e p)) \<le> rNow e - ms (ExportLag cfg) \<or>
      ForceFlush (rFlush e) = None \<and> Cursor (pwal (pollOnce cd cfg e p)) \<le> rNow e - ms (Watermark cfg)) \<and>
    (\<forall>slot. prefetch (launchPrefetch cfg e c (p\<lparr>prefetch := None\<rparr>)) = Some slot \<longrightarrow>
      slot_end slot \<le> rPreNow2 e - ms (ExportLag cfg))"
  using pollOnce_window [OF assms(1), of cd cfg e] assms(2) roundEnd_visible [of cfg e p]
    launchPrefetch_slot(2) [of "p\<lparr>prefetch := None\<rparr>" cfg e c] by fastforce

theorem poller_visible_witness:
  "Cursor (pwal (pollOnce stored_codec demo_pcfg demo_round (new_poller small_wal))) \<le> 100000 - 1000"
proof -
  have "ms (ExportLag demo_pcfg) = 15000" "ms (Watermark demo_pcfg) = 1000" "rNow demo_round = 100000"
    by (simp_all add: demo_ms demo_pcfg_fields demo_round_def)
  with poller_visible [OF demo_cursor(4), of demo_round demo_pcfg stored_codec 0] show ?thesis
    by (auto simp: demo_cursor(1,3) demo_poll(1))
qed

text \<open>
  C15: The poller makes progress: when the cursor is behind the export lag, the disk works and
  the export succeeds and can be framed, the round appends all frames of the window behind
  the pending ones and moves the cursor strictly ahead, to the window's end.
\<close>

theorem poller_progress:
  assumes "oversizeMinWindow \<le> Window cfg" and "oversizeMinWindow \<le> MaxWindow cfg" and "MaxWindow cfg < 2 ^ 62"
    and "0 \<le> Watermark cfg" and "Watermark cfg \<le> ExportLag cfg" and "Cursor (pwal p) < rNow e - ms (ExportLag cfg)"
    and "healthy (pwal p)" and "prefetch p = None"
    and "ExportRange (rExport e) (Cursor (pwal p)) (roundEnd cfg e p) = Inr raw"
    and "encodeAll cd (Compression cfg) (splitFrames raw (FrameLines cfg) (FrameBytes cfg)) = Inr enc"
  shows "Cursor (pwal p) < roundEnd cfg e p \<and> Cursor (pwal (pollOnce cd cfg e p)) = roundEnd cfg e p \<and>
    pending (pwal (pollOnce cd cfg e p)) = pending (pwal p) @ batch_frames (NextSeq (cp (pwal p))) enc"
  using roundEnd_ahead [OF assms(1-6)] pollOnce_stores [OF assms(7,8) _ assms(9,10)] by blast

theorem poller_progress_witness:
  "0 < Cursor (pwal (pollOnce stored_codec demo_pcfg demo_round (new_poller small_wal)))"
proof -
  have "Cursor (pwal (new_poller small_wal)) < rNow demo_round - ms (ExportLag demo_pcfg)"
    by (simp add: demo_cursor(1) demo_round_def demo_ms demo_pcfg_fields)
  from poller_progress [OF _ _ _ _ _ this demo_cursor(2,3) demo_export(1) demo_encoded] show ?thesis
    by (simp add: demo_pcfg_fields oversizeMinWindow_def demo_cursor(1))
qed

text \<open>
  C23: Cutting an export into frames keeps every non-empty line, whole and in order: the frames
  are consecutive groups of lines joined by newlines. A frame has no more lines than the limit and
  no more bytes than the limit, unless it is a single line that is too long by itself.
\<close>

theorem splitFrames_lossless:
  "\<exists>gs. splitFrames raw maxLines maxBytes = map (join_byte newline) gs \<and>
    concat gs = filter (\<lambda>l. l \<noteq> []) (split_byte newline raw) \<and>
    (\<forall>g \<in> set gs. g \<noteq> [] \<and> int (length g) \<le> max 1 maxLines \<and>
       (int (length (join_byte newline g)) \<le> maxBytes \<or> length g = 1))"
  using splitFrames_groups [of raw maxLines maxBytes] by (simp add: group_ok_def)

theorem splitFrames_lossless_witness:
  "\<exists>gs. splitFrames [97, 10, 98, 10, 10, 99] 2 100 = map (join_byte newline) gs \<and> concat gs = [[97], [98], [99]]"
  using splitFrames_lossless [of "[97, 10, 98, 10, 10, 99]" 2 100] by (auto simp: newline_def)

text \<open>
  C29: The loops of the window size compute a closed form: after rounds with oversized lines the
  base window halved per round, down to one millisecond; otherwise the base window doubled per
  sparse round, up to an hour over empty time and up to the maximal window over sparse data.
\<close>

theorem windowSize_exact:
  assumes "oversizeMinWindow \<le> Window cfg" and "MaxWindow cfg < 2 ^ 62"
  shows "windowSize cfg p =
    (if oversizeStreak p > 0 then max (Window cfg div 2 ^ nat (oversizeStreak p)) oversizeMinWindow
     else min (Window cfg * 2 ^ nat (underfillStreak p)) (if streakAllEmpty p then emptySkipMaxWindow else MaxWindow cfg))"
  using assms by (rule windowSize_closed)

theorem windowSize_exact_witness:
  "windowSize demo_pcfg ((new_poller small_wal)\<lparr>underfillStreak := 4\<rparr>) = 80000000000 \<and>
   windowSize demo_pcfg ((new_poller small_wal)\<lparr>underfillStreak := 100\<rparr>) = 3600000000000 \<and>
   windowSize demo_pcfg ((new_poller small_wal)\<lparr>oversizeStreak := 20\<rparr>) = 1000000"
proof -
  have "oversizeMinWindow \<le> Window demo_pcfg" "MaxWindow demo_pcfg < 2 ^ 62"
    by (simp_all add: demo_pcfg_fields oversizeMinWindow_def)
  note W = windowSize_exact [OF this]
  show ?thesis unfolding W by (simp add: new_poller_def demo_pcfg_fields oversizeMinWindow_def emptySkipMaxWindow_def)
qed

text \<open>
  Backpressure: at the red mark the poller pauses from every state and the round is left
  out, so neither WAL nor cursor changes; a paused poller stays paused for as long as the usage
  does not fall below the green mark, and below it every state returns to normal.
\<close>

theorem backpressure_hysteresis:
  "(usage \<ge> bpRedTrigger \<longrightarrow> tick cd cfg usage e (st, p) = (bpPaused, p)) \<and>
   (usage < bpGreenResume \<longrightarrow> bpNext usage st = bpNormal) \<and>
   ((\<forall>u\<in>set us. bpGreenResume \<le> u) \<longrightarrow> fold bpNext us bpPaused = bpPaused)"
proof (intro conjI impI)
  show "tick cd cfg usage e (st, p) = (bpPaused, p)" if "bpRedTrigger \<le> usage"
    using that by (cases st) (auto simp: tick_def bpNext_def Let_def bpRedTrigger_def bpGreenResume_def)
  show "bpNext usage st = bpNormal" if "usage < bpGreenResume"
    using that by (cases st) (auto simp: bpNext_def bpRedTrigger_def bpGreenResume_def bpYellowTrigger_def)
  show "fold bpNext us bpPaused = bpPaused" if "\<forall>u\<in>set us. bpGreenResume \<le> u"
    using that by (induction us) (simp_all add: bpNext_def not_less)
qed

theorem backpressure_hysteresis_witness:
  "fst (tick stored_codec demo_pcfg (9 / 10) demo_round (bpNormal, new_poller small_wal)) = bpPaused \<and>
   fold bpNext [7 / 10, 3 / 4] bpPaused = bpPaused \<and> bpNext (1 / 2) bpPaused = bpNormal"
proof -
  have "(9 / 10 :: rat) \<ge> bpRedTrigger" "(1 / 2 :: rat) < bpGreenResume" "\<forall>u\<in>set [7 / 10, 3 / 4]. bpGreenResume \<le> u"
    by (simp_all add: bpRedTrigger_def bpGreenResume_def)
  then show ?thesis
    using backpressure_hysteresis [of "9 / 10" stored_codec demo_pcfg demo_round bpNormal "new_poller small_wal" "[7 / 10, 3 / 4]"]
      backpressure_hysteresis [of "1 / 2" stored_codec demo_pcfg demo_round bpPaused "new_poller small_wal" "[]"] by simp
qed

end
