(* ===== verification/Pipeline.thy ===== *)
theory Pipeline
  imports Sender_Links Poller_Safety
begin

text \<open>
  The sending process as \<^verbatim>\<open>src/cmd/sender/main.go\<close> starts it: the poller and the sender
  on one WAL. A run interleaves rounds of the poller, iterations of the sender and any behaviour
  of network and disk; \<open>es\<close> are the rounds so far and \<open>q\<close> the frames they appended.
  A round starts with the WAL in step with its file, which holds as long as no write has failed
  half-way, and the sequence numbers are not used up.
\<close>

inductive synced :: "codec \<Rightarrow> PollerConfig \<Rightarrow> SenderConfig \<Rightarrow> poller \<Rightarrow> sender \<Rightarrow>
    poll_round list \<Rightarrow> (u64 \<times> bytes) list \<Rightarrow> poller \<Rightarrow> sender \<Rightarrow> bool" for cd pcfg cfg p0 s0 where
  start: "synced cd pcfg cfg p0 s0 [] [] p0 s0"
| poll: "synced cd pcfg cfg p0 s0 es q p s \<Longrightarrow> clean (swal s) \<Longrightarrow> p' = pollOnce cd pcfg e (p\<lparr>pwal := swal s\<rparr>) \<Longrightarrow>
    pending (pwal p') = pending (swal s) @ new \<Longrightarrow> unat (NextSeq (cp (swal s))) + length new < 2 ^ 64 \<Longrightarrow>
    synced cd pcfg cfg p0 s0 (es @ [e]) (q @ new) p' (s\<lparr>swal := pwal p'\<rparr>)"
| send: "synced cd pcfg cfg p0 s0 es q p s \<Longrightarrow> synced cd pcfg cfg p0 s0 es q p (runOnce fuel cd cfg now s)"
| network: "synced cd pcfg cfg p0 s0 es q p s \<Longrightarrow> synced cd pcfg cfg p0 s0 es q p (s\<lparr>net := evs\<rparr>)"
| device: "synced cd pcfg cfg p0 s0 es q p s \<Longrightarrow>
    synced cd pcfg cfg p0 s0 es q p (s\<lparr>swal := (swal s)\<lparr>dsk := (dsk (swal s))\<lparr>outcomes := os\<rparr>\<rparr>\<rparr>)"

section \<open>A round of the poller as steps of the sender's system\<close>

lemma moveCursor_step: "sstep cd cfg s (s\<lparr>swal := pwal (moveCursor e b (p\<lparr>pwal := swal s\<rparr>))\<rparr>)"
proof -
  obtain r w where sc: "SetCursor (rWalNow e) b (swal s) = (r, w)" by fastforce
  then have "pwal (moveCursor e b (p\<lparr>pwal := swal s\<rparr>)) = w" by (cases r) (simp_all add: moveCursor_def)
  then show ?thesis using sstep.cursor [OF sc] by simp
qed

lemma storeFrames_steps:
  assumes "pwal p = swal s" and "pending (pwal (storeFrames cd pcfg e b frames p)) = pending (swal s) @ new"
    and "unat (NextSeq (cp (swal s))) + length new < 2 ^ 64"
  shows "(sstep cd' cfg)\<^sup>*\<^sup>* s (s\<lparr>swal := pwal (storeFrames cd pcfg e b frames p)\<rparr>)"
proof (cases "encodeAll cd (Compression pcfg) frames")
  case (Inl err)
  then show ?thesis using assms(1) by (simp add: storeFrames_def)
next
  case (Inr enc)
  obtain r w where ap: "AppendBatch (Compression pcfg) enc (swal s) = (r, w)" by fastforce
  have out: "pwal (storeFrames cd pcfg e b frames p) = (if isl r then w else pwal (moveCursor e b (p\<lparr>pwal := w\<rparr>)))"
    using Inr ap assms(1) by (cases r) (simp_all add: storeFrames_def)
  have "pending w = pending (swal s) @ new" using assms(2) out by (simp add: moveCursor_result split: if_splits)
  then have st: "sstep cd' cfg s (s\<lparr>swal := w\<rparr>)" using assms(3) by (intro sstep.append [OF ap]) simp
  show ?thesis
  proof (cases "isl r")
    case True
    then show ?thesis using st out by simp
  next
    case False
    have "sstep cd' cfg (s\<lparr>swal := w\<rparr>) (s\<lparr>swal := pwal (moveCursor e b (p\<lparr>pwal := w\<rparr>))\<rparr>)"
      using moveCursor_step [of cd' cfg "s\<lparr>swal := w\<rparr>" e b p] by simp
    then show ?thesis using st out False by (simp add: rtranclp.rtrancl_into_rtrancl r_into_rtranclp)
  qed
qed

lemma pollOnce_steps:
  assumes "pwal p = swal s" and "pending (pwal (pollOnce cd pcfg e p)) = pending (swal s) @ new"
    and "unat (NextSeq (cp (swal s))) + length new < 2 ^ 64"
  shows "(sstep cd' cfg)\<^sup>*\<^sup>* s (s\<lparr>swal := pwal (pollOnce cd pcfg e p)\<rparr>)"
proof (cases rule: pollOnce_cases [of cd pcfg e p])
  case quiet
  then show ?thesis using assms(1) by simp
next
  case (window raw b p2)
  let ?fr = "splitFrames raw (FrameLines pcfg) (FrameBytes pcfg)"
  let ?p3 = "launchPrefetch pcfg e b (noteDensity pcfg (length ?fr) raw p2)"
  have "pwal p2 = pwal p" using window(2) by (auto simp: fetch_def flushStep_keeps split: option.splits if_splits)
  then have p3: "pwal ?p3 = swal s" using assms(1) by (simp add: launchPrefetch_keeps noteDensity_keeps)
  show ?thesis
  proof (cases "?fr = []")
    case True
    have "?p3\<lparr>pwal := swal s\<rparr> = ?p3" using p3 by simp
    then show ?thesis using True window(3) moveCursor_step [of cd' cfg s e b ?p3] by (simp add: Let_def r_into_rtranclp)
  next
    case False
    then have "pollOnce cd pcfg e p = storeFrames cd pcfg e b ?fr ?p3" using window(3) by (simp add: Let_def)
    then show ?thesis using storeFrames_steps [OF p3, of cd pcfg e b ?fr new cd' cfg] assms(2,3) by simp
  qed
qed

section \<open>The invariant of a run\<close>

definition run_inv :: "codec \<Rightarrow> sender \<Rightarrow> poll_round list \<Rightarrow> (u64 \<times> bytes) list \<Rightarrow> poller \<Rightarrow> sender \<Rightarrow> bool" where
  "run_inv cd s0 es q p s \<longleftrightarrow> sender_inv s \<and> links_ok s \<and> slot_ok (set es) p \<and>
     covered cd (Cursor (swal s0)) es q (Cursor (swal s)) \<and>
     (\<exists>gone. pending (swal s0) @ q = gone @ pending (swal s) \<and> (\<forall>x\<in>set gone. (snd x, AckSuccess) \<in> set (ackLog s)))"

lemma covered_window:
  assumes "covered cd a es q b" and "b < c" and "asked (set es) b c raw" and "holds_lines cd raw q"
  shows "covered cd a es q c"
proof -
  obtain ws where ws: "tiles a ws b" "\<forall>(s, t, raw)\<in>set ws. asked (set es) s t raw \<and> holds_lines cd raw q"
    using assms(1) unfolding covered_def by blast
  then show ?thesis unfolding covered_def using tiles_snoc [OF ws(1) assms(2), of raw] assms(3,4)
    by (intro exI [of _ "ws @ [(b, c, raw)]"]) auto
qed

lemma poll_inv:
  assumes inv: "run_inv cd s0 es q p s" and cl: "clean (swal s)" and rt: "\<And>ch. codec_roundtrip cd ch"
    and p': "p' = pollOnce cd pcfg e (p\<lparr>pwal := swal s\<rparr>)" and new: "pending (pwal p') = pending (swal s) @ new"
    and nw: "unat (NextSeq (cp (swal s))) + length new < 2 ^ 64"
  shows "run_inv cd s0 (es @ [e]) (q @ new) p' (s\<lparr>swal := pwal p'\<rparr>)"
proof -
  let ?p = "p\<lparr>pwal := swal s\<rparr>" and ?s' = "s\<lparr>swal := pwal p'\<rparr>" and ?E = "set (es @ [e])"
  have si: "sender_inv s" and lk: "links_ok s" and sl: "slot_ok (set es) ?p"
    and cov: "covered cd (Cursor (swal s0)) es q (Cursor (swal s))" using inv by (simp_all add: run_inv_def slot_ok_def)
  have st: "(sstep cd cfg)\<^sup>*\<^sup>* s ?s'" for cfg using pollOnce_steps [of ?p s cd pcfg e new] new nw p' by simp
  have "sender_inv ?s'" "links_ok ?s'" using steps_inv [OF st si] steps_links [OF st si lk] by simp_all
  moreover have adv: "advances cd ?E ?p p'" and "slot_ok ?E p'"
    using pollOnce_result [of ?p "set es" cd e pcfg] si cl sl rt p' by (auto simp: sender_inv_def insert_commute)
  moreover have "covered cd (Cursor (swal s0)) (es @ [e]) (q @ new) (Cursor (pwal p'))"
  proof -
    have old: "covered cd (Cursor (swal s0)) (es @ [e]) (q @ new) (Cursor (swal s))" by (rule covered_mono [OF cov])
    obtain new' where "pending (pwal p') = pending (swal s) @ new'"
      "Cursor (pwal p') = Cursor (swal s) \<or> Cursor (swal s) < Cursor (pwal p') \<and>
        (\<exists>raw. asked ?E (Cursor (swal s)) (Cursor (pwal p')) raw \<and> holds_lines cd raw new')"
      using adv unfolding advances_def by auto
    then consider "Cursor (pwal p') = Cursor (swal s)"
      | raw where "Cursor (swal s) < Cursor (pwal p')" "asked ?E (Cursor (swal s)) (Cursor (pwal p')) raw" "holds_lines cd raw (q @ new)"
      using new holds_lines_mono [of cd _ new "q @ new"] by auto
    then show ?thesis using old covered_window [OF old] by cases simp_all
  qed
  ultimately show ?thesis using inv new by (auto simp: run_inv_def)
qed

lemma send_inv:
  assumes inv: "run_inv cd s0 es q p s"
  shows "run_inv cd s0 es q p (runOnce fuel cd' cfg now s)"
proof -
  let ?s' = "runOnce fuel cd' cfg now s"
  have si: "sender_inv s" and lk: "links_ok s" using inv by (simp_all add: run_inv_def)
  obtain g where g: "pending (swal s0) @ q = g @ pending (swal s)" "\<forall>x\<in>set g. (snd x, AckSuccess) \<in> set (ackLog s)"
    using inv by (auto simp: run_inv_def)
  obtain g' l where d: "pending (swal s) = g' @ pending (swal ?s')" "\<forall>x\<in>set g'. (snd x, AckSuccess) \<in> set (ackLog ?s')"
    "ackLog ?s' = ackLog s @ l" "Cursor (swal ?s') = Cursor (swal s)" using runOnce_result [OF si] unfolding drains_def by blast
  have "sender_inv ?s'" "links_ok ?s'" using runOnce_result [OF si] runOnce_links [OF lk si] by simp_all
  moreover have "pending (swal s0) @ q = (g @ g') @ pending (swal ?s')" "\<forall>x\<in>set (g @ g'). (snd x, AckSuccess) \<in> set (ackLog ?s')"
    using g d by auto
  ultimately show ?thesis using inv d(4) unfolding run_inv_def by metis
qed

lemma synced_inv:
  assumes "synced cd pcfg cfg p0 s0 es q p s" and "sender_inv s0" and "links_ok s0" and "prefetch p0 = None"
    and rt: "\<And>ch. codec_roundtrip cd ch"
  shows "run_inv cd s0 es q p s"
  using assms(1)
proof induction
  case start
  have "covered cd (Cursor (swal s0)) [] [] (Cursor (swal s0))" by (auto simp: covered_def intro: exI [of _ "[]"])
  then show ?case using assms(2-4) by (auto simp: run_inv_def slot_ok_def intro: exI [of _ "[]"])
next
  case (poll es q p s p' e new)
  then show ?case using poll_inv [OF poll.IH] rt by blast
next
  case (send es q p s fuel now)
  then show ?case by (intro send_inv)
next
  case (network es q p s evs)
  then show ?case by (simp add: run_inv_def sender_inv_def idle_def links_ok_same [of _ s])
next
  case (device es q p s os)
  then show ?case by (simp add: run_inv_def sender_inv_def idle_def links_ok_same [of _ s] Cursor_def)
qed

end
