(* ===== verification/Receiver.thy ===== *)
theory Receiver
  imports Wal_Contract Vm_Client
begin

text \<open>
  The receiver, \<^verbatim>\<open>src/internal/receiver/receiver.go\<close> and \<^verbatim>\<open>dlq.go\<close>: what
  happens between a frame's arrival and its acknowledgement byte. The state is the
  \<open>Receiver\<close> struct with the outside it writes to (the database's accepted imports, the
  dead letter directories, the sequence number file, the relay WAL). The outcomes of external
  calls come with each call as an \<open>env\<close>. Handlers of several connections run
  concurrently: \<^verbatim>\<open>HandleFrame\<close> is an admission and a completion, and between the two
  any number of other handlers may run.
\<close>

section \<open>The sequence tracker\<close>

definition seqJumpLimit :: u64 where "seqJumpLimit = 100000"
definition dedupWindowCap :: nat where "dedupWindowCap = 4096"
definition seqPendingLimit :: nat where "seqPendingLimit = 65536"
definition gapWarnResetWindow :: int where "gapWarnResetWindow = 300000000000"

record seqTracker =
  tLast :: u64
  tPending :: "u64 list"

definition newSeqTracker :: seqTracker where
  "newSeqTracker = \<lparr>tLast = 0, tPending = []\<rparr>"

definition trackerInit :: "u64 \<Rightarrow> seqTracker \<Rightarrow> seqTracker" where
  "trackerInit v t = \<lparr>tLast = v, tPending = []\<rparr>"

definition closeGap :: "u64 \<Rightarrow> seqTracker \<Rightarrow> seqTracker" where
  "closeGap upTo t =
     (let l = (if upTo > tLast t then upTo else tLast t)
      in \<lparr>tLast = l, tPending = filter (\<lambda>s. \<not> s \<le> l) (tPending t)\<rparr>)"

text \<open>The loop of \<^verbatim>\<open>done\<close>: advance over completed frames that continue the prefix.\<close>

function advance :: "u64 \<Rightarrow> u64 list \<Rightarrow> bool \<Rightarrow> bool \<times> seqTracker" where
  "advance l p adv =
     (if l + 1 \<in> set p then advance (l + 1) (removeAll (l + 1) p) True
      else (adv, \<lparr>tLast = l, tPending = p\<rparr>))"
  by pat_completeness auto
termination
  by (relation "measure (\<lambda>(l, p, adv). length p)") (auto intro: length_removeAll_less)

declare advance.simps [simp del]

definition trackerDone :: "u64 \<Rightarrow> seqTracker \<Rightarrow> bool \<times> seqTracker" where
  "trackerDone seq t =
     (if seq \<le> tLast t then (False, t)
      else if seq > tLast t + seqJumpLimit then (True, \<lparr>tLast = seq, tPending = []\<rparr>)
      else (case advance (tLast t) (List.insert seq (tPending t)) False of (adv, t') \<Rightarrow>
        (adv, if length (tPending t') > seqPendingLimit then t'\<lparr>tPending := []\<rparr> else t')))"

section \<open>State\<close>

record DLQMeta =
  SeqNum :: u64
  RetryAttempts :: nat
  Category :: string
  HTTPStatus :: int
  ErrorMessage :: bytes
  SourceZone :: string
  Measurement :: bytes
  PointCount :: nat
  UncompressedBytes :: nat

record RecvConfig =
  cLastSeqFile :: bool
  cRelayDLQDir :: bool
  cLastWriteTs :: bool

record Receiver =
  lastSeq :: int
  seqOrd :: seqTracker
  inflightSeq :: "u64 \<rightharpoonup> nat"
  gapWarned :: u64
  gapWarnedAt :: int
  dedupSeq :: "u64 list"
  dedupCRC :: "u64 \<rightharpoonup> u32"
  persistAt :: "int option"
  seqFile :: "bytes option"
  relayWAL :: "wal option"
  stored :: "bytes list"
  dlqDir :: "(DLQMeta \<times> bytes) list"
  relayDlqDir :: "(DLQMeta \<times> bytes) list"
  writeTs :: "int list"

text \<open>What the outside answers during one call, and how it words an error of the relay WAL.\<close>

record env =
  eNow :: int
  eImport :: "bytes \<Rightarrow> http_result"
  eDlq :: "string option"
  eRelayDlq :: "string option"
  eSeqSave :: "string option"
  eErrText :: "wal_err \<Rightarrow> bytes"

section \<open>The sequence number file\<close>

text \<open>The file is written beside and renamed: a failing save leaves the old file.\<close>

definition saveLastSeq :: "env \<Rightarrow> int \<Rightarrow> Receiver \<Rightarrow> Receiver" where
  "saveLastSeq e seq r =
     (case eSeqSave e of None \<Rightarrow> r\<lparr>seqFile := Some (show_int seq @ [newline])\<rparr> | Some _ \<Rightarrow> r)"

definition loadLastSeq :: "bytes option \<Rightarrow> string + int" where
  "loadLastSeq file =
     (case file of
        None \<Rightarrow> Inr 0
      | Some data \<Rightarrow>
          (case Sscanf_d (TrimSpace data) of None \<Rightarrow> Inl ''parse last_seq'' | Some seq \<Rightarrow> Inr seq))"

definition fresh_receiver :: "wal option \<Rightarrow> bytes option \<Rightarrow> Receiver" where
  "fresh_receiver relay file = \<lparr>lastSeq = 0, seqOrd = newSeqTracker, inflightSeq = Map.empty,
     gapWarned = 0, gapWarnedAt = 0, dedupSeq = [], dedupCRC = Map.empty, persistAt = None,
     seqFile = file, relayWAL = relay, stored = [], dlqDir = [], relayDlqDir = [], writeTs = []\<rparr>"

definition New :: "RecvConfig \<Rightarrow> wal option \<Rightarrow> bytes option \<Rightarrow> string + Receiver" where
  "New cfg relay file =
     (let r = fresh_receiver relay file in
      if cLastSeqFile cfg then
        (case loadLastSeq file of
           Inl e \<Rightarrow> Inl e
         | Inr seq \<Rightarrow> Inr (r\<lparr>lastSeq := seq, seqOrd := trackerInit (word_of_int seq) (seqOrd r)\<rparr>))
      else Inr r)"

section \<open>Book-keeping\<close>

definition addInflight :: "u64 \<Rightarrow> Receiver \<Rightarrow> Receiver" where
  "addInflight seq r = r\<lparr>inflightSeq := (inflightSeq r)(seq \<mapsto>
     (case inflightSeq r seq of None \<Rightarrow> 1 | Some n \<Rightarrow> n + 1))\<rparr>"

definition removeInflight :: "u64 \<Rightarrow> Receiver \<Rightarrow> Receiver" where
  "removeInflight seq r = r\<lparr>inflightSeq :=
     (case inflightSeq r seq of
        None \<Rightarrow> (inflightSeq r)(seq := None)
      | Some n \<Rightarrow> if n \<le> 1 then (inflightSeq r)(seq := None) else (inflightSeq r)(seq \<mapsto> n - 1))\<rparr>"

definition dedupRecord :: "u64 \<Rightarrow> u32 \<Rightarrow> Receiver \<Rightarrow> Receiver" where
  "dedupRecord seq crc r =
     (let r1 = (if dedupCRC r seq = None then
          (let q = dedupSeq r @ [seq] in
           if length q > dedupWindowCap
           then r\<lparr>dedupCRC := (dedupCRC r)(hd q := None), dedupSeq := tl q\<rparr>
           else r\<lparr>dedupSeq := q\<rparr>)
        else r)
      in r1\<lparr>dedupCRC := (dedupCRC r1)(seq \<mapsto> crc)\<rparr>)"

definition dedupHit :: "u64 \<Rightarrow> u32 \<Rightarrow> Receiver \<Rightarrow> bool" where
  "dedupHit seq crc r = (case dedupCRC r seq of None \<Rightarrow> False | Some c \<Rightarrow> c = crc)"

definition advanceSeq :: "RecvConfig \<Rightarrow> env \<Rightarrow> u64 \<Rightarrow> Receiver \<Rightarrow> Receiver" where
  "advanceSeq cfg e seq r =
     (let r1 = (if sint seq \<le> lastSeq r then r else r\<lparr>lastSeq := sint seq\<rparr>) in
      if \<not> cLastSeqFile cfg then r1
      else if (case persistAt r1 of None \<Rightarrow> False | Some t \<Rightarrow> eNow e < t) then r1
      else saveLastSeq e (sint seq) (r1\<lparr>persistAt := Some (eNow e + 1000000000)\<rparr>))"

definition markDone :: "RecvConfig \<Rightarrow> env \<Rightarrow> u64 \<Rightarrow> Receiver \<Rightarrow> Receiver" where
  "markDone cfg e seq r =
     (case trackerDone seq (seqOrd r) of (adv, t) \<Rightarrow>
        (let r1 = r\<lparr>seqOrd := t\<rparr> in if \<not> adv then r1 else advanceSeq cfg e (tLast t) r1))"

definition gapWarnAllowed :: "env \<Rightarrow> Receiver \<Rightarrow> bool" where
  "gapWarnAllowed e r \<longleftrightarrow> gapWarned r = 0 \<or> gapWarned r \<le> word_of_int (lastSeq r) \<or>
     eNow e - gapWarnedAt r > gapWarnResetWindow"

definition markGapWarned :: "env \<Rightarrow> u64 \<Rightarrow> Receiver \<Rightarrow> Receiver" where
  "markGapWarned e seq r = r\<lparr>gapWarned := seq, gapWarnedAt := eNow e\<rparr>"

function inflight_between :: "(u64 \<rightharpoonup> nat) \<Rightarrow> u64 \<Rightarrow> u64 \<Rightarrow> bool" where
  "inflight_between m s seq =
     (if s < seq then (if m s \<noteq> None then True else inflight_between m (s + 1) seq) else False)"
  by pat_completeness auto
termination
proof (relation "measure (\<lambda>(m, s, seq). unat (seq :: u64) - unat s)", goal_cases)
  case 1
  show ?case by simp
next
  case (2 m s seq)
  then have "s \<noteq> - 1" using word_order.extremum_strict by auto
  then have "unat s < unat (s + 1)" using word_less_succ [of s] by (simp add: word_less_nat_alt)
  moreover have "unat s < unat seq" using 2 by (simp add: word_less_nat_alt)
  ultimately show ?case by simp
qed

declare inflight_between.simps [simp del]

definition tryCloseGap :: "RecvConfig \<Rightarrow> env \<Rightarrow> u64 \<Rightarrow> Receiver \<Rightarrow> bool \<times> Receiver" where
  "tryCloseGap cfg e seq r =
     (let last = word_of_int (lastSeq r) in
      if seq \<le> last + 1 then (False, r)
      else if inflight_between (inflightSeq r) (last + 1) seq then (False, r)
      else let r1 = r\<lparr>seqOrd := closeGap (seq - 1) (seqOrd r)\<rparr>
           in (True, advanceSeq cfg e (tLast (seqOrd r1)) r1))"

section \<open>Dead letters\<close>

text \<open>\<^verbatim>\<open>classifyWriteError\<close>: permanent or not, HTTP status, category.\<close>

definition import_err_text :: "import_err \<Rightarrow> bytes" where
  "import_err_text err = (case err of
     ImportHTTPError code body \<Rightarrow> str ''vm: import http '' @ show_int code @ str '': '' @ vm_truncate body 512
   | ImportOther msg \<Rightarrow> msg)"

definition classifyWriteError :: "import_err \<Rightarrow> bool \<times> int \<times> string" where
  "classifyWriteError err = (case err of
     ImportHTTPError code body \<Rightarrow>
       if 400 \<le> code \<and> code < 500 then (True, code, ''PERMANENT_ERROR'')
       else (False, code, ''TRANSIENT_ERROR'')
   | ImportOther msg \<Rightarrow>
       (case index_of (str ''write http '') msg of
          None \<Rightarrow> (False, 0, ''TRANSIENT_ERROR'')
        | Some idx \<Rightarrow>
            (case Sscanf_d (drop (idx + length (str ''write http '')) msg) of
               None \<Rightarrow> (False, 0, ''TRANSIENT_ERROR'')
             | Some code \<Rightarrow>
                 if 400 \<le> code \<and> code < 500 then (True, code, ''PERMANENT_ERROR'')
                 else if 500 \<le> code then (False, code, ''TRANSIENT_ERROR'')
                 else (False, 0, ''TRANSIENT_ERROR''))))"

definition splitLines :: "bytes \<Rightarrow> bytes list" where
  "splitLines raw = filter (\<lambda>l. l \<noteq> []) (map TrimSpace (split_byte newline raw))"

definition name_key :: bytes where "name_key = str ''{\"__name__\":\"''"

definition metricOf :: "bytes list \<Rightarrow> bytes" where
  "metricOf lines = (case lines of
     [] \<Rightarrow> []
   | line # _ \<Rightarrow>
       (case index_of name_key line of
          None \<Rightarrow> str ''unknown''
        | Some idx \<Rightarrow>
            let rest = drop (idx + length name_key) line in
            (case index_of [34] rest of None \<Rightarrow> str ''unknown'' | Some stop \<Rightarrow> take stop rest)))"

definition dlqMeta :: "u64 \<Rightarrow> string \<Rightarrow> int \<Rightarrow> bytes \<Rightarrow> string \<Rightarrow> bytes \<Rightarrow> DLQMeta" where
  "dlqMeta seq category status msg zone raw = \<lparr>SeqNum = seq, RetryAttempts = 1, Category = category,
     HTTPStatus = status, ErrorMessage = msg, SourceZone = zone, Measurement = metricOf (splitLines raw),
     PointCount = length (splitLines raw), UncompressedBytes = length raw\<rparr>"

text \<open>\<^verbatim>\<open>writeDLQJSON\<close>: every letter gets a file of its own.\<close>

definition writeDLQJSON :: "string option \<Rightarrow> DLQMeta \<Rightarrow> bytes \<Rightarrow> (DLQMeta \<times> bytes) list \<Rightarrow>
    string + (DLQMeta \<times> bytes) list" where
  "writeDLQJSON res meta payload dir =
     (case res of Some err \<Rightarrow> Inl err | None \<Rightarrow> Inr (dir @ [(meta, payload)]))"

section \<open>Handling a frame\<close>

text \<open>The part before the database is written.\<close>

datatype admission = Reply byte | Proceed Frame

definition noteGap :: "RecvConfig \<Rightarrow> env \<Rightarrow> nat \<Rightarrow> u64 \<Rightarrow> Receiver \<Rightarrow> Receiver" where
  "noteGap cfg e frameIdx seq r =
     (let last = word_of_int (lastSeq r) in
      if seq > last + 1 then
        (if seq > last + seqJumpLimit then
           (if gapWarnAllowed e r then markGapWarned e seq r else r)
         else
           (case (if frameIdx = 0 then tryCloseGap cfg e seq r else (False, r)) of
              (True, r1) \<Rightarrow> r1\<lparr>gapWarned := 0\<rparr>
            | (False, r1) \<Rightarrow> if gapWarnAllowed e r1 then markGapWarned e seq r1 else r1))
      else r)"

definition admit :: "RecvConfig \<Rightarrow> env \<Rightarrow> nat \<Rightarrow> bytes \<Rightarrow> Receiver \<Rightarrow> admission \<times> Receiver" where
  "admit cfg e frameIdx fb r =
     (case Decode fb of
        Inl _ \<Rightarrow> (Reply AckFail, r)
      | Inr f \<Rightarrow>
          if IsHeartbeat f then (Reply AckSuccess, r)
          else if fSeq f \<le> word_of_int (lastSeq r) \<and> dedupHit (fSeq f) (fCRC f) r
          then (Reply AckSuccess, r)
          else (Proceed f, noteGap cfg e frameIdx (fSeq f) (addInflight (fSeq f) r)))"

text \<open>After a successful import: forward to the relay WAL, or to the relay's dead letters.\<close>

definition relayForward :: "codec \<Rightarrow> RecvConfig \<Rightarrow> env \<Rightarrow> Frame \<Rightarrow> bytes \<Rightarrow> Receiver \<Rightarrow> Receiver" where
  "relayForward cd cfg e f raw r =
     (case relayWAL r of
        None \<Rightarrow> r
      | Some w \<Rightarrow>
          (case Append cd (fType f) raw w of
             (Inr _, w') \<Rightarrow> r\<lparr>relayWAL := Some w'\<rparr>
           | (Inl err, w') \<Rightarrow>
               let r1 = r\<lparr>relayWAL := Some w'\<rparr> in
               if cRelayDLQDir cfg then
                 (case writeDLQJSON (eRelayDlq e)
                     (dlqMeta (fSeq f) ''RELAY_FORWARD_FAILURE'' 0 (eErrText e err) ''Zone_II'' raw) (fPayload f) (relayDlqDir r1) of
                    Inl _ \<Rightarrow> r1
                  | Inr dir \<Rightarrow> r1\<lparr>relayDlqDir := dir\<rparr>)
               else r1))"

definition importFrame :: "codec \<Rightarrow> RecvConfig \<Rightarrow> env \<Rightarrow> Frame \<Rightarrow> bytes \<Rightarrow> Receiver \<Rightarrow> byte \<times> Receiver" where
  "importFrame cd cfg e f raw r =
     (case ImportWrite (eImport e) raw of
        Some err \<Rightarrow>
          (case classifyWriteError err of (permanent, httpStatus, category) \<Rightarrow>
             if permanent then
               (case writeDLQJSON (eDlq e)
                   (dlqMeta (fSeq f) category httpStatus (import_err_text err) ''Zone_I'' raw) (fPayload f) (dlqDir r) of
                  Inl _ \<Rightarrow> (AckFail, r)
                | Inr dir \<Rightarrow> (AckSuccess, dedupRecord (fSeq f) (fCRC f)
                    (markDone cfg e (fSeq f) (r\<lparr>dlqDir := dir\<rparr>))))
             else (AckFail, r))
      | None \<Rightarrow>
          let r1 = relayForward cd cfg e f raw (r\<lparr>stored := stored r @ [raw]\<rparr>);
              r2 = dedupRecord (fSeq f) (fCRC f) (markDone cfg e (fSeq f) r1);
              ts = LastSampleTimestamp raw
          in (AckSuccess, if cLastWriteTs cfg \<and> ts > 0 then r2\<lparr>writeTs := writeTs r2 @ [ts]\<rparr> else r2))"

definition complete :: "codec \<Rightarrow> RecvConfig \<Rightarrow> env \<Rightarrow> Frame \<Rightarrow> Receiver \<Rightarrow> byte \<times> Receiver" where
  "complete cd cfg e f r =
     (case (case Decompress cd f of
              Inl _ \<Rightarrow> (AckFail, r)
            | Inr raw \<Rightarrow> if length (TrimSpace raw) = 0 then (AckFail, r) else importFrame cd cfg e f raw r) of
        (ack, r') \<Rightarrow> (ack, removeInflight (fSeq f) r'))"

definition HandleFrame :: "codec \<Rightarrow> RecvConfig \<Rightarrow> env \<Rightarrow> nat \<Rightarrow> bytes \<Rightarrow> Receiver \<Rightarrow> byte \<times> Receiver" where
  "HandleFrame cd cfg e frameIdx fb r =
     (case admit cfg e frameIdx fb r of
        (Reply ack, r1) \<Rightarrow> (ack, r1)
      | (Proceed f, r1) \<Rightarrow> complete cd cfg e f r1)"

end
