(* ===== verification/Transport.thy ===== *)
theory Transport
  imports Protocol "HOL-Library.Sublist"
begin

text \<open>
  The server side of the connection, \<^verbatim>\<open>src/internal/transport/tcp_server.go\<close>: a
  reader cuts the incoming bytes into frames and starts a handler for each, handlers finish in
  any order, and a writer sends their answers back in the order of the frames. One connection is
  a record; reader, handlers and writer are steps on it, each of which holds the mutex of
  \<^verbatim>\<open>connPipeline\<close> for its part. What a handler answers is arbitrary here. Sockets,
  deadlines and the accept loop are not modelled, the limit on connections is.
\<close>

section \<open>Configuration\<close>

record ServerConfig =
  Listen :: bytes
  ReadTimeout :: int
  MaxInflight :: int
  MaxConns :: int

definition NewServer :: "ServerConfig \<Rightarrow> ServerConfig" where
  "NewServer c = \<lparr>Listen = Listen c, ReadTimeout = (if ReadTimeout c \<le> 0 then 60000000000 else ReadTimeout c),
     MaxInflight = (if MaxInflight c \<le> 0 then 8 else MaxInflight c), MaxConns = MaxConns c\<rparr>"

text \<open>
  The loop over the open connections stops counting one above the limit; a new connection gets
  the next number, or is closed at once.
\<close>

definition countConns :: "int \<Rightarrow> nat \<Rightarrow> int" where
  "countConns limit n = min (int n) (limit + 1)"

definition acceptConn :: "ServerConfig \<Rightarrow> u64 \<times> u64 set \<Rightarrow> u64 option \<times> (u64 \<times> u64 set)" where
  "acceptConn cfg st =
     (case st of (connSeq, conns) \<Rightarrow>
        if MaxConns cfg > 0 \<and> countConns (MaxConns cfg) (card conns) \<ge> MaxConns cfg then (None, st)
        else (Some (connSeq + 1), (connSeq + 1, insert (connSeq + 1) conns)))"

definition dropConn :: "u64 \<Rightarrow> u64 \<times> u64 set \<Rightarrow> u64 \<times> u64 set" where
  "dropConn i st = (fst st, snd st - {i})"

section \<open>The answers in order\<close>

record connPipeline =
  pNext :: int
  pResults :: "int \<rightharpoonup> byte"
  pClosed :: bool

definition newConnPipeline :: connPipeline where
  "newConnPipeline = \<lparr>pNext = 0, pResults = (\<lambda>_. None), pClosed = False\<rparr>"

definition setResult :: "int \<Rightarrow> byte \<Rightarrow> connPipeline \<Rightarrow> connPipeline" where
  "setResult i ack p = p\<lparr>pResults := (pResults p)(i \<mapsto> ack)\<rparr>"

text \<open>One pass of each waiting loop: \<open>None\<close> is to go on waiting.\<close>

definition nextResult :: "int \<Rightarrow> connPipeline \<Rightarrow> (byte option \<times> connPipeline) option" where
  "nextResult i p =
     (case pResults p i of
        Some ack \<Rightarrow> Some (Some ack, p\<lparr>pResults := (pResults p)(i := None)\<rparr>)
      | None \<Rightarrow> if pClosed p then Some (None, p) else None)"

definition closePipe :: "connPipeline \<Rightarrow> connPipeline" where
  "closePipe p = p\<lparr>pClosed := True\<rparr>"

definition advancePipe :: "connPipeline \<Rightarrow> connPipeline" where
  "advancePipe p = p\<lparr>pNext := pNext p + 1\<rparr>"

definition awaitInflight :: "int \<Rightarrow> int \<Rightarrow> connPipeline \<Rightarrow> bool option" where
  "awaitInflight i mx p = (if i - pNext p \<ge> mx then (if pClosed p then Some False else None) else Some True)"

section \<open>One connection\<close>

text \<open>
  \<open>input\<close> are the bytes of the connection that are not read yet; \<open>seen\<close> the
  frames read so far with their data index, \<open>answers\<close> what their handlers returned, and
  \<open>wire\<close> the bytes written back; \<open>refused\<close> is the number of answers written before
  the byte for a broken header.
\<close>

record server_conn =
  pipe :: connPipeline
  input :: bytes
  rIdx :: int
  dataIdx :: u64
  wIdx :: int
  reading :: bool
  writing :: bool
  handling :: "int set"
  seen :: "(u64 \<times> bytes) list"
  answers :: "int \<rightharpoonup> byte"
  wire :: "byte list"
  refused :: "nat option"

definition new_conn :: "bytes \<Rightarrow> server_conn" where
  "new_conn bs = \<lparr>pipe = newConnPipeline, input = bs, rIdx = 0, dataIdx = 0, wIdx = 0, reading = True,
     writing = True, handling = {}, seen = [], answers = (\<lambda>_. None), wire = [], refused = None\<rparr>"

text \<open>The first frame of the input: not there yet, a broken header, or the frame.\<close>

datatype readout = ReadMore | ReadBad | ReadFrame Header bytes bytes

definition readWire :: "bytes \<Rightarrow> readout" where
  "readWire bs =
     (if length bs < HeaderSize then ReadMore
      else (case ParseHeader (take HeaderSize bs) of
              Inl _ \<Rightarrow> ReadBad
            | Inr h \<Rightarrow> let n = HeaderSize + unat (hLength h) in
                if length bs < n then ReadMore else ReadFrame h (take n bs) (drop n bs)))"

definition frameIdx :: "Header \<Rightarrow> server_conn \<Rightarrow> u64 \<times> u64" where
  "frameIdx h c = (if hType h = TypeData \<or> hType h = TypeDataZstd then (dataIdx c, dataIdx c + 1) else (0, dataIdx c))"

definition stopReading :: "server_conn \<Rightarrow> server_conn" where
  "stopReading c = c\<lparr>reading := False, pipe := closePipe (pipe c)\<rparr>"

text \<open>The reader: a broken header is answered directly and ends the connection.\<close>

definition readStep :: "ServerConfig \<Rightarrow> bool \<Rightarrow> server_conn \<Rightarrow> server_conn option" where
  "readStep cfg ok c =
     (if \<not> reading c then None
      else (case readWire (input c) of
        ReadMore \<Rightarrow> None
      | ReadBad \<Rightarrow>
          Some (stopReading (if ok then c\<lparr>wire := wire c @ [AckFail], refused := Some (length (wire c))\<rparr> else c))
      | ReadFrame h fb rest \<Rightarrow>
          (case awaitInflight (rIdx c) (MaxInflight cfg) (pipe c) of
             None \<Rightarrow> None
           | Some False \<Rightarrow> Some (stopReading c)
           | Some True \<Rightarrow> Some (c\<lparr>input := rest, rIdx := rIdx c + 1, dataIdx := snd (frameIdx h c),
               handling := insert (rIdx c) (handling c), seen := seen c @ [(fst (frameIdx h c), fb)]\<rparr>))))"

definition handlerDone :: "int \<Rightarrow> byte \<Rightarrow> server_conn \<Rightarrow> server_conn" where
  "handlerDone i ack c = c\<lparr>handling := handling c - {i}, pipe := setResult i ack (pipe c),
     answers := (answers c)(i \<mapsto> ack)\<rparr>"

text \<open>The writer: the answer of the next frame in order, written or not.\<close>

definition writeStep :: "bool \<Rightarrow> server_conn \<Rightarrow> server_conn option" where
  "writeStep ok c =
     (if \<not> writing c then None
      else (case nextResult (wIdx c) (pipe c) of
        None \<Rightarrow> None
      | Some (None, p) \<Rightarrow> Some (c\<lparr>pipe := p, writing := False\<rparr>)
      | Some (Some ack, p) \<Rightarrow>
          if ok then Some (c\<lparr>pipe := advancePipe p, wIdx := wIdx c + 1, wire := wire c @ [ack]\<rparr>)
          else Some (c\<lparr>pipe := closePipe p, writing := False\<rparr>)))"

text \<open>\<^verbatim>\<open>handleConn\<close>: reader, handlers and writer in any order; the peer may go away.\<close>

inductive conn_step :: "ServerConfig \<Rightarrow> server_conn \<Rightarrow> server_conn \<Rightarrow> bool" for cfg where
  reader: "readStep cfg ok c = Some c' \<Longrightarrow> conn_step cfg c c'"
| handler: "i \<in> handling c \<Longrightarrow> conn_step cfg c (handlerDone i ack c)"
| writer: "writeStep ok c = Some c' \<Longrightarrow> conn_step cfg c c'"
| gone: "conn_step cfg c (stopReading c)"

section \<open>The invariant of a connection\<close>

definition in_order :: "server_conn \<Rightarrow> byte list" where
  "in_order c = map (\<lambda>k. the (answers c (int k))) [0..<nat (wIdx c)]"

definition conn_inv :: "ServerConfig \<Rightarrow> bytes \<Rightarrow> server_conn \<Rightarrow> bool" where
  "conn_inv cfg bs c \<longleftrightarrow>
     concat (map snd (seen c)) @ input c = bs \<and>
     0 \<le> wIdx c \<and> wIdx c \<le> rIdx c \<and> int (length (seen c)) = rIdx c \<and>
     pNext (pipe c) = wIdx c \<and> rIdx c \<le> wIdx c + MaxInflight cfg \<and>
     handling c \<subseteq> {wIdx c ..< rIdx c} \<and> dom (answers c) \<inter> handling c = {} \<and>
     dom (pResults (pipe c)) \<subseteq> {wIdx c ..< rIdx c} \<and> (\<forall>i. 0 \<le> i \<and> i < wIdx c \<longrightarrow> answers c i \<noteq> None) \<and>
     dom (answers c) \<subseteq> {0 ..< rIdx c} \<and>
     (\<forall>i ack. pResults (pipe c) i = Some ack \<longrightarrow> answers c i = Some ack) \<and>
     (case refused c of None \<Rightarrow> wire c = in_order c
      | Some m \<Rightarrow> \<not> reading c \<and> m \<le> length (in_order c) \<and> wire c = take m (in_order c) @ AckFail # drop m (in_order c))"

lemma in_order_next:
  assumes "0 \<le> wIdx c" and "answers c (wIdx c) = Some ack"
  shows "map (\<lambda>k. the (answers c (int k))) [0..<nat (wIdx c + 1)] = in_order c @ [ack]"
proof -
  have "nat (wIdx c + 1) = Suc (nat (wIdx c))" using assms(1) by simp
  then show ?thesis using assms by (simp add: in_order_def)
qed

lemma in_order_later:
  assumes "wIdx c \<le> i"
  shows "map (\<lambda>k. the (((answers c)(i \<mapsto> ack)) (int k))) [0..<nat (wIdx c)] = in_order c"
  using assms by (auto simp: in_order_def intro!: map_cong)

lemma insert_at_end: "m \<le> length xs \<Longrightarrow> take m (xs @ [x]) @ a # drop m (xs @ [x]) = (take m xs @ a # drop m xs) @ [x]"
  by simp

lemma readWire_frame:
  assumes "readWire bs = ReadFrame h fb rest"
  shows "bs = fb @ rest"
  using assms by (auto simp: readWire_def Let_def split: if_splits sum.splits)

lemma stopReading_inv: "conn_inv cfg bs c \<Longrightarrow> conn_inv cfg bs (stopReading c)"
  by (auto simp: conn_inv_def stopReading_def closePipe_def in_order_def split: option.splits)

lemma readStep_inv:
  assumes inv: "conn_inv cfg bs c" and st: "readStep cfg ok c = Some c'"
  shows "conn_inv cfg bs c'"
proof -
  have rd: "reading c" using st by (auto simp: readStep_def split: if_splits)
  have none: "refused c = None" using inv rd by (auto simp: conn_inv_def split: option.splits)
  show ?thesis
  proof (cases "readWire (input c)")
    case ReadMore
    then show ?thesis using st rd by (simp add: readStep_def)
  next
    case ReadBad
    then have c': "c' = stopReading (if ok then c\<lparr>wire := wire c @ [AckFail], refused := Some (length (wire c))\<rparr> else c)"
      using st rd by (simp add: readStep_def)
    show ?thesis
    proof (cases ok)
      case False
      then show ?thesis using c' stopReading_inv [OF inv] by simp
    next
      case True
      then show ?thesis using c' inv none
        by (simp add: conn_inv_def stopReading_def closePipe_def in_order_def)
    qed
  next
    case (ReadFrame h fb rest)
    note split = readWire_frame [OF ReadFrame]
    show ?thesis
    proof (cases "rIdx c - pNext (pipe c) \<ge> MaxInflight cfg")
      case True
      then have "c' = stopReading c" using st rd ReadFrame by (auto simp: readStep_def awaitInflight_def split: if_splits)
      then show ?thesis using stopReading_inv [OF inv] by simp
    next
      case False
      then have c': "c' = c\<lparr>input := rest, rIdx := rIdx c + 1, dataIdx := snd (frameIdx h c),
          handling := insert (rIdx c) (handling c), seen := seen c @ [(fst (frameIdx h c), fb)]\<rparr>"
        using st rd ReadFrame by (simp add: readStep_def awaitInflight_def)
      have io: "in_order c' = in_order c" by (simp add: c' in_order_def)
      have sub: "handling c \<subseteq> {wIdx c ..< rIdx c + 1}" "dom (pResults (pipe c)) \<subseteq> {wIdx c ..< rIdx c + 1}"
        using inv unfolding conn_inv_def by force+
      have "rIdx c \<notin> dom (answers c)" "dom (answers c) \<subseteq> {0 ..< rIdx c + 1}" using inv by (force simp: conn_inv_def)+
      moreover have "dom (answers c) \<inter> handling c = {}" using inv by (simp add: conn_inv_def)
      ultimately show ?thesis using inv False sub none split io
        by (simp add: conn_inv_def c')
    qed
  qed
qed

lemma handlerDone_inv:
  assumes inv: "conn_inv cfg bs c" and i: "i \<in> handling c"
  shows "conn_inv cfg bs (handlerDone i ack c)"
proof -
  have r: "wIdx c \<le> i" "i < rIdx c" "answers c i = None" "0 \<le> wIdx c" using inv i by (force simp: conn_inv_def)+
  have io: "in_order (handlerDone i ack c) = in_order c"
    using in_order_later [OF r(1)] by (simp add: in_order_def handlerDone_def)
  have "dom ((pResults (pipe c))(i \<mapsto> ack)) \<subseteq> {wIdx c ..< rIdx c}" "dom ((answers c)(i \<mapsto> ack)) \<subseteq> {0 ..< rIdx c}"
    "dom ((answers c)(i \<mapsto> ack)) \<inter> (handling c - {i}) = {}" "handling c - {i} \<subseteq> {wIdx c ..< rIdx c}"
    using inv r by (auto simp: conn_inv_def)
  then show ?thesis using inv r io unfolding conn_inv_def handlerDone_def setResult_def by (auto split: option.splits)
qed

lemma writeStep_inv:
  assumes inv: "conn_inv cfg bs c" and st: "writeStep ok c = Some c'"
  shows "conn_inv cfg bs c'"
proof (cases "pResults (pipe c) (wIdx c)")
  case None
  then have "c' = c\<lparr>writing := False\<rparr>" using st by (auto simp: writeStep_def nextResult_def split: if_splits)
  then show ?thesis using inv by (auto simp: conn_inv_def in_order_def split: option.splits)
next
  case (Some ack)
  let ?res = "(pResults (pipe c))(wIdx c := None)"
  have w: "wIdx c < rIdx c" "answers c (wIdx c) = Some ack" "0 \<le> wIdx c" using inv Some by (force simp: conn_inv_def)+
  have dom: "dom ?res \<subseteq> {wIdx c + 1 ..< rIdx c}"
  proof
    fix x assume "x \<in> dom ?res"
    then have "x \<noteq> wIdx c" "x \<in> dom (pResults (pipe c))" by (auto split: if_splits)
    then have "x \<noteq> wIdx c" "x \<in> {wIdx c ..< rIdx c}" using inv unfolding conn_inv_def by blast+
    then show "x \<in> {wIdx c + 1 ..< rIdx c}" by simp
  qed
  have res: "\<forall>i a. ?res i = Some a \<longrightarrow> answers c i = Some a" using inv by (simp add: conn_inv_def)
  have hd: "handling c \<subseteq> {wIdx c + 1 ..< rIdx c}"
  proof
    fix x assume x: "x \<in> handling c"
    then have "x \<noteq> wIdx c" using inv w(2) by (auto simp: conn_inv_def)
    then show "x \<in> {wIdx c + 1 ..< rIdx c}" using inv x by (force simp: conn_inv_def)
  qed
  show ?thesis
  proof (cases ok)
    case False
    then have "c' = c\<lparr>pipe := (pipe c)\<lparr>pResults := ?res, pClosed := True\<rparr>, writing := False\<rparr>"
      using st Some by (auto simp: writeStep_def nextResult_def closePipe_def split: if_splits)
    moreover have "dom ?res \<subseteq> {wIdx c ..< rIdx c}" using dom by auto
    ultimately show ?thesis using inv res by (auto simp: conn_inv_def in_order_def split: option.splits)
  next
    case True
    then have c': "c' = c\<lparr>pipe := (pipe c)\<lparr>pResults := ?res, pNext := pNext (pipe c) + 1\<rparr>, wIdx := wIdx c + 1,
        wire := wire c @ [ack]\<rparr>"
      using st Some by (auto simp: writeStep_def nextResult_def advancePipe_def split: if_splits)
    have fields: "seen c' = seen c" "input c' = input c" "rIdx c' = rIdx c" "wIdx c' = wIdx c + 1" "handling c' = handling c"
      "answers c' = answers c" "refused c' = refused c" "wire c' = wire c @ [ack]" "reading c' = reading c"
      "pResults (pipe c') = ?res" "pNext (pipe c') = pNext (pipe c) + 1" by (simp_all add: c')
    have io: "in_order c' = in_order c @ [ack]" using in_order_next [OF w(3,2)] by (simp add: in_order_def c')
    have ans: "\<forall>i. 0 \<le> i \<and> i < wIdx c + 1 \<longrightarrow> answers c i \<noteq> None"
    proof (intro allI impI)
      fix i assume "0 \<le> i \<and> i < wIdx c + 1"
      then show "answers c i \<noteq> None" using inv w(2) by (cases "i = wIdx c") (auto simp: conn_inv_def)
    qed
    have wr: "case refused c of None \<Rightarrow> wire c' = in_order c'
      | Some m \<Rightarrow> \<not> reading c \<and> m \<le> length (in_order c') \<and> wire c' = take m (in_order c') @ AckFail # drop m (in_order c')"
      using inv fields(8) by (auto simp: conn_inv_def io split: option.splits)
    show ?thesis using inv w dom res hd ans wr unfolding conn_inv_def fields(1-7,9-11) by simp
  qed
qed

lemma conn_step_inv:
  assumes "conn_step cfg c c'" and "conn_inv cfg bs c"
  shows "conn_inv cfg bs c'"
  using assms
proof cases
  case (reader ok)
  then show ?thesis using readStep_inv [OF assms(2)] by blast
next
  case (handler i ack)
  then show ?thesis using handlerDone_inv [OF assms(2)] by blast
next
  case (writer ok)
  then show ?thesis using writeStep_inv [OF assms(2)] by blast
next
  case gone
  then show ?thesis using stopReading_inv [OF assms(2)] by blast
qed

lemma new_conn_inv: "0 < MaxInflight cfg \<Longrightarrow> conn_inv cfg bs (new_conn bs)"
  by (simp add: conn_inv_def new_conn_def newConnPipeline_def in_order_def)

lemma conn_steps_inv:
  assumes "(conn_step cfg)\<^sup>*\<^sup>* (new_conn bs) c" and "0 < MaxInflight cfg"
  shows "conn_inv cfg bs c"
  using assms(1)
proof (induction rule: rtranclp_induct)
  case base
  then show ?case by (rule new_conn_inv [OF assms(2)])
next
  case (step c c')
  then show ?case using conn_step_inv by blast
qed

section \<open>Streams of well-formed frames\<close>

definition framed :: "bytes \<Rightarrow> bool" where
  "framed fb \<longleftrightarrow> HeaderSize \<le> length fb \<and>
     (case ParseHeader (take HeaderSize fb) of Inl _ \<Rightarrow> False | Inr h \<Rightarrow> length fb = HeaderSize + unat (hLength h))"

lemma Decode_framed: "Decode fb = Inr f \<Longrightarrow> framed fb"
  by (auto simp: Decode_def framed_def split: if_splits sum.splits)

text \<open>The reader cuts such a stream where the sender joined it.\<close>

lemma readWire_stream:
  assumes "prefix bs (concat gs)" and "\<forall>g\<in>set gs. framed g"
  shows "readWire bs = ReadMore \<or> (\<exists>h g gs' rest. gs = g # gs' \<and> readWire bs = ReadFrame h g rest)"
proof (cases gs)
  case Nil
  then show ?thesis using assms(1) by (simp add: readWire_def frame_consts)
next
  case (Cons g gs')
  obtain h where g: "HeaderSize \<le> length g" "ParseHeader (take HeaderSize g) = Inr h" "length g = HeaderSize + unat (hLength h)"
    using assms(2) Cons by (auto simp: framed_def split: sum.splits)
  obtain zs where zs: "bs @ zs = g @ concat gs'" using assms(1) Cons by (auto simp: prefix_def)
  have tk: "take n bs = take n g" if "n \<le> length bs" "n \<le> length g" for n
    using arg_cong [OF zs, of "take n"] that by simp
  show ?thesis
  proof (cases "length bs < length g")
    case True
    then show ?thesis using g tk [of HeaderSize] by (auto simp: readWire_def Let_def not_less)
  next
    case False
    then have "take HeaderSize bs = take HeaderSize g" "take (length g) bs = g" using tk g(1) by simp_all
    then show ?thesis using g False Cons by (auto simp: readWire_def Let_def)
  qed
qed

lemma stream_inv:
  assumes "(conn_step cfg)\<^sup>*\<^sup>* (new_conn bs) c" and "0 < MaxInflight cfg" and pre: "prefix bs (concat fs)"
    and fr: "\<forall>f\<in>set fs. framed f"
  shows "prefix (map snd (seen c)) fs \<and> refused c = None"
  using assms(1)
proof (induction rule: rtranclp_induct)
  case base
  then show ?case by (simp add: new_conn_def)
next
  case (step c c')
  obtain gs where gs: "fs = map snd (seen c) @ gs" and none: "refused c = None" using step.IH by (auto simp: prefix_def)
  have "concat (map snd (seen c)) @ input c = bs" using conn_steps_inv [OF step.hyps(1) assms(2)] by (simp add: conn_inv_def)
  then have "prefix (input c) (concat gs)" using pre gs by (auto simp: prefix_def)
  note R = readWire_stream [OF this]
  from step.hyps(2) show ?case
  proof cases
    case (reader ok)
    from R fr gs consider (more) "readWire (input c) = ReadMore"
      | (frame) h g gs' rest where "gs = g # gs'" "readWire (input c) = ReadFrame h g rest" by auto
    then show ?thesis
    proof cases
      case more
      then show ?thesis using reader by (simp add: readStep_def split: if_splits)
    next
      case frame
      then have "c' = stopReading c \<or> refused c' = refused c \<and> seen c' = seen c @ [(fst (frameIdx h c), g)]"
        using reader by (auto simp: readStep_def split: if_splits option.splits bool.splits)
      then show ?thesis using gs frame(1) none step.IH by (auto simp: stopReading_def)
    qed
  next
    case (handler i ack)
    then show ?thesis using step.IH by (simp add: handlerDone_def)
  next
    case (writer ok)
    then have "seen c' = seen c" "refused c' = refused c"
      by (auto simp: writeStep_def split: if_splits option.splits)
    then show ?thesis using step.IH by simp
  next
    case gone
    then show ?thesis using step.IH by (simp add: stopReading_def)
  qed
qed

lemma wire_answers:
  assumes "conn_inv cfg bs c" and "refused c = None"
  shows "int (length (wire c)) = wIdx c" and "k < length (wire c) \<Longrightarrow> answers c (int k) = Some (wire c ! k)"
proof -
  have w: "wire c = in_order c" "0 \<le> wIdx c" using assms by (auto simp: conn_inv_def)
  show len: "int (length (wire c)) = wIdx c" using w by (simp add: in_order_def)
  assume k: "k < length (wire c)"
  then have "answers c (int k) \<noteq> None" using assms(1) len by (auto simp: conn_inv_def)
  then show "answers c (int k) = Some (wire c ! k)" using k w by (auto simp: in_order_def)
qed

text \<open>A connection with a single frame.\<close>

lemma one_frame_read:
  assumes "framed fb" and "0 < MaxInflight cfg"
  shows "\<exists>c. readStep cfg True (new_conn fb) = Some c \<and> seen c = [(0, fb)] \<and> input c = [] \<and> handling c = {0} \<and>
    writing c \<and> wIdx c = 0 \<and> wire c = []"
proof -
  obtain h where h: "HeaderSize \<le> length fb" "ParseHeader (take HeaderSize fb) = Inr h" "length fb = HeaderSize + unat (hLength h)"
    using assms(1) by (auto simp: framed_def split: sum.splits)
  then show ?thesis using assms(2)
    by (simp add: readStep_def readWire_def new_conn_def newConnPipeline_def awaitInflight_def frameIdx_def Let_def)
qed

lemma one_frame_written:
  assumes "writing c" and "wIdx c = 0" and "wire c = []"
  shows "\<exists>c'. writeStep True (handlerDone 0 ack c) = Some c' \<and> wire c' = [ack] \<and> seen c' = seen c \<and> input c' = input c"
  using assms by (simp add: writeStep_def nextResult_def handlerDone_def setResult_def)

lemma one_frame_served:
  assumes "framed fb" and "0 < MaxInflight cfg"
  shows "\<exists>c. (conn_step cfg)\<^sup>*\<^sup>* (new_conn fb) c \<and> wire c = [ack] \<and> map snd (seen c) = [fb]"
proof -
  obtain c where c: "readStep cfg True (new_conn fb) = Some c" "seen c = [(0, fb)]" "handling c = {0}"
    "writing c" "wIdx c = 0" "wire c = []" using one_frame_read [OF assms] by blast
  obtain c' where c': "writeStep True (handlerDone 0 ack c) = Some c'" "wire c' = [ack]" "seen c' = seen c"
    using one_frame_written [OF c(4-6)] by blast
  have s1: "conn_step cfg (new_conn fb) c" by (rule conn_step.reader [OF c(1)])
  have s2: "conn_step cfg c (handlerDone 0 ack c)" by (rule conn_step.handler) (simp add: c(3))
  have s3: "conn_step cfg (handlerDone 0 ack c) c'" by (rule conn_step.writer [OF c'(1)])
  have "(conn_step cfg)\<^sup>*\<^sup>* (new_conn fb) c'"
    by (rule rtranclp.rtrancl_into_rtrancl [OF rtranclp.rtrancl_into_rtrancl [OF r_into_rtranclp [of "conn_step cfg", OF s1] s2] s3])
  then show ?thesis using c(2) c'(2,3) by (intro exI [of _ c']) simp
qed

definition demo_listen :: ServerConfig where
  "demo_listen = \<lparr>Listen = [], ReadTimeout = 0, MaxInflight = 0, MaxConns = 0\<rparr>"

definition demo_server :: ServerConfig where
  "demo_server = NewServer demo_listen"

definition demo_bytes :: bytes where
  "demo_bytes = encodeRaw TypeData 7 [] 0"

lemma NewServer_inflight [simp]: "0 < MaxInflight (NewServer cfg)"
  by (simp add: NewServer_def)

lemma demo_server_inflight: "0 < MaxInflight demo_server"
  by (simp add: demo_server_def)

lemma demo_bytes_framed: "framed demo_bytes"
  using read_putHeader [of _ "[]"]
  by (simp add: framed_def demo_bytes_def encodeRaw_def ParseHeader_def frame_consts Let_def)

section \<open>Properties of the server\<close>

text \<open>
  C12: Answers come back in order: however reader, handlers and writer interleave, when the
  peer sends well-formed frames the k-th byte written back is what the handler returned for the
  k-th frame sent, no frame is answered before it is read, and at most the configured number of
  frames is in flight.
\<close>

theorem answers_in_order:
  assumes "(conn_step cfg)\<^sup>*\<^sup>* (new_conn bs) c" and "0 < MaxInflight cfg" and "prefix bs (concat fs)"
    and "\<forall>f\<in>set fs. framed f"
  shows "length (wire c) \<le> length (seen c) \<and> int (length (seen c)) \<le> int (length (wire c)) + MaxInflight cfg \<and>
    prefix (map snd (seen c)) fs \<and> (\<forall>k < length (wire c). answers c (int k) = Some (wire c ! k))"
proof -
  note inv = conn_steps_inv [OF assms(1,2)] and st = stream_inv [OF assms]
  have "int (length (wire c)) = wIdx c" "wIdx c \<le> rIdx c" "int (length (seen c)) = rIdx c" "rIdx c \<le> wIdx c + MaxInflight cfg"
    using wire_answers(1) [OF inv] st inv by (auto simp: conn_inv_def)
  then show ?thesis using wire_answers(2) [OF inv] st by auto
qed

theorem answers_in_order_witness:
  "\<exists>c. (conn_step demo_server)\<^sup>*\<^sup>* (new_conn demo_bytes) c \<and> wire c = [AckSuccess] \<and>
    map snd (seen c) = [demo_bytes] \<and> answers c 0 = Some AckSuccess"
proof -
  obtain c where c: "(conn_step demo_server)\<^sup>*\<^sup>* (new_conn demo_bytes) c" "wire c = [AckSuccess]" "map snd (seen c) = [demo_bytes]"
    using one_frame_served [OF demo_bytes_framed demo_server_inflight, of AckSuccess] by auto
  have "prefix demo_bytes (concat [demo_bytes])" "\<forall>f\<in>set [demo_bytes]. framed f" using demo_bytes_framed by simp_all
  from answers_in_order [OF c(1) demo_server_inflight this] have "\<forall>k < length (wire c). answers c (int k) = Some (wire c ! k)"
    by blast
  then have "answers c (int 0) = Some (wire c ! 0)" using c(2) by (metis length_Cons zero_less_Suc)
  then have "answers c 0 = Some AckSuccess" using c(2) by simp
  then show ?thesis using c by (intro exI [of _ c]) simp
qed

end
