(* ===== verification/Go_Float.thy ===== *)
theory Go_Float
  imports Go_Text Complex_Main
begin

text \<open>
  What the sources use of Go's \<^verbatim>\<open>float64\<close>: rounding to the nearest double with ties to
  even, \<^verbatim>\<open>strconv.ParseFloat\<close> on decimal numbers, and \<^verbatim>\<open>strconv.FormatFloat\<close>
  with format \<^verbatim>\<open>'f'\<close>, shortest or with a fixed number of decimals. A finite double is its
  sign and its magnitude as a rational number; the sign of zero is kept because it is printed.
\<close>

section \<open>Rounding\<close>

text \<open>To the nearest integer, ties to even.\<close>

definition rne :: "rat \<Rightarrow> int" where
  "rne x = (let f = \<lfloor>x\<rfloor>; d = x - of_int f in
     if d < 1 / 2 then f else if 1 / 2 < d then f + 1 else if even f then f else f + 1)"

fun bits :: "nat \<Rightarrow> nat" where
  "bits n = (if n = 0 then 0 else Suc (bits (n div 2)))"

declare bits.simps [simp del]

text \<open>The binary exponent of a positive rational.\<close>

definition expo :: "rat \<Rightarrow> int" where
  "expo q = (case quotient_of q of (a, b) \<Rightarrow>
     let k = int (bits (nat a)) - int (bits (nat b)) in if q < 2 powi k then k - 1 else k)"

text \<open>The nearest double, were there no largest one; \<open>fin\<close> adds the infinities.\<close>

definition ulp_exp :: "rat \<Rightarrow> int" where
  "ulp_exp q = max (expo q - 52) (- 1074)"

definition rnd :: "rat \<Rightarrow> rat" where
  "rnd q = (if q = 0 then 0 else of_int (rne (q / 2 powi ulp_exp q)) * 2 powi ulp_exp q)"

datatype float64 = Fin bool rat | Inf bool

definition fin :: "bool \<Rightarrow> rat \<Rightarrow> float64" where
  "fin neg q = (if rnd q \<ge> 2 ^ 1024 then Inf neg else Fin neg (rnd q))"

fun f64_scale :: "nat \<Rightarrow> float64 \<Rightarrow> float64" where
  "f64_scale n (Fin neg a) = fin neg (a * of_nat n)"
| "f64_scale n (Inf neg) = Inf neg"

text \<open>Conversion of an integer, and division by a positive integer.\<close>

definition f64_of_int :: "int \<Rightarrow> float64" where
  "f64_of_int n = fin (n < 0) (of_int \<bar>n\<bar>)"

fun f64_div :: "float64 \<Rightarrow> nat \<Rightarrow> float64" where
  "f64_div (Fin neg a) n = fin neg (a / of_nat n)"
| "f64_div (Inf neg) n = Inf neg"

section \<open>Numbers as text\<close>

text \<open>
  \<^verbatim>\<open>ParseFloat\<close> on a text of signs, points and digits; a number that rounds to an infinity
  is an error.
\<close>

definition ParseFloat :: "bytes \<Rightarrow> float64 option" where
  "ParseFloat s =
     (let neg = (s \<noteq> [] \<and> hd s = 45);
          t = (if s \<noteq> [] \<and> (hd s = 45 \<or> hd s = 43) then tl s else s);
          ip = takeWhile is_digit t; r = dropWhile is_digit t;
          fp = (if r \<noteq> [] \<and> hd r = 46 then tl r else r)
      in if (r \<noteq> [] \<and> hd r \<noteq> 46) \<or> \<not> list_all is_digit fp \<or> ip @ fp = [] then None
         else (case fin neg (of_int (digits_val (ip @ fp)) / 10 ^ length fp) of
                 Inf _ \<Rightarrow> None
               | x \<Rightarrow> Some x))"

definition pad :: "nat \<Rightarrow> bytes \<Rightarrow> bytes" where
  "pad w ds = replicate (w - length ds) 48 @ ds"

text \<open>The decimal \<open>n * 10 ^ e\<close>.\<close>

definition fmt_f :: "nat \<Rightarrow> int \<Rightarrow> bytes" where
  "fmt_f n e =
     (if e \<ge> 0 then (if n = 0 then dec_digits 0 else dec_digits n @ replicate (nat e) 48)
      else let w = nat (- e) in dec_digits (n div 10 ^ w) @ 46 # pad w (dec_digits (n mod 10 ^ w)))"

fun lead_zeros :: "nat \<Rightarrow> rat \<Rightarrow> nat" where
  "lead_zeros 0 a = 0"
| "lead_zeros (Suc k) a = (if a * 10 \<ge> 1 then 0 else Suc (lead_zeros k (a * 10)))"

text \<open>The number of digits before the point, negative for leading zeros behind it.\<close>

definition dec_exp :: "rat \<Rightarrow> int" where
  "dec_exp a = (if a \<ge> 1 then int (length (dec_digits (nat \<lfloor>a\<rfloor>))) else - int (lead_zeros 330 a))"

text \<open>The multiple of \<open>u\<close> nearest to \<open>a\<close> among those that are read back as \<open>a\<close>.\<close>

definition pick :: "rat \<Rightarrow> rat \<Rightarrow> int option" where
  "pick a u =
     (let lo = \<lfloor>a / u\<rfloor>; l = (rnd (of_int lo * u) = a); h = (rnd (of_int (lo + 1) * u) = a);
          dl = a - of_int lo * u; dh = of_int (lo + 1) * u - a
      in if l \<and> (\<not> h \<or> dl < dh \<or> dl = dh \<and> even lo) then Some lo
         else if h then Some (lo + 1) else None)"

definition shortest :: "rat \<Rightarrow> nat \<times> int" where
  "shortest a =
     (case find (\<lambda>k. pick a (10 powi (dec_exp a - int k)) \<noteq> None) [1..<18] of
        None \<Rightarrow> (nat \<lfloor>a\<rfloor>, 0)
      | Some k \<Rightarrow> (nat (the (pick a (10 powi (dec_exp a - int k)))), dec_exp a - int k))"

definition sign_text :: "bool \<Rightarrow> bytes" where
  "sign_text neg = (if neg then [45] else [])"

text \<open>\<^verbatim>\<open>FormatFloat(x, 'f', -1, 64)\<close> and \<^verbatim>\<open>FormatFloat(x, 'f', prec, 64)\<close>.\<close>

fun FormatShortest :: "float64 \<Rightarrow> bytes" where
  "FormatShortest (Fin neg a) = sign_text neg @ (if a = 0 then dec_digits 0 else fmt_f (fst (shortest a)) (snd (shortest a)))"
| "FormatShortest (Inf neg) = str (if neg then ''-Inf'' else ''+Inf'')"

fun FormatFixed :: "nat \<Rightarrow> float64 \<Rightarrow> bytes" where
  "FormatFixed prec (Fin neg a) = sign_text neg @ fmt_f (nat (rne (a * 10 ^ prec))) (- int prec)"
| "FormatFixed prec (Inf neg) = str (if neg then ''-Inf'' else ''+Inf'')"

section \<open>Rounding is exact on small integers and close everywhere\<close>

lemma rne_near: "\<bar>of_int (rne x) - x\<bar> \<le> 1 / 2"
proof -
  have "of_int \<lfloor>x\<rfloor> \<le> x" "x < of_int \<lfloor>x\<rfloor> + 1" by linarith+
  then show ?thesis by (auto simp: rne_def Let_def abs_le_iff)
qed

lemma rne_unique: "\<bar>x - of_int n\<bar> < 1 / 2 \<Longrightarrow> rne x = n"
proof -
  assume "\<bar>x - of_int n\<bar> < 1 / 2"
  with rne_near [of x] have "\<bar>of_int (rne x) - of_int n\<bar> < (1 :: rat)" by linarith
  then have "\<bar>rne x - n\<bar> < 1" by (metis of_int_abs of_int_diff of_int_less_1_iff)
  then show ?thesis by simp
qed

lemma rne_int [simp]: "rne (of_int n) = n"
  by (rule rne_unique) simp

lemma rne_ge: "of_int n \<le> x \<Longrightarrow> n \<le> rne x"
proof -
  assume "of_int n \<le> x"
  then have "n \<le> \<lfloor>x\<rfloor>" by (simp add: le_floor_iff)
  moreover have "\<lfloor>x\<rfloor> \<le> rne x" by (simp add: rne_def Let_def)
  ultimately show ?thesis by simp
qed

lemma bits_bounds: "0 < n \<Longrightarrow> 2 ^ (bits n - 1) \<le> n \<and> n < 2 ^ bits n \<and> 0 < bits n"
proof (induction n rule: bits.induct)
  case (1 n)
  have b: "bits n = Suc (bits (n div 2))" using 1(2) by (subst bits.simps) simp
  show ?case
  proof (cases "n div 2 = 0")
    case True
    then have "n = 1" using 1(2) by (simp add: div_eq_0_iff)
    then show ?thesis using b True by (simp add: bits.simps [of 0])
  next
    case False
    then have h: "2 ^ (bits (n div 2) - 1) \<le> n div 2" "n div 2 < 2 ^ bits (n div 2)" "0 < bits (n div 2)"
      using 1 by auto
    have "2 * (n div 2) \<le> n" "n < 2 * (n div 2) + 2" by linarith+
    moreover have "(2 :: nat) ^ bits (n div 2) = 2 * 2 ^ (bits (n div 2) - 1)"
      using h(3) by (cases "bits (n div 2)") simp_all
    ultimately show ?thesis using h b by simp linarith
  qed
qed

lemma expo_bounds:
  assumes "0 < q"
  shows "2 powi expo q \<le> q" and "q < 2 powi (expo q + 1)"
proof -
  obtain a b where ab: "quotient_of q = (a, b)" by fastforce
  have b0: "0 < b" using quotient_of_denom_pos [OF ab] .
  have q: "q = of_int a / of_int b" using quotient_of_div [OF ab] .
  have a0: "0 < a" using assms q b0 by (simp add: zero_less_divide_iff)
  define m n where "m = nat a" and "n = nat b"
  have mn: "q = of_nat m / of_nat n" "0 < m" "0 < n" using q a0 b0 by (simp_all add: m_def n_def of_nat_nat)
  let ?i = "int (bits m)" and ?j = "int (bits n)"
  note M = bits_bounds [OF mn(2)] and N = bits_bounds [OF mn(3)]
  have "(of_nat m :: rat) < of_nat (2 ^ bits m)" "(of_nat n :: rat) < of_nat (2 ^ bits n)"
    using M N by (simp_all only: of_nat_less_iff)
  then have up: "of_nat m < (2 :: rat) powi ?i" "of_nat n < (2 :: rat) powi ?j"
    by (simp_all add: power_int_def)
  have "(of_nat (2 ^ (bits m - 1)) :: rat) \<le> of_nat m" "(of_nat (2 ^ (bits n - 1)) :: rat) \<le> of_nat n"
    using M N by (simp_all only: of_nat_le_iff)
  then have lo: "(2 :: rat) powi (?i - 1) \<le> of_nat m" "(2 :: rat) powi (?j - 1) \<le> of_nat n"
    using M N by (simp_all add: power_int_def nat_diff_distrib)
  have "q < 2 powi ?i / 2 powi (?j - 1)"
    unfolding mn(1) using up lo mn(3) by (intro frac_less) (simp_all add: zero_less_power_int)
  then have hi: "q < 2 powi (?i - ?j + 1)" by (simp add: power_int_diff power_int_add field_simps)
  have "2 powi (?i - 1) / 2 powi ?j < q"
    unfolding mn(1) using up lo mn(2,3) by (intro frac_less2) (simp_all add: zero_less_power_int)
  then have low: "2 powi (?i - ?j - 1) < q" by (simp add: power_int_diff power_int_add field_simps)
  have e: "expo q = (if q < 2 powi (?i - ?j) then ?i - ?j - 1 else ?i - ?j)"
    by (simp add: expo_def ab m_def n_def Let_def)
  show "2 powi expo q \<le> q" using low by (simp add: e)
  show "q < 2 powi (expo q + 1)" using hi by (simp add: e)
qed

lemma expo_less:
  assumes "0 < q" and "q < 2 powi k"
  shows "expo q < k"
proof (rule ccontr)
  assume "\<not> expo q < k"
  then have "(2 :: rat) powi k \<le> 2 powi expo q" by (intro power_int_increasing) simp_all
  then show False using expo_bounds(1) [OF assms(1)] assms(2) by simp
qed

lemma expo_ge:
  assumes "2 powi k \<le> q"
  shows "k \<le> expo q"
proof (rule ccontr)
  assume "\<not> k \<le> expo q"
  then have "(2 :: rat) powi (expo q + 1) \<le> 2 powi k" by (intro power_int_increasing) simp_all
  moreover have "0 < q" using assms zero_less_power_int [of "2 :: rat" k] by linarith
  ultimately show False using expo_bounds(2) [of q] assms by simp
qed

text \<open>Integers below \<open>2 ^ 53\<close> are doubles.\<close>

lemma rnd_nat:
  assumes "n < 2 ^ 53"
  shows "rnd (of_nat n) = of_nat n"
proof (cases "n = 0")
  case True
  then show ?thesis by (simp add: rnd_def)
next
  case False
  have "(of_nat n :: rat) < of_nat (2 ^ 53)" using assms by (simp only: of_nat_less_iff)
  then have "(of_nat n :: rat) < 2 powi 53" by (simp add: power_int_def)
  then have "expo (of_nat n) < 53" using False by (intro expo_less) simp_all
  moreover have "0 \<le> expo (of_nat n)" using False by (intro expo_ge) (simp add: Suc_le_eq)
  ultimately have u: "ulp_exp (of_nat n) \<le> 0" "- 1074 \<le> ulp_exp (of_nat n)" by (simp_all add: ulp_exp_def)
  let ?k = "nat (- ulp_exp (of_nat n))"
  have p: "(2 :: rat) powi ulp_exp (of_nat n) = 1 / 2 ^ ?k" using u by (simp add: power_int_def field_simps)
  have "of_nat n / (2 :: rat) powi ulp_exp (of_nat n) = of_int (int n * 2 ^ ?k)" by (simp add: p)
  then have "rne (of_nat n / 2 powi ulp_exp (of_nat n)) = int n * 2 ^ ?k" by (simp only: rne_int)
  then show ?thesis using False by (simp add: rnd_def p)
qed

lemma powi_52: "(2 :: rat) powi (e - 52) = 2 powi e / 2 ^ 52"
  by (simp add: power_int_diff)

lemma rnd_large:
  assumes "2 ^ 53 \<le> q"
  shows "2 ^ 53 \<le> rnd q"
proof -
  have q: "2 powi 53 \<le> q" "0 < q" using assms by (simp_all add: power_int_def)
  then have e: "53 \<le> expo q" by (intro expo_ge)
  then have u: "ulp_exp q = expo q - 52" by (simp add: ulp_exp_def)
  have "of_int (2 ^ 52) * 2 powi (expo q - 52) = (2 :: rat) powi expo q"
    by (simp add: powi_52)
  then have "of_int (2 ^ 52) \<le> q / 2 powi ulp_exp q" using expo_bounds(1) [OF q(2)] u by (simp add: le_divide_eq)
  then have "2 ^ 52 \<le> rne (q / 2 powi ulp_exp q)" by (rule rne_ge)
  then have "of_int (2 ^ 52) * 2 powi ulp_exp q \<le> rnd q"
    using q(2) unfolding rnd_def by (simp add: mult_right_mono del: of_int_power of_int_numeral)
  moreover have "(2 :: rat) powi 53 \<le> 2 powi expo q" using e by (intro power_int_increasing) simp_all
  ultimately show ?thesis using \<open>of_int (2 ^ 52) * 2 powi (expo q - 52) = (2 :: rat) powi expo q\<close> u
    by (simp add: power_int_def)
qed

text \<open>The error of rounding is at most half a unit of the last of 53 digits.\<close>

lemma rnd_error:
  assumes "0 < q" and "2 powi (- 1022) \<le> q"
  shows "\<bar>rnd q - q\<bar> \<le> q / 2 ^ 53"
proof -
  have "- 1022 \<le> expo q" by (rule expo_ge [OF assms(2)])
  then have u: "ulp_exp q = expo q - 52" by (simp add: ulp_exp_def)
  let ?u = "(2 :: rat) powi ulp_exp q"
  have pos: "0 < ?u" by (simp add: zero_less_power_int)
  have "\<bar>of_int (rne (q / ?u)) - q / ?u\<bar> * ?u \<le> 1 / 2 * ?u" using rne_near pos by (intro mult_right_mono) simp_all
  moreover have "\<bar>of_int (rne (q / ?u)) - q / ?u\<bar> * ?u = \<bar>rnd q - q\<bar>"
    using pos assms(1) by (simp add: rnd_def abs_mult_pos field_simps flip: abs_mult)
  moreover have "1 / 2 * ?u = 2 powi expo q / 2 ^ 53" by (simp add: u powi_52)
  ultimately show ?thesis using expo_bounds(1) [OF assms(1)] by (simp add: divide_right_mono order_trans)
qed

section \<open>Integers as text\<close>

lemma dec_digits_shift: "0 < n \<Longrightarrow> dec_digits (n * 10 ^ j) = dec_digits n @ replicate j 48"
proof (induction j)
  case (Suc j)
  have "10 \<le> n * 10 ^ Suc j" using Suc.prems by (simp add: Suc_le_eq)
  then have "dec_digits (n * 10 ^ Suc j) = dec_digits (n * 10 ^ j) @ [48]"
    by (subst dec_digits.simps) (simp add: mult.left_commute)
  then show ?case using Suc by (simp add: replicate_append_same)
qed simp

lemma length_dec_digits: "0 < n \<Longrightarrow> 10 ^ (length (dec_digits n) - 1) \<le> n \<and> n < 10 ^ length (dec_digits n)"
proof (induction n rule: dec_digits.induct)
  case (1 n)
  show ?case
  proof (cases "n < 10")
    case True
    then show ?thesis using 1(2) by (simp add: dec_digits.simps [of n])
  next
    case False
    have d: "dec_digits n = dec_digits (n div 10) @ [48 + word_of_nat (n mod 10)]" using False by (simp add: dec_digits.simps [of n])
    let ?l = "length (dec_digits (n div 10))"
    have "10 ^ (?l - 1) \<le> n div 10" "n div 10 < 10 ^ ?l" using 1(1) False by auto
    moreover have "10 * (n div 10) \<le> n" "n < 10 * (n div 10) + 10" by linarith+
    moreover have "?l = Suc (?l - 1)" using dec_digits_digits [of "n div 10"] by (cases "dec_digits (n div 10)") auto
    then have "(10 :: nat) ^ ?l = 10 * 10 ^ (?l - 1)" by (metis power_Suc)
    ultimately show ?thesis unfolding d by simp linarith
  qed
qed

lemma length_dec_le:
  assumes "n < 10 ^ k" and "0 < k"
  shows "length (dec_digits n) \<le> k"
proof (cases "n = 0")
  case True
  then show ?thesis using assms(2) by (simp add: dec_digits.simps)
next
  case False
  then have "10 ^ (length (dec_digits n) - 1) \<le> n" using length_dec_digits by simp
  then have "(10 :: nat) ^ (length (dec_digits n) - 1) < 10 ^ k" using assms(1) by (rule order.strict_trans1)
  then have "length (dec_digits n) - 1 < k" by (rule power_less_imp_less_exp [rotated]) simp
  then show ?thesis by simp
qed

text \<open>What is read back as a small integer is that integer.\<close>

lemma rnd_eq_nat:
  assumes "rnd (of_int c) = of_nat n" and "0 \<le> c" and "n < 2 ^ 53"
  shows "c = int n"
proof (cases "c < 2 ^ 53")
  case True
  have c: "of_int c = (of_nat (nat c) :: rat)" using assms(2) by (simp add: of_nat_nat)
  have "nat c < 2 ^ 53" using True assms(2) by (simp add: nat_less_iff)
  then have "rnd (of_int c) = of_nat (nat c)" unfolding c by (rule rnd_nat)
  then show ?thesis using assms(1,2) by (metis int_nat_eq of_nat_eq_iff)
next
  case False
  then have "of_int (2 ^ 53) \<le> (of_int c :: rat)" by (simp only: of_int_le_iff not_less)
  then have "2 ^ 53 \<le> rnd (of_int c)" by (intro rnd_large) simp
  then have "(of_nat (2 ^ 53) :: rat) \<le> of_nat n" using assms(1) by simp
  then show ?thesis using assms(3) by (simp only: of_nat_le_iff)
qed

lemma pick_nat:
  assumes "pick (of_nat n) (10 ^ j) = Some c" and "n < 2 ^ 53"
  shows "0 \<le> c" and "c * 10 ^ j = int n"
proof -
  let ?lo = "\<lfloor>of_nat n / (10 :: rat) ^ j\<rfloor>"
  have lo: "0 \<le> ?lo" by simp
  have c: "(c = ?lo \<or> c = ?lo + 1) \<and> rnd (of_int c * 10 ^ j) = of_nat n"
    using assms(1) by (auto simp: pick_def Let_def split: if_splits)
  then show "0 \<le> c" using lo by auto
  have "rnd (of_int (c * 10 ^ j)) = of_nat n" using c by simp
  then show "c * 10 ^ j = int n" using \<open>0 \<le> c\<close> assms(2) by (intro rnd_eq_nat) simp_all
qed

lemma pick_exact:
  assumes "n < 2 ^ 53"
  shows "pick (of_nat n) 1 = Some (int n)"
  using rnd_nat [OF assms] by (simp add: pick_def Let_def)

lemma FormatShortest_nat:
  assumes "n < 2 ^ 53"
  shows "FormatShortest (Fin False (of_nat n)) = dec_digits n"
proof (cases "n = 0")
  case True
  then show ?thesis by (simp add: sign_text_def)
next
  case False
  let ?p = "length (dec_digits n)" and ?P = "\<lambda>k. pick (of_nat n) (10 powi (int (length (dec_digits n)) - int k)) \<noteq> None"
  have p: "dec_exp (of_nat n) = int ?p" using False by (simp add: dec_exp_def)
  have "(2 :: nat) ^ 53 < 10 ^ 17" by simp
  then have p17: "?p \<le> 17" "1 \<le> ?p" using assms length_dec_le [of n 17] dec_digits_digits [of n]
    by (auto simp: Suc_le_eq)
  have "?P ?p" using pick_exact [OF assms] by simp
  moreover have "?p \<in> set [1..<18]" using p17 by auto
  ultimately have "find ?P [1..<18] \<noteq> None" unfolding find_None_iff by blast
  then obtain k where k: "find ?P [1..<18] = Some k" by blast
  have "k \<le> ?p"
  proof (rule ccontr)
    assume "\<not> k \<le> ?p"
    obtain i where i: "i < 17" "k = Suc i" "\<forall>j<i. \<not> ?P (Suc j)" using k by (auto simp: find_Some_iff)
    then have "?p - 1 < i" using \<open>\<not> k \<le> ?p\<close> p17 by linarith
    then have "\<not> ?P (Suc (?p - 1))" using i(3) by blast
    then show False using pick_exact [OF assms] p17(2) by simp
  qed
  then have e: "(10 :: rat) powi (int ?p - int k) = 10 ^ (?p - k)" by (simp add: power_int_def nat_diff_distrib)
  obtain c where c: "pick (of_nat n) (10 ^ (?p - k)) = Some c" using k e by (auto simp: find_Some_iff)
  note C = pick_nat [OF c assms]
  have sh: "shortest (of_nat n) = (nat c, int (?p - k))"
    using k c e \<open>k \<le> ?p\<close> by (simp add: shortest_def p of_nat_diff)
  have "0 < c" using C False by (cases "c = 0") auto
  have "nat c * 10 ^ (?p - k) = n" using C by (metis nat_int nat_mult_distrib nat_power_eq of_nat_numeral zero_le_numeral)
  then have "dec_digits n = dec_digits (nat c) @ replicate (?p - k) 48" using dec_digits_shift [of "nat c" "?p - k"] \<open>0 < c\<close> by simp
  then show ?thesis using False \<open>0 < c\<close> by (simp add: sh sign_text_def fmt_f_def)
qed

lemma ParseFloat_nat:
  assumes "n < 2 ^ 53"
  shows "ParseFloat (dec_digits n) = Some (Fin False (of_nat n))"
proof -
  have d: "list_all is_digit (dec_digits n)" "dec_digits n \<noteq> []" using dec_digits_digits by simp_all
  then have hd: "hd (dec_digits n) \<noteq> 45" "hd (dec_digits n) \<noteq> 43" using digit_not_sign by (cases "dec_digits n"; auto)+
  have tw: "takeWhile is_digit (dec_digits n) = dec_digits n" "dropWhile is_digit (dec_digits n) = []"
    using d(1) by (auto simp: list_all_iff)
  have "(of_nat n :: rat) < of_nat (2 ^ 53)" using assms by (simp only: of_nat_less_iff)
  then have "\<not> (2 :: rat) ^ 1024 \<le> of_nat n"
    using power_increasing [of 53 1024 "2 :: rat"] by (simp only: of_nat_power of_nat_numeral) linarith
  then show ?thesis using d(2) hd rnd_nat [OF assms]
    by (simp add: ParseFloat_def Let_def tw d(1) digits_val_dec fin_def list_all_iff [symmetric] del: of_nat_power of_nat_le_of_nat_power_cancel_iff)
qed

section \<open>Fixed-point texts are exact\<close>

text \<open>The value of a decimal text with a point.\<close>

definition dec_value :: "bytes \<Rightarrow> rat option" where
  "dec_value s =
     (let neg = (s \<noteq> [] \<and> hd s = 45); t = (if neg then tl s else s);
          ip = takeWhile is_digit t; r = dropWhile is_digit t
      in if ip = [] \<or> r = [] \<or> hd r \<noteq> 46 \<or> tl r = [] \<or> \<not> list_all is_digit (tl r) then None
         else Some ((if neg then -1 else 1) * of_int (digits_val (ip @ tl r)) / 10 ^ length (tl r)))"

lemma foldl_digits: "foldl (\<lambda>a d. a * 10 + (uint d - 48)) x ds = x * 10 ^ length ds + digits_val ds" for ds :: bytes
proof (induction ds rule: rev_induct)
  case (snoc d ds)
  then show ?case by (simp add: digits_val_append algebra_simps)
qed (simp add: digits_val_def)

lemma digits_val_concat: "digits_val (xs @ ys) = digits_val xs * 10 ^ length ys + digits_val ys"
  using foldl_digits [of "digits_val xs" ys] by (simp add: digits_val_def)

lemma digits_val_zeros [simp]: "digits_val (replicate k 48) = 0"
  by (induction k) (simp_all add: digits_val_def)

lemma pad_digits:
  assumes "m < 10 ^ w" and "0 < w"
  shows "length (pad w (dec_digits m)) = w" "list_all is_digit (pad w (dec_digits m))" "digits_val (pad w (dec_digits m)) = int m"
proof -
  have "is_digit 48" by (simp add: is_digit_def)
  then show "list_all is_digit (pad w (dec_digits m))" using dec_digits_digits [of m] by (auto simp: pad_def list_all_iff)
  show "length (pad w (dec_digits m)) = w" using length_dec_le [OF assms] by (simp add: pad_def)
  show "digits_val (pad w (dec_digits m)) = int m" by (simp add: pad_def digits_val_concat digits_val_dec)
qed

lemma fmt_f_value:
  assumes "0 < w"
  shows "dec_value (sign_text neg @ fmt_f n (- int w)) = Some ((if neg then -1 else 1) * of_nat n / 10 ^ w)"
proof -
  let ?ip = "dec_digits (n div 10 ^ w)" and ?fp = "pad w (dec_digits (n mod 10 ^ w))"
  have m: "n mod 10 ^ w < 10 ^ w" by simp
  note P = pad_digits [OF m assms]
  have t: "fmt_f n (- int w) = ?ip @ 46 # ?fp" using assms by (simp add: fmt_f_def Let_def)
  have d: "list_all is_digit ?ip" "?ip \<noteq> []" using dec_digits_digits by simp_all
  then have "hd ?ip \<noteq> 45" using digit_not_sign by (cases ?ip) auto
  then have neg: "(s \<noteq> [] \<and> hd s = 45) = neg" "(if neg then tl s else s) = ?ip @ 46 # ?fp"
    if "s = sign_text neg @ ?ip @ 46 # ?fp" for s
    using d(2) that by (simp_all add: sign_text_def)
  have tw: "takeWhile is_digit (?ip @ 46 # ?fp) = ?ip" "dropWhile is_digit (?ip @ 46 # ?fp) = 46 # ?fp"
    using d(1) by (auto simp: list_all_iff takeWhile_append dropWhile_append is_digit_def)
  have "int (n div 10 ^ w * 10 ^ w + n mod 10 ^ w) = int n" by (simp only: div_mult_mod_eq)
  then have "int (n div 10 ^ w) * 10 ^ w + int (n mod 10 ^ w) = int n"
    by (simp only: of_nat_add of_nat_mult of_nat_power of_nat_numeral)
  then have v: "digits_val (?ip @ ?fp) = int n" using P by (simp add: digits_val_concat digits_val_dec)
  have "?fp \<noteq> []" using P(1) assms by auto
  then show ?thesis unfolding dec_value_def t Let_def neg [OF refl] tw list.sel v P(1) using d(2) P(2) by simp
qed

lemma f64_of_int_small:
  assumes "\<bar>t\<bar> < 2 ^ 53"
  shows "f64_of_int t = Fin (t < 0) (of_int \<bar>t\<bar>)"
proof -
  have "of_int \<bar>t\<bar> = (of_nat (nat \<bar>t\<bar>) :: rat)" by (simp only: of_nat_nat abs_ge_zero)
  moreover have "nat \<bar>t\<bar> < 2 ^ 53" using assms by (simp add: nat_less_iff)
  ultimately have "rnd (of_int \<bar>t\<bar>) = of_int \<bar>t\<bar>" using rnd_nat [of "nat \<bar>t\<bar>"] by (simp only:)
  moreover have "(of_int \<bar>t\<bar> :: rat) < of_int (2 ^ 53)" using assms by (simp only: of_int_less_iff)
  then have "\<not> (2 :: rat) ^ 1024 \<le> of_int \<bar>t\<bar>"
    using power_increasing [of 53 1024 "2 :: rat"] by (simp only: of_int_power of_int_numeral) linarith
  ultimately show ?thesis by (simp only: f64_of_int_def fin_def if_False)
qed

lemma FormatFixed_div:
  assumes "\<bar>t\<bar> * 10 ^ k < 2 ^ 52" and "j \<le> 12"
  shows "FormatFixed (j + k) (f64_div (f64_of_int t) (10 ^ j)) = sign_text (t < 0) @ fmt_f (nat \<bar>t\<bar> * 10 ^ k) (- int (j + k))"
proof -
  let ?q = "(of_int \<bar>t\<bar> :: rat) / 10 ^ j"
  have small: "(of_int (\<bar>t\<bar> * 10 ^ k) :: rat) < of_int (2 ^ 52)" using assms(1) by (simp only: of_int_less_iff)
  have "\<bar>t\<bar> * 1 \<le> \<bar>t\<bar> * 10 ^ k" by (intro mult_left_mono) simp_all
  then have t: "\<bar>t\<bar> < 2 ^ 52" using assms(1) by linarith
  then have m: "(of_int \<bar>t\<bar> :: rat) < of_int (2 ^ 52)" by (simp only: of_int_less_iff)
  have j: "(10 :: rat) ^ j \<le> 10 ^ 12" using assms(2) by (intro power_increasing) simp_all
  have q1: "?q \<le> of_int \<bar>t\<bar>" by (simp add: divide_le_eq mult_le_cancel_left1)
  have err: "\<bar>rnd ?q - ?q\<bar> \<le> ?q / 2 ^ 53"
  proof (cases "t = 0")
    case True
    then show ?thesis by (simp add: rnd_def)
  next
    case False
    then have "(1 :: rat) \<le> of_int \<bar>t\<bar>" by simp
    then have "1 / 10 ^ 12 \<le> ?q" using j by (intro frac_le) simp_all
    moreover have "(2 :: rat) powi (- 1022) \<le> 2 powi (- 40)" by (rule power_int_increasing) simp_all
    moreover have "(2 :: rat) powi (- 40) \<le> 1 / 10 ^ 12" by (simp add: power_int_def power_one_over)
    ultimately have "2 powi (- 1022) \<le> ?q" by linarith
    moreover have "0 < ?q" using False by simp
    ultimately show ?thesis by (intro rnd_error)
  qed
  have "?q / 2 ^ 53 \<le> ?q" by (simp add: divide_le_eq)
  then have "rnd ?q \<le> 2 * ?q" using err by linarith
  also have "\<dots> < 2 ^ 53" using m q1 by simp
  finally have "\<not> (2 :: rat) ^ 1024 \<le> rnd ?q" using power_increasing [of 53 1024 "2 :: rat"] by linarith
  then have f: "f64_div (f64_of_int t) (10 ^ j) = Fin (t < 0) (rnd ?q)"
    using f64_of_int_small [of t] t by (simp add: fin_def)
  have e: "?q * 10 ^ (j + k) = of_int (\<bar>t\<bar> * 10 ^ k)" by (simp add: power_add)
  have "\<bar>rnd ?q - ?q\<bar> * 10 ^ (j + k) \<le> ?q / 2 ^ 53 * 10 ^ (j + k)" using err by (intro mult_right_mono) simp_all
  also have "\<dots> = of_int (\<bar>t\<bar> * 10 ^ k) / 2 ^ 53" unfolding e [symmetric] by simp
  also have "\<dots> < 1 / 2" using small by simp
  finally have "\<bar>(rnd ?q - ?q) * 10 ^ (j + k)\<bar> < 1 / 2" by (simp only: abs_mult power_abs abs_numeral)
  then have "\<bar>rnd ?q * 10 ^ (j + k) - ?q * 10 ^ (j + k)\<bar> < 1 / 2" by (simp only: left_diff_distrib)
  then have "rne (rnd ?q * 10 ^ (j + k)) = \<bar>t\<bar> * 10 ^ k" unfolding e by (rule rne_unique)
  then show ?thesis by (simp add: f nat_mult_distrib nat_power_eq)
qed

lemma FormatFixed_value:
  assumes "\<bar>t\<bar> * 10 ^ k < 2 ^ 52" and "j \<le> 12" and "0 < j + k"
  shows "dec_value (FormatFixed (j + k) (f64_div (f64_of_int t) (10 ^ j))) = Some (of_int t / 10 ^ j)"
proof -
  have "dec_value (FormatFixed (j + k) (f64_div (f64_of_int t) (10 ^ j))) =
    Some ((if t < 0 then -1 else 1) * of_nat (nat \<bar>t\<bar> * 10 ^ k) / 10 ^ (j + k))"
    unfolding FormatFixed_div [OF assms(1,2)] by (rule fmt_f_value [OF assms(3)])
  then show ?thesis by (simp add: abs_if power_add)
qed

section \<open>Rounding is monotone\<close>

lemma rne_mono: "x \<le> y \<Longrightarrow> rne x \<le> rne y"
proof -
  assume le: "x \<le> y"
  show "rne x \<le> rne y"
  proof (cases "\<lfloor>x\<rfloor> = \<lfloor>y\<rfloor>")
    case True
    then show ?thesis using le by (auto simp: rne_def Let_def)
  next
    case False
    then have "\<lfloor>x\<rfloor> + 1 \<le> \<lfloor>y\<rfloor>" using floor_mono [OF le] by simp
    moreover have "rne x \<le> \<lfloor>x\<rfloor> + 1" "\<lfloor>y\<rfloor> \<le> rne y" by (simp_all add: rne_def Let_def)
    ultimately show ?thesis by simp
  qed
qed

lemma rnd_nonneg: "0 \<le> q \<Longrightarrow> 0 \<le> rnd q"
  using rne_ge [of 0 "q / 2 powi ulp_exp q"] by (simp add: rnd_def zero_le_power_int)

lemma expo_mono: "0 < q \<Longrightarrow> q \<le> r \<Longrightarrow> expo q \<le> expo r"
  using expo_bounds(1) [of q] by (intro expo_ge) linarith

lemma powi_split:
  assumes "u \<le> k"
  shows "(2 :: rat) powi k = of_int (2 ^ nat (k - u)) * 2 powi u"
proof -
  have "(2 :: rat) powi (k - u + u) = 2 powi (k - u) * 2 powi u" by (intro power_int_add) simp
  moreover have "(2 :: rat) powi (k - u) = 2 ^ nat (k - u)" using assms by (simp only: power_int_def) simp
  ultimately show ?thesis by simp
qed

text \<open>A power of two that is a multiple of the unit bounds the rounded value as it bounds the value.\<close>

lemma rnd_le_power:
  assumes "0 < q" and "q \<le> 2 powi k" and "ulp_exp q \<le> k"
  shows "rnd q \<le> 2 powi k"
proof -
  let ?u = "ulp_exp q"
  have e: "(2 :: rat) powi k = of_int (2 ^ nat (k - ?u)) * 2 powi ?u"
    by (rule powi_split [OF assms(3)])
  have pos: "(0 :: rat) < 2 powi ?u" by (simp add: zero_less_power_int)
  then have "q / 2 powi ?u \<le> of_int (2 ^ nat (k - ?u))" using assms(2) e by (simp add: divide_le_eq)
  then have "rne (q / 2 powi ?u) \<le> 2 ^ nat (k - ?u)" using rne_mono [of "q / 2 powi ?u" "of_int (2 ^ nat (k - ?u))"] by (simp only: rne_int)
  then have "(of_int (rne (q / 2 powi ?u)) :: rat) \<le> of_int (2 ^ nat (k - ?u))" by (simp only: of_int_le_iff)
  then show ?thesis using pos assms(1) unfolding rnd_def e by (simp add: mult_right_mono del: of_int_power)
qed

lemma rnd_ge_power:
  assumes "2 powi k \<le> q" and "ulp_exp q \<le> k"
  shows "2 powi k \<le> rnd q"
proof -
  let ?u = "ulp_exp q"
  have q: "0 < q" using assms(1) zero_less_power_int [of "2 :: rat" k] by linarith
  have e: "(2 :: rat) powi k = of_int (2 ^ nat (k - ?u)) * 2 powi ?u"
    by (rule powi_split [OF assms(2)])
  have pos: "(0 :: rat) < 2 powi ?u" by (simp add: zero_less_power_int)
  then have "of_int (2 ^ nat (k - ?u)) \<le> q / 2 powi ?u" using assms(1) e by (simp add: le_divide_eq)
  then have "2 ^ nat (k - ?u) \<le> rne (q / 2 powi ?u)" by (rule rne_ge)
  then have "(of_int (2 ^ nat (k - ?u)) :: rat) \<le> of_int (rne (q / 2 powi ?u))" by (simp only: of_int_le_iff)
  then show ?thesis using pos q unfolding rnd_def e by (simp add: mult_right_mono del: of_int_power)
qed

lemma rnd_mono:
  assumes "0 \<le> q" and "q \<le> r"
  shows "rnd q \<le> rnd r"
proof (cases "q = 0")
  case True
  then show ?thesis using rnd_nonneg assms by (simp add: rnd_def)
next
  case False
  then have q: "0 < q" "0 < r" using assms by auto
  show ?thesis
  proof (cases "ulp_exp q = ulp_exp r")
    case True
    have pos: "(0 :: rat) < 2 powi ulp_exp r" by (simp add: zero_less_power_int)
    have "q / 2 powi ulp_exp r \<le> r / 2 powi ulp_exp r" using assms(2) pos by (intro divide_right_mono) simp_all
    then have "rne (q / 2 powi ulp_exp r) \<le> rne (r / 2 powi ulp_exp r)" by (rule rne_mono)
    then show ?thesis using q pos True by (simp add: rnd_def)
  next
    case False
    then have le: "expo q < expo r" "ulp_exp r = expo r - 52"
      using expo_mono [OF q(1) assms(2)] by (auto simp: ulp_exp_def max_def split: if_splits)
    have "(2 :: rat) powi (expo q + 1) \<le> 2 powi expo r" using le by (intro power_int_increasing) simp_all
    then have "q \<le> 2 powi expo r" using expo_bounds(2) [OF q(1)] by linarith
    moreover have "ulp_exp q \<le> expo r" using le by (auto simp: ulp_exp_def)
    ultimately have "rnd q \<le> 2 powi expo r" using q(1) by (intro rnd_le_power)
    also have "\<dots> \<le> rnd r" using expo_bounds(1) [OF q(2)] le by (intro rnd_ge_power) simp_all
    finally show ?thesis .
  qed
qed

end
