(* ===== verification/Go_Duration.thy ===== *)
theory Go_Duration
  imports Go_Float
begin

text \<open>
  \<^verbatim>\<open>time.ParseDuration\<close> of Go 1.22: a signed sequence of decimal numbers with units, in
  nanoseconds. The integer part is exact and checked for overflow; a fraction is scaled in
  floating point.
\<close>

fun leadingInt :: "nat \<Rightarrow> bytes \<Rightarrow> (nat \<times> bytes) option" where
  "leadingInt x [] = Some (x, [])"
| "leadingInt x (c # s) =
     (if \<not> is_digit c then Some (x, c # s)
      else if x > 2 ^ 63 div 10 then None
      else let y = x * 10 + (unat c - 48) in if y > 2 ^ 63 then None else leadingInt y s)"

fun leadingFraction :: "nat \<Rightarrow> rat \<Rightarrow> bool \<Rightarrow> bytes \<Rightarrow> nat \<times> rat \<times> bytes" where
  "leadingFraction x scale overflow [] = (x, scale, [])"
| "leadingFraction x scale overflow (c # s) =
     (if \<not> is_digit c then (x, scale, c # s)
      else if overflow \<or> x > (2 ^ 63 - 1) div 10 then leadingFraction x scale True s
      else let y = x * 10 + (unat c - 48) in
        if y > 2 ^ 63 then leadingFraction x scale True s
        else leadingFraction y (rnd (scale * 10)) False s)"

text \<open>Both spellings of the micro sign are units.\<close>

definition dur_units :: "(bytes \<times> nat) list" where
  "dur_units = [(str ''ns'', 1), (str ''us'', 1000), ([0xC2, 0xB5, 115], 1000), ([0xCE, 0xBC, 115], 1000),
     (str ''ms'', 1000000), (str ''s'', 1000000000), (str ''m'', 60000000000), (str ''h'', 3600000000000)]"

definition in_number :: "byte \<Rightarrow> bool" where
  "in_number c \<longleftrightarrow> c = 46 \<or> is_digit c"

text \<open>One number with its unit: its nanoseconds and the rest.\<close>

definition dur_part :: "bytes \<Rightarrow> (nat \<times> bytes) option" where
  "dur_part s =
     (if s = [] \<or> \<not> in_number (hd s) then None
      else (case leadingInt 0 s of
        None \<Rightarrow> None
      | Some (v, r) \<Rightarrow>
          (case (if r \<noteq> [] \<and> hd r = 46 then leadingFraction 0 1 False (tl r) else (0, 1, r)) of (f, scale, r2) \<Rightarrow>
             let post = (r \<noteq> [] \<and> hd r = 46 \<and> length r2 \<noteq> length (tl r));
                 u = takeWhile (\<lambda>c. \<not> in_number c) r2; rest = dropWhile (\<lambda>c. \<not> in_number c) r2
             in if length r = length s \<and> \<not> post then None
                else if u = [] then None
                else (case map_of dur_units u of
                  None \<Rightarrow> None
                | Some unit \<Rightarrow>
                    if v > 2 ^ 63 div unit then None
                    else let v2 = v * unit +
                        (if f > 0 then nat \<lfloor>rnd (rnd (of_nat f) * rnd (of_nat unit / scale))\<rfloor> else 0)
                      in if v2 > 2 ^ 63 then None else Some (v2, rest)))))"

lemma leadingInt_rest: "leadingInt x s = Some (v, r) \<Longrightarrow> length r \<le> length s"
  by (induction x s rule: leadingInt.induct) (auto simp: Let_def split: if_splits)

lemma leadingFraction_rest: "leadingFraction x sc ov s = (f, sc', r) \<Longrightarrow> length r \<le> length s"
  by (induction s arbitrary: x sc ov) (auto simp: Let_def le_SucI split: if_splits)

lemma dropWhile_shorter: "takeWhile P s \<noteq> [] \<Longrightarrow> length (dropWhile P s) < length s"
  by (metis length_append length_greater_0_conv less_add_same_cancel2 takeWhile_dropWhile_id)

lemma dur_part_shorter:
  assumes "dur_part s = Some (v, rest)"
  shows "length rest < length s"
proof -
  obtain v0 r where r: "leadingInt 0 s = Some (v0, r)" using assms by (auto simp: dur_part_def split: if_splits option.splits)
  obtain f sc r2 where f: "(if r \<noteq> [] \<and> hd r = 46 then leadingFraction 0 1 False (tl r) else (0, 1, r)) = (f, sc, r2)"
    by (metis prod_cases3)
  have "length r2 \<le> length r" using f leadingFraction_rest [of 0 1 False "tl r"] by (force split: if_splits)
  moreover have "length r \<le> length s" by (rule leadingInt_rest [OF r])
  moreover have "takeWhile (\<lambda>c. \<not> in_number c) r2 \<noteq> []" "rest = dropWhile (\<lambda>c. \<not> in_number c) r2"
    using assms by (auto simp: dur_part_def r f Let_def split: if_splits option.splits)
  then have "length rest < length r2" using dropWhile_shorter by blast
  ultimately show ?thesis by linarith
qed

function dur_loop :: "nat \<Rightarrow> bytes \<Rightarrow> nat option" where
  "dur_loop d s =
     (if s = [] then Some d
      else (case dur_part s of
        None \<Rightarrow> None
      | Some (v, rest) \<Rightarrow>
          let d' = (d + v) mod 2 ^ 64 in if d' > 2 ^ 63 then None else dur_loop d' rest))"
  by pat_completeness auto
termination
  by (relation "measure (\<lambda>(d, s). length s)") (auto dest: dur_part_shorter)

declare dur_loop.simps [simp del]

definition ParseDuration :: "bytes \<Rightarrow> int option" where
  "ParseDuration s0 =
     (let neg = (s0 \<noteq> [] \<and> hd s0 = 45);
          s = (if s0 \<noteq> [] \<and> (hd s0 = 45 \<or> hd s0 = 43) then tl s0 else s0)
      in if s = [48] then Some 0
         else if s = [] then None
         else (case dur_loop 0 s of
           None \<Rightarrow> None
         | Some d \<Rightarrow> if neg then Some (- int d) else if d > 2 ^ 63 - 1 then None else Some (int d)))"

section \<open>What it returns\<close>

text \<open>Every result is a 64-bit duration.\<close>

lemma dur_loop_bound: "dur_loop d s = Some r \<Longrightarrow> d \<le> 2 ^ 63 \<Longrightarrow> r \<le> 2 ^ 63"
proof (induction d s rule: dur_loop.induct)
  case (1 d s)
  then show ?case by (subst (asm) dur_loop.simps) (auto simp: Let_def split: if_splits option.splits)
qed

lemma ParseDuration_range:
  assumes "ParseDuration s = Some d"
  shows "in_i64 d"
proof -
  have "r \<le> 2 ^ 63" if "dur_loop 0 u = Some r" for u r using dur_loop_bound [OF that] by simp
  then show ?thesis using assms
    by (fastforce simp: ParseDuration_def Let_def in_i64_def split: if_splits option.splits)
qed

lemma leadingInt_digits:
  assumes "list_all is_digit ds" and "foldl (\<lambda>a d. a * 10 + (unat d - 48)) x ds \<le> 2 ^ 63" and "r = [] \<or> \<not> is_digit (hd r)"
  shows "leadingInt x (ds @ r) = Some (foldl (\<lambda>a d. a * 10 + (unat d - 48)) x ds, r)"
  using assms(1,2)
proof (induction ds arbitrary: x)
  case Nil
  then show ?case using assms(3) by (cases r) simp_all
next
  case (Cons d ds)
  let ?y = "x * 10 + (unat d - 48)"
  have grow: "y \<le> foldl (\<lambda>a d. a * 10 + (unat d - 48)) y ds" for y :: nat
  proof (induction ds arbitrary: y)
    case (Cons e es)
    have "y \<le> y * 10 + (unat e - 48)" by simp
    then show ?case using Cons [of "y * 10 + (unat e - 48)"] by simp
  qed simp
  have "?y \<le> 2 ^ 63" using grow [of ?y] Cons.prems(2) by simp
  then have "x * 10 \<le> 2 ^ 63" by (rule add_leD1)
  then have "\<not> 2 ^ 63 div 10 < x" by (simp add: not_less less_eq_div_iff_mult_less_eq del: power_numeral)
  moreover have "leadingInt ?y (ds @ r) = Some (foldl (\<lambda>a d. a * 10 + (unat d - 48)) ?y ds, r)" using Cons by simp
  ultimately show ?case using Cons.prems(1) \<open>?y \<le> 2 ^ 63\<close> by (simp add: Let_def del: power_numeral)
qed

lemma foldl_digits_nat: "list_all is_digit ds \<Longrightarrow>
  int (foldl (\<lambda>a d. a * 10 + (unat d - 48)) x ds) = foldl (\<lambda>a d. a * 10 + (uint d - 48)) (int x) ds"
proof (induction ds arbitrary: x)
  case (Cons d ds)
  have "48 \<le> unat d" using Cons.prems by (simp add: is_digit_def word_le_nat_alt)
  then have "int (x * 10 + (unat d - 48)) = int x * 10 + (uint d - 48)" by (simp add: of_nat_diff)
  then show ?case using Cons by simp
qed simp

lemma leadingInt_dec:
  assumes "n \<le> 2 ^ 63" and "r = [] \<or> \<not> is_digit (hd r)"
  shows "leadingInt 0 (dec_digits n @ r) = Some (n, r)"
proof -
  have d: "list_all is_digit (dec_digits n)" using dec_digits_digits by simp
  have "foldl (\<lambda>a d. a * 10 + (unat d - 48)) 0 (dec_digits n) = n"
    using foldl_digits_nat [OF d, of 0] digits_val_dec [of n] by (simp add: digits_val_def)
  then show ?thesis using leadingInt_digits [OF d, of 0 r] assms by simp
qed

lemma dur_units_text: "(u, k) \<in> set dur_units \<Longrightarrow> u \<noteq> [] \<and> list_all (\<lambda>c. \<not> in_number c) u \<and> map_of dur_units u = Some k \<and> 0 < k"
  by (auto simp: dur_units_def str_def in_number_def is_digit_def)

lemma dur_part_unit:
  assumes "(u, k) \<in> set dur_units" and "n * k < 2 ^ 63" and "r = [] \<or> in_number (hd r)"
  shows "dur_part (dec_digits n @ u @ r) = Some (n * k, r)"
proof -
  note U = dur_units_text [OF assms(1)]
  have "n * 1 \<le> n * k" using U by (intro mult_le_mono) simp_all
  then have n: "n \<le> 2 ^ 63" using assms(2) by linarith
  obtain c cs where c: "u = c # cs" "\<not> in_number c" using U by (cases u) auto
  have li: "leadingInt 0 (dec_digits n @ u @ r) = Some (n, u @ r)" using leadingInt_dec [OF n, of "u @ r"] c by (simp add: in_number_def)
  have d: "dec_digits n \<noteq> []" "in_number (hd (dec_digits n))" using dec_digits_digits [of n]
    by (auto simp: in_number_def list_all_iff)
  have tw: "takeWhile (\<lambda>c. \<not> in_number c) (u @ r) = u" "dropWhile (\<lambda>c. \<not> in_number c) (u @ r) = r"
    using U assms(3) by (cases r; auto simp: list_all_iff takeWhile_append dropWhile_append)+
  have "\<not> 2 ^ 63 div k < n" using assms(2) U by (simp add: not_less less_eq_div_iff_mult_less_eq)
  then show ?thesis using d li tw U c assms(2) by (simp add: dur_part_def Let_def in_number_def)
qed

lemma ParseDuration_unit:
  assumes "(u, k) \<in> set dur_units" and "n * k < 2 ^ 63"
  shows "ParseDuration (dec_digits n @ u) = Some (int (n * k))"
proof -
  have d: "dec_digits n \<noteq> []" "hd (dec_digits n) \<noteq> 45" "hd (dec_digits n) \<noteq> 43" using dec_digits_digits [of n] digit_not_sign
    by (cases "dec_digits n"; auto)+
  have u: "u \<noteq> []" "u \<noteq> [48]" using dur_units_text [OF assms(1)] by (auto simp: in_number_def is_digit_def)
  have ne: "dec_digits n @ u \<noteq> [48]" using d(1) u(1) by (cases "dec_digits n") auto
  have "dur_part (dec_digits n @ u) = Some (n * k, [])" using dur_part_unit [OF assms, of "[]"] by simp
  then have "dur_loop 0 (dec_digits n @ u) = Some (n * k)"
    using assms(2) u(1) by (simp add: dur_loop.simps [of 0 "dec_digits n @ u"] dur_loop.simps [of _ "[]"] Let_def)
  then show ?thesis using d ne assms(2) by (simp add: ParseDuration_def Let_def)
qed

end
