(* ===== verification/Vm_Request.thy ===== *)
theory Vm_Request
  imports Vm_Client Go_Duration "HOL-Library.List_Lexorder"
begin

text \<open>
  The requests of the VictoriaMetrics client, \<^verbatim>\<open>src/internal/vm/client.go\<close>: creating a
  client, the time limit of a call, times as decimal seconds, the query of an export as
  \<^verbatim>\<open>url.Values.Encode\<close> writes it, and the headers. What the network and the server make of
  a request is an argument; a request that cannot be built is among its failures.
\<close>

section \<open>The client\<close>

record VmConfig =
  vm_URL :: bytes
  vm_Timeout :: bytes
  vm_Match :: "bytes list"
  vm_Token :: bytes

record VmClient =
  vm_cfg :: VmConfig
  vm_timeout :: int

datatype client_err = UrlRequired | BadTimeout bytes

definition all_series :: bytes where
  "all_series = str ''{__name__=~\".+\"}''"

definition NewVmClient :: "VmConfig \<Rightarrow> client_err + VmClient" where
  "NewVmClient cfg =
     (if vm_URL cfg = [] then Inl UrlRequired
      else case (if vm_Timeout cfg \<noteq> [] then ParseDuration (vm_Timeout cfg) else Some 10000000000) of
        None \<Rightarrow> Inl (BadTimeout (vm_Timeout cfg))
      | Some d \<Rightarrow> Inr \<lparr>vm_cfg = cfg\<lparr>vm_Match := (if length (vm_Match cfg) = 0 then [all_series] else vm_Match cfg)\<rparr>,
          vm_timeout = d\<rparr>)"

text \<open>The deadline of a call, as the time left: the caller's if it has one.\<close>

definition withTimeout :: "VmClient \<Rightarrow> int option \<Rightarrow> int" where
  "withTimeout c ctx = (case ctx of Some d \<Rightarrow> d | None \<Rightarrow> vm_timeout c)"

section \<open>Times\<close>

definition secFloat :: "int \<Rightarrow> bytes" where
  "secFloat t = FormatFixed 6 (f64_div (f64_of_int t) 1000)"

section \<open>Queries\<close>

definition hex_digit :: "byte \<Rightarrow> byte" where
  "hex_digit x = (if x < 10 then 48 + x else 55 + x)"

definition unreserved :: "byte \<Rightarrow> bool" where
  "unreserved b \<longleftrightarrow> 97 \<le> b \<and> b \<le> 122 \<or> 65 \<le> b \<and> b \<le> 90 \<or> is_digit b \<or> b \<in> {45, 95, 46, 126}"

definition escape_byte :: "byte \<Rightarrow> bytes" where
  "escape_byte b =
     (if unreserved b then [b]
      else if b = 32 then [43]
      else [37, hex_digit (b div 16), hex_digit (b mod 16)])"

definition QueryEscape :: "bytes \<Rightarrow> bytes" where
  "QueryEscape s = concat (map escape_byte s)"

type_synonym query = "(bytes \<times> bytes list) list"

text \<open>\<^verbatim>\<open>url.Values.Encode\<close>: keys in order, the values of a key as they were added.\<close>

definition query_pairs :: "query \<Rightarrow> (bytes \<times> bytes) list" where
  "query_pairs q = concat (map (\<lambda>(k, vs). map (Pair k) vs) (sort_key fst q))"

definition Encode_query :: "query \<Rightarrow> bytes" where
  "Encode_query q = join_byte 38 (map (\<lambda>(k, v). QueryEscape k @ 61 # QueryEscape v) (query_pairs q))"

section \<open>Requests\<close>

record http_request =
  Method :: string
  Url :: bytes
  Header :: "(string \<times> bytes) list"
  Body :: bytes
  Deadline :: int

definition setAuth :: "VmClient \<Rightarrow> http_request \<Rightarrow> http_request" where
  "setAuth c r = (if vm_Token (vm_cfg c) \<noteq> []
     then r\<lparr>Header := (''Authorization'', str ''Bearer '' @ vm_Token (vm_cfg c)) # Header r\<rparr> else r)"

definition export_query :: "VmClient \<Rightarrow> int \<Rightarrow> int \<Rightarrow> query" where
  "export_query c start end =
     [(str ''match[]'', vm_Match (vm_cfg c)), (str ''start'', [secFloat start]), (str ''end'', [secFloat end])]"

definition export_request :: "VmClient \<Rightarrow> int option \<Rightarrow> int \<Rightarrow> int \<Rightarrow> http_request" where
  "export_request c ctx start end = setAuth c \<lparr>Method = ''GET'',
     Url = vm_URL (vm_cfg c) @ str ''/api/v1/export?'' @ Encode_query (export_query c start end),
     Header = [], Body = [], Deadline = withTimeout c ctx\<rparr>"

definition import_request :: "VmClient \<Rightarrow> int option \<Rightarrow> bytes \<Rightarrow> http_request" where
  "import_request c ctx raw = setAuth c \<lparr>Method = ''POST'', Url = vm_URL (vm_cfg c) @ str ''/api/v1/import'',
     Header = [(''Content-Type'', str ''application/stream+json'')], Body = raw, Deadline = withTimeout c ctx\<rparr>"

definition flush_request :: "VmClient \<Rightarrow> int option \<Rightarrow> http_request" where
  "flush_request c ctx = setAuth c \<lparr>Method = ''POST'', Url = vm_URL (vm_cfg c) @ str ''/internal/force_flush'',
     Header = [], Body = [], Deadline = withTimeout c ctx\<rparr>"

text \<open>The calls of the client over a network that answers requests.\<close>

type_synonym web = "http_request \<Rightarrow> http_result"

definition vmExportRange :: "VmClient \<Rightarrow> int option \<Rightarrow> web \<Rightarrow> int \<Rightarrow> int \<Rightarrow> vm_err + bytes" where
  "vmExportRange c ctx net = ExportRange (\<lambda>a b. net (export_request c ctx a b))"

definition vmProbeOldestData :: "VmClient \<Rightarrow> int option \<Rightarrow> web \<Rightarrow> int \<Rightarrow> vm_err + int" where
  "vmProbeOldestData c ctx net = ProbeOldestData (\<lambda>a b. net (export_request c ctx a b))"

definition vmImportWrite :: "VmClient \<Rightarrow> int option \<Rightarrow> web \<Rightarrow> bytes \<Rightarrow> import_err option" where
  "vmImportWrite c ctx net = ImportWrite (\<lambda>raw. net (import_request c ctx raw))"

definition vmForceFlush :: "VmClient \<Rightarrow> int option \<Rightarrow> web \<Rightarrow> vm_err option" where
  "vmForceFlush c ctx net = ForceFlush (net (flush_request c ctx))"

section \<open>Times are written exactly\<close>

lemma secFloat_value:
  assumes "\<bar>t\<bar> < 2 ^ 42"
  shows "dec_value (secFloat t) = Some (of_int t / 1000)"
  using FormatFixed_value [of t 3 3] assms by (simp add: secFloat_def)

section \<open>What a server reads from a query\<close>

text \<open>The decoding of form data, the inverse of \<^verbatim>\<open>url.Values.Encode\<close>.\<close>

definition unhex :: "byte \<Rightarrow> byte option" where
  "unhex c = (if is_digit c then Some (c - 48) else if 65 \<le> c \<and> c \<le> 70 then Some (c - 55)
     else if 97 \<le> c \<and> c \<le> 102 then Some (c - 87) else None)"

fun unescape :: "bytes \<Rightarrow> bytes option" where
  "unescape [] = Some []"
| "unescape (c # s) =
     (if c = 43 then map_option ((#) 32) (unescape s)
      else if c \<noteq> 37 then map_option ((#) c) (unescape s)
      else (case s of
              h # l # r \<Rightarrow> (case (unhex h, unhex l) of
                  (Some x, Some y) \<Rightarrow> map_option ((#) (x * 16 + y)) (unescape r)
                | _ \<Rightarrow> None)
            | _ \<Rightarrow> None))"

definition decode_pair :: "bytes \<Rightarrow> (bytes \<times> bytes) option" where
  "decode_pair p = (let k = takeWhile (\<lambda>c. c \<noteq> 61) p; r = dropWhile (\<lambda>c. c \<noteq> 61) p in
     Option.bind (unescape k) (\<lambda>k'. map_option (Pair k') (unescape (tl r))))"

definition decode_query :: "bytes \<Rightarrow> (bytes \<times> bytes) list option" where
  "decode_query s = those (map decode_pair (split_byte 38 s))"

lemma nibbles: "b div 16 < (16 :: byte)" "b mod 16 < (16 :: byte)"
proof -
  have "unat b < 256" using unsigned_less [of b] by simp
  then have "unat b div 16 < 16" by simp
  then show "b div 16 < 16" "b mod 16 < 16" by (simp_all add: word_less_nat_alt unat_div unat_mod)
qed

lemma escape_byte_inverse: "unescape (escape_byte b @ s) = map_option ((#) b) (unescape s)"
proof -
  have x: "unhex (hex_digit x) = Some x" if "x < 16" for x
    using that by (auto simp: unhex_def hex_digit_def is_digit_def word_less_nat_alt word_le_nat_alt unat_word_ariths)
  have "b div 16 * 16 + b mod 16 = b" by (rule word_mod_div_equality)
  then show ?thesis using x [of "b div 16"] x [of "b mod 16"] nibbles [of b]
    by (auto simp: escape_byte_def unreserved_def is_digit_def)
qed

lemma unescape_escape [simp]: "unescape (QueryEscape s) = Some s"
proof (induction s)
  case (Cons b s)
  then show ?case using escape_byte_inverse [of b "QueryEscape s"] by (simp add: QueryEscape_def)
qed (simp add: QueryEscape_def)

lemma escape_clean: "c \<in> set (QueryEscape s) \<Longrightarrow> c \<noteq> 38 \<and> c \<noteq> 61"
proof -
  have h: "hex_digit x \<noteq> 38 \<and> hex_digit x \<noteq> 61" if "x < 16" for x
    using that by (auto simp: hex_digit_def word_less_nat_alt word_unat_eq_iff unat_word_ariths)
  have "c \<noteq> 38 \<and> c \<noteq> 61" if "c \<in> set (escape_byte b)" for b
    using that nibbles [of b] h [of "b div 16"] h [of "b mod 16"] by (auto simp: escape_byte_def unreserved_def is_digit_def split: if_splits)
  then show "c \<in> set (QueryEscape s) \<Longrightarrow> c \<noteq> 38 \<and> c \<noteq> 61" by (auto simp: QueryEscape_def)
qed

lemma decode_pair_inverse: "decode_pair (QueryEscape k @ 61 # QueryEscape v) = Some (k, v)"
proof -
  have "takeWhile (\<lambda>c. c \<noteq> 61) (QueryEscape k @ 61 # QueryEscape v) = QueryEscape k"
    "dropWhile (\<lambda>c. c \<noteq> 61) (QueryEscape k @ 61 # QueryEscape v) = 61 # QueryEscape v"
    using escape_clean [of _ k] by (auto simp: takeWhile_append dropWhile_append)
  then show ?thesis by (simp add: decode_pair_def)
qed

lemma decode_Encode_query:
  assumes "query_pairs q \<noteq> []"
  shows "decode_query (Encode_query q) = Some (query_pairs q)"
proof -
  let ?w = "\<lambda>(k, v). QueryEscape k @ 61 # QueryEscape v"
  have "\<forall>l\<in>set (map ?w (query_pairs q)). 38 \<notin> set l" using escape_clean by fastforce
  then have s: "split_byte 38 (Encode_query q) = map ?w (query_pairs q)"
    unfolding Encode_query_def using assms by (intro split_join) auto
  have "those (map decode_pair (map ?w ps)) = Some ps" for ps
    using decode_pair_inverse by (induction ps) auto
  then show ?thesis by (simp only: decode_query_def s)
qed

section \<open>Properties of the requests\<close>

lemma export_pairs: "query_pairs (export_query c start stop) =
  (str ''end'', secFloat stop) # map (Pair (str ''match[]'')) (vm_Match (vm_cfg c)) @ [(str ''start'', secFloat start)]"
proof -
  have "str ''end'' < str ''match[]''" "str ''match[]'' < str ''start''" "str ''end'' < str ''start''"
    by (simp_all add: str_def)
  then have "str ''match[]'' \<le> str ''start''" "\<not> str ''match[]'' \<le> str ''end''" "\<not> str ''start'' \<le> str ''end''"
    by (simp_all only: not_le order.strict_implies_order)
  then show ?thesis by (simp add: query_pairs_def export_query_def)
qed

lemma export_Url: "Url (export_request c ctx start stop) =
    vm_URL (vm_cfg c) @ str ''/api/v1/export?'' @ Encode_query (export_query c start stop)"
  "Method (export_request c ctx start stop) = ''GET''" "Deadline (export_request c ctx start stop) = withTimeout c ctx"
  by (simp_all add: export_request_def setAuth_def)

text \<open>
  C33: An export asks the server for exactly the window it is called with: the query in its URL
  decodes to the selectors of the configuration, or all series when there are none, and to
  decimal texts whose values are the bounds of the window, without a rounding error, for all
  times within 139 years of 1970.
\<close>

theorem export_request_exact:
  assumes "NewVmClient cfg = Inr c" and "\<bar>start\<bar> < 2 ^ 42" and "\<bar>stop\<bar> < 2 ^ 42"
  shows "\<exists>enc s e. Url (export_request c ctx start stop) = vm_URL cfg @ str ''/api/v1/export?'' @ enc \<and>
    decode_query enc = Some ((str ''end'', e) #
      map (Pair (str ''match[]'')) (if vm_Match cfg = [] then [all_series] else vm_Match cfg) @ [(str ''start'', s)]) \<and>
    dec_value s = Some (of_int start / 1000) \<and> dec_value e = Some (of_int stop / 1000)"
proof -
  have c: "vm_cfg c = cfg\<lparr>vm_Match := (if vm_Match cfg = [] then [all_series] else vm_Match cfg)\<rparr>"
    using assms(1) by (auto simp: NewVmClient_def split: if_splits option.splits)
  let ?q = "export_query c start stop"
  have "decode_query (Encode_query ?q) = Some (query_pairs ?q)"
    by (rule decode_Encode_query) (simp add: export_pairs)
  then show ?thesis using secFloat_value [OF assms(2)] secFloat_value [OF assms(3)]
    by (intro exI [of _ "Encode_query ?q"] exI [of _ "secFloat start"] exI [of _ "secFloat stop"])
      (simp add: export_Url export_pairs c)
qed

definition demo_vm :: VmConfig where
  "demo_vm = \<lparr>vm_URL = str ''http://vm'', vm_Timeout = [], vm_Match = [], vm_Token = []\<rparr>"

definition demo_client :: VmClient where
  "demo_client = \<lparr>vm_cfg = demo_vm\<lparr>vm_Match := [all_series]\<rparr>, vm_timeout = 10000000000\<rparr>"

lemma demo_client_new: "NewVmClient demo_vm = Inr demo_client"
  by (simp add: NewVmClient_def demo_vm_def demo_client_def str_def)

theorem export_request_exact_witness:
  "\<exists>enc s e. Url (export_request demo_client None 1700000000123 1700000005123) = str ''http://vm'' @ str ''/api/v1/export?'' @ enc \<and>
    decode_query enc = Some [(str ''end'', e), (str ''match[]'', all_series), (str ''start'', s)] \<and>
    dec_value s = Some (1700000000123 / 1000) \<and> dec_value e = Some (1700000005123 / 1000)"
  using export_request_exact [OF demo_client_new, of 1700000000123 1700000005123 None] by (simp add: demo_vm_def)

text \<open>
  A server over a store: \<open>ts sel\<close> are the times of the samples the selectors choose. It
  answers an export whose query has a start and an end, and the body is empty exactly when no
  sample is in between.
\<close>

definition export_server :: "bytes \<Rightarrow> (bytes list \<Rightarrow> int set) \<Rightarrow> web \<Rightarrow> bool" where
  "export_server url ts net \<longleftrightarrow> (\<forall>r enc ps s e a b. Method r = ''GET'' \<and> Url r = url @ str ''/api/v1/export?'' @ enc \<and>
     decode_query enc = Some ps \<and> map_of ps (str ''start'') = Some s \<and> map_of ps (str ''end'') = Some e \<and>
     dec_value s = Some a \<and> dec_value e = Some b \<longrightarrow>
       (\<exists>body. net r = HttpResp 200 (body, None) \<and>
         (body = [] \<longleftrightarrow> \<not> (\<exists>t\<in>ts (map snd (filter (\<lambda>p. fst p = str ''match[]'') ps)). a \<le> of_int t / 1000 \<and> of_int t / 1000 < b))))"

lemma export_server_has:
  assumes "export_server (vm_URL (vm_cfg c)) ts net" and "\<bar>start\<bar> < 2 ^ 42" and "\<bar>stop\<bar> < 2 ^ 42"
  shows "ExportHasData (\<lambda>a b. net (export_request c ctx a b)) start stop =
    Inr (\<exists>t\<in>ts (vm_Match (vm_cfg c)). start \<le> t \<and> t < stop)"
proof -
  let ?q = "export_query c start stop" and ?r = "export_request c ctx start stop"
  have ne: "str ''end'' \<noteq> str ''match[]''" "str ''start'' \<noteq> str ''match[]''" "str ''start'' \<noteq> str ''end''"
    by (simp_all add: str_def)
  have d: "decode_query (Encode_query ?q) = Some (query_pairs ?q)"
    by (rule decode_Encode_query) (simp add: export_pairs)
  have m: "map_of (map (Pair (str ''match[]'')) vs) (str ''start'') = None" for vs :: "bytes list"
    using ne by (auto simp: map_of_eq_None_iff)
  have "map_of (query_pairs ?q) (str ''start'') = Some (secFloat start)" "map_of (query_pairs ?q) (str ''end'') = Some (secFloat stop)"
    using ne m by (simp_all add: export_pairs map_add_def)
  moreover have "map snd (filter (\<lambda>p. fst p = str ''match[]'') (query_pairs ?q)) = vm_Match (vm_cfg c)"
    using ne by (simp add: export_pairs filter_map comp_def)
  ultimately obtain body where b: "net ?r = HttpResp 200 (body, None)"
    "body = [] \<longleftrightarrow> \<not> (\<exists>t\<in>ts (vm_Match (vm_cfg c)). of_int start / (1000 :: rat) \<le> of_int t / 1000 \<and> of_int t / 1000 < (of_int stop / 1000 :: rat))"
    using assms(1) [unfolded export_server_def, rule_format, of ?r "Encode_query ?q" "query_pairs ?q" "secFloat start"
        "secFloat stop" "of_int start / 1000" "of_int stop / 1000"] d export_Url [of c ctx start stop]
      secFloat_value [OF assms(2)] secFloat_value [OF assms(3)] by auto
  have "(of_int x :: rat) / 1000 \<le> of_int y / 1000 \<longleftrightarrow> x \<le> y" "(of_int x :: rat) / 1000 < of_int y / 1000 \<longleftrightarrow> x < y" for x y
    by (simp_all add: divide_le_cancel divide_less_cancel)
  then show ?thesis using b by (auto simp: ExportHasData_def)
qed

text \<open>
  C34: The search for the oldest data returns exactly the time of the oldest sample the
  configured selectors choose: over a server that answers the export requests as they are
  written on the wire, a cursor set to the result leaves out no sample and starts no earlier
  than there are any.
\<close>

theorem probe_finds_oldest:
  assumes "NewVmClient cfg = Inr c" and "export_server (vm_URL cfg) ts net"
    and "old \<in> ts (vm_Match (vm_cfg c))" and "\<forall>t\<in>ts (vm_Match (vm_cfg c)). old \<le> t"
    and "0 \<le> old" and "old < now" and "now < 2 ^ 42"
  shows "vmProbeOldestData c ctx net now = Inr old"
proof -
  have "vm_URL (vm_cfg c) = vm_URL cfg" using assms(1) by (auto simp: NewVmClient_def split: if_splits option.splits)
  then have has: "ExportHasData (\<lambda>a b. net (export_request c ctx a b)) 0 x = Inr (\<exists>t\<in>ts (vm_Match (vm_cfg c)). 0 \<le> t \<and> t < x)"
    if "0 < x" "x \<le> now" for x
    using export_server_has [of c ts net 0 x ctx] assms(2,7) that by simp
  show ?thesis unfolding vmProbeOldestData_def
  proof (rule ProbeOldestData_has [OF _ assms(5,6)])
    fix x assume "0 < x" "x \<le> now"
    from has [OF this] show "ExportHasData (\<lambda>a b. net (export_request c ctx a b)) 0 x = Inr (old < x)"
      using assms(3-5) by force
  qed
qed

definition demo_web :: web where
  "demo_web r =
     (case decode_query (drop (length (str ''http://vm/api/v1/export?'')) (Url r)) of
        None \<Rightarrow> HttpResp 400 ([], None)
      | Some ps \<Rightarrow>
          (case (Option.bind (map_of ps (str ''start'')) dec_value, Option.bind (map_of ps (str ''end'')) dec_value) of
             (Some a, Some b) \<Rightarrow> HttpResp 200 (if a \<le> 7 / 1000 \<and> 7 / 1000 < b \<or> a \<le> 40 / 1000 \<and> 40 / 1000 < b then [1] else [], None)
           | _ \<Rightarrow> HttpResp 422 ([], None)))"

lemma demo_web_serves: "export_server (vm_URL demo_vm) (\<lambda>_. {7, 40}) demo_web"
proof -
  have "drop (length (str ''http://vm/api/v1/export?'')) (vm_URL demo_vm @ str ''/api/v1/export?'' @ enc) = enc" for enc
    by (simp add: demo_vm_def str_def)
  then show ?thesis by (auto simp: export_server_def demo_web_def)
qed

theorem probe_finds_oldest_witness: "vmProbeOldestData demo_client None demo_web 1000 = Inr 7"
  by (rule probe_finds_oldest [OF demo_client_new demo_web_serves]) auto

section \<open>Time limits\<close>

text \<open>
  The time limit of the file is read without the checks of the other durations: a negative one is
  accepted, and every request made without a deadline of its own has it.
\<close>

lemma ParseDuration_negative:
  assumes "(u, k) \<in> set dur_units" and "n * k < 2 ^ 63"
  shows "ParseDuration (45 # dec_digits n @ u) = Some (- int (n * k))"
proof -
  have "u \<noteq> []" using dur_units_text [OF assms(1)] by simp
  then have ne: "dec_digits n @ u \<noteq> []" "dec_digits n @ u \<noteq> [48]"
    using dec_digits_digits [of n] by (auto simp: append_eq_Cons_conv)
  have "dur_part (dec_digits n @ u) = Some (n * k, [])" using dur_part_unit [OF assms, of "[]"] by simp
  then have "dur_loop 0 (dec_digits n @ u) = Some (n * k)"
    using assms(2) \<open>u \<noteq> []\<close> by (simp add: dur_loop.simps [of 0 "dec_digits n @ u"] dur_loop.simps [of _ "[]"] Let_def)
  then show ?thesis using ne \<open>u \<noteq> []\<close> by (simp add: ParseDuration_def Let_def)
qed

lemma negative_timeout:
  assumes "vm_URL cfg \<noteq> []" and "vm_Timeout cfg = 45 # dec_digits n @ u" and "(u, k) \<in> set dur_units" and "n * k < 2 ^ 63"
  shows "\<exists>c. NewVmClient cfg = Inr c \<and> Deadline (export_request c None start stop) = - int (n * k)"
  using ParseDuration_negative [OF assms(3,4)] assms(1,2)
  by (simp add: NewVmClient_def export_request_def setAuth_def withTimeout_def)

end
