(* ===== verification/Metrics.thy ===== *)
theory Metrics
  imports Go_Float
begin

text \<open>
  The metrics, \<^verbatim>\<open>src/internal/monitor/metrics.go\<close>: the set of atomic counters and their
  updates, the loop that keeps the time of the last write, the text of the metrics page and the
  guarded HTTP handler. The help texts of the page are prose in UTF-8 and an argument. A page is
  rendered while the counters change, so the state each load sees is an argument too: \<open>m i\<close>
  at the \<open>i\<close>-th load.
\<close>

section \<open>The counters\<close>

record Metrics =
  mCursor :: int
  mWalPending :: int
  mWalBytes :: int
  mSendTotal :: u64
  mAckOk :: u64
  mAckFail :: u64
  mRetry :: u64
  mDlqTotal :: u64
  mHeartbeat :: u64
  mPollSkip :: u64
  mWriteFail :: u64
  mWriteOk :: u64
  mRecvTotal :: u64
  mDupTotal :: u64
  mWalDiskRatio :: int
  mBpStatus :: int
  mPausedSecs :: int
  mPoisonPacket :: u64
  mSkipPoint :: u64
  mLastWriteTs :: int
  mRelayDLQ :: u64
  mInflight :: int
  mFpState :: int
  mFpBatch :: u64
  mFpPoints :: u64
  mFpSigOnly :: u64
  mFpDropBig :: u64
  mFpDropPrec :: u64
  mFpDropBP :: u64
  mFpLineSkip :: u64
  mFpDedupHit :: u64

definition newMetrics :: Metrics where
  "newMetrics = \<lparr>mCursor = 0, mWalPending = 0, mWalBytes = 0, mSendTotal = 0, mAckOk = 0, mAckFail = 0, mRetry = 0,
     mDlqTotal = 0, mHeartbeat = 0, mPollSkip = 0, mWriteFail = 0, mWriteOk = 0, mRecvTotal = 0, mDupTotal = 0,
     mWalDiskRatio = 0, mBpStatus = 0, mPausedSecs = 0, mPoisonPacket = 0, mSkipPoint = 0, mLastWriteTs = 0,
     mRelayDLQ = 0, mInflight = 0, mFpState = 0, mFpBatch = 0, mFpPoints = 0, mFpSigOnly = 0, mFpDropBig = 0,
     mFpDropPrec = 0, mFpDropBP = 0, mFpLineSkip = 0, mFpDedupHit = 0\<rparr>"

text \<open>
  The conversion of a float to an integer, towards zero. What Go leaves open for values out of
  range is the result of the amd64 instruction.
\<close>

fun int64_of_float :: "float64 \<Rightarrow> int" where
  "int64_of_float (Fin neg a) =
     (let n = (if neg then - \<lfloor>a\<rfloor> else \<lfloor>a\<rfloor>) in if in_i64 n then n else - (2 ^ 63))"
| "int64_of_float (Inf neg) = - (2 ^ 63)"

text \<open>One call of an updating method; a call is atomic.\<close>

datatype metric_call =
    CallSetCursor int | CallSetWALPending int | CallSetWALBytes int
  | CallIncSend | CallIncAckOk | CallIncAckFail | CallIncRetry | CallIncDLQ | CallIncHeartbeat | CallIncPollSkip
  | CallIncWriteFail | CallIncWriteOk | CallIncRecv | CallIncDup
  | CallSetWALDiskRatio float64 | CallSetBackpressureStatus int | CallAddPausedSeconds int
  | CallIncPoisonPacket | CallIncSkipPoint | CallSetLastWriteTs int | CallIncRelayDLQ
  | CallSetFastPathState int | CallIncFastPathBatch | CallAddFastPathPoints int | CallIncFastPathSignalOnly
  | CallIncFastPathDroppedOversize | CallIncFastPathDroppedPrecision | CallIncFastPathDroppedBackpressure
  | CallIncFastPathLineSkipped | CallIncFastPathDedupHit | CallIncInflight | CallDecInflight

fun update :: "metric_call \<Rightarrow> Metrics \<Rightarrow> Metrics" where
  "update (CallSetCursor v) m = m\<lparr>mCursor := v\<rparr>"
| "update (CallSetWALPending v) m = m\<lparr>mWalPending := v\<rparr>"
| "update (CallSetWALBytes v) m = m\<lparr>mWalBytes := v\<rparr>"
| "update CallIncSend m = m\<lparr>mSendTotal := mSendTotal m + 1\<rparr>"
| "update CallIncAckOk m = m\<lparr>mAckOk := mAckOk m + 1\<rparr>"
| "update CallIncAckFail m = m\<lparr>mAckFail := mAckFail m + 1\<rparr>"
| "update CallIncRetry m = m\<lparr>mRetry := mRetry m + 1\<rparr>"
| "update CallIncDLQ m = m\<lparr>mDlqTotal := mDlqTotal m + 1\<rparr>"
| "update CallIncHeartbeat m = m\<lparr>mHeartbeat := mHeartbeat m + 1\<rparr>"
| "update CallIncPollSkip m = m\<lparr>mPollSkip := mPollSkip m + 1\<rparr>"
| "update CallIncWriteFail m = m\<lparr>mWriteFail := mWriteFail m + 1\<rparr>"
| "update CallIncWriteOk m = m\<lparr>mWriteOk := mWriteOk m + 1\<rparr>"
| "update CallIncRecv m = m\<lparr>mRecvTotal := mRecvTotal m + 1\<rparr>"
| "update CallIncDup m = m\<lparr>mDupTotal := mDupTotal m + 1\<rparr>"
| "update (CallSetWALDiskRatio r) m = m\<lparr>mWalDiskRatio := int64_of_float (f64_scale 10000 r)\<rparr>"
| "update (CallSetBackpressureStatus v) m = m\<lparr>mBpStatus := v\<rparr>"
| "update (CallAddPausedSeconds v) m = m\<lparr>mPausedSecs := wrap64 (mPausedSecs m + v)\<rparr>"
| "update CallIncPoisonPacket m = m\<lparr>mPoisonPacket := mPoisonPacket m + 1\<rparr>"
| "update CallIncSkipPoint m = m\<lparr>mSkipPoint := mSkipPoint m + 1\<rparr>"
| "update (CallSetLastWriteTs ts) m = m\<lparr>mLastWriteTs := (if ts \<le> mLastWriteTs m then mLastWriteTs m else ts)\<rparr>"
| "update CallIncRelayDLQ m = m\<lparr>mRelayDLQ := mRelayDLQ m + 1\<rparr>"
| "update (CallSetFastPathState v) m = m\<lparr>mFpState := v\<rparr>"
| "update CallIncFastPathBatch m = m\<lparr>mFpBatch := mFpBatch m + 1\<rparr>"
| "update (CallAddFastPathPoints v) m = m\<lparr>mFpPoints := mFpPoints m + word_of_int v\<rparr>"
| "update CallIncFastPathSignalOnly m = m\<lparr>mFpSigOnly := mFpSigOnly m + 1\<rparr>"
| "update CallIncFastPathDroppedOversize m = m\<lparr>mFpDropBig := mFpDropBig m + 1\<rparr>"
| "update CallIncFastPathDroppedPrecision m = m\<lparr>mFpDropPrec := mFpDropPrec m + 1\<rparr>"
| "update CallIncFastPathDroppedBackpressure m = m\<lparr>mFpDropBP := mFpDropBP m + 1\<rparr>"
| "update CallIncFastPathLineSkipped m = m\<lparr>mFpLineSkip := mFpLineSkip m + 1\<rparr>"
| "update CallIncFastPathDedupHit m = m\<lparr>mFpDedupHit := mFpDedupHit m + 1\<rparr>"
| "update CallIncInflight m = m\<lparr>mInflight := wrap64 (mInflight m + 1)\<rparr>"
| "update CallDecInflight m = m\<lparr>mInflight := wrap64 (mInflight m - 1)\<rparr>"

text \<open>One call of a reading method.\<close>

datatype metric_read =
    AckFailCount | AckOkCount | SkipPointCount | LastWriteTs | RelayDLQCount | FastPathState | FastPathBatches
  | FastPathPoints | FastPathSignalOnly | FastPathDroppedOversize | FastPathDroppedPrecision
  | FastPathDroppedBackpressure | FastPathLineSkipped | FastPathDedupHit | InflightCount | DLQCount | PoisonCount
  | BackpressureStatus

fun observe :: "metric_read \<Rightarrow> Metrics \<Rightarrow> int" where
  "observe AckFailCount m = uint (mAckFail m)"
| "observe AckOkCount m = uint (mAckOk m)"
| "observe SkipPointCount m = uint (mSkipPoint m)"
| "observe LastWriteTs m = mLastWriteTs m"
| "observe RelayDLQCount m = uint (mRelayDLQ m)"
| "observe FastPathState m = mFpState m"
| "observe FastPathBatches m = uint (mFpBatch m)"
| "observe FastPathPoints m = uint (mFpPoints m)"
| "observe FastPathSignalOnly m = uint (mFpSigOnly m)"
| "observe FastPathDroppedOversize m = uint (mFpDropBig m)"
| "observe FastPathDroppedPrecision m = uint (mFpDropPrec m)"
| "observe FastPathDroppedBackpressure m = uint (mFpDropBP m)"
| "observe FastPathLineSkipped m = uint (mFpLineSkip m)"
| "observe FastPathDedupHit m = uint (mFpDedupHit m)"
| "observe InflightCount m = mInflight m"
| "observe DLQCount m = uint (mDlqTotal m)"
| "observe PoisonCount m = uint (mPoisonPacket m)"
| "observe BackpressureStatus m = mBpStatus m"

section \<open>The time of the last write\<close>

text \<open>
  \<^verbatim>\<open>SetLastWriteTs\<close> is a loop of two atomic steps, a load and a compare-and-swap. The
  callers run in any interleaving over the shared value.
\<close>

datatype writer = Loading int | Loaded int int | Done int

fun ts_of :: "writer \<Rightarrow> int" where
  "ts_of (Loading ts) = ts"
| "ts_of (Loaded ts cur) = ts"
| "ts_of (Done ts) = ts"

inductive cas_step :: "int \<times> writer list \<Rightarrow> int \<times> writer list \<Rightarrow> bool" where
  load: "i < length ws \<Longrightarrow> ws ! i = Loading ts \<Longrightarrow> cas_step (v, ws) (v, ws[i := Loaded ts v])"
| older: "i < length ws \<Longrightarrow> ws ! i = Loaded ts cur \<Longrightarrow> ts \<le> cur \<Longrightarrow> cas_step (v, ws) (v, ws[i := Done ts])"
| swap: "i < length ws \<Longrightarrow> ws ! i = Loaded ts cur \<Longrightarrow> cur < ts \<Longrightarrow> v = cur \<Longrightarrow> cas_step (v, ws) (ts, ws[i := Done ts])"
| lost: "i < length ws \<Longrightarrow> ws ! i = Loaded ts cur \<Longrightarrow> cur < ts \<Longrightarrow> v \<noteq> cur \<Longrightarrow> cas_step (v, ws) (v, ws[i := Loading ts])"

inductive_cases cas_stepE: "cas_step (v, ws) c"

section \<open>The page\<close>

datatype metric_value = MInt int | MUint u64 | MRatio int

fun value_text :: "metric_value \<Rightarrow> bytes" where
  "value_text (MInt n) = show_int n"
| "value_text (MUint n) = dec_digits (unat n)"
| "value_text (MRatio r) = FormatFixed 4 (f64_div (f64_of_int r) 10000)"

definition clamp_delay :: "int \<Rightarrow> int \<Rightarrow> int" where
  "clamp_delay now t = (let d = quot (wrap64 (now - t)) 1000 in if d < 0 then 0 else d)"

definition e2eDelay :: "int \<Rightarrow> Metrics \<Rightarrow> int" where
  "e2eDelay now m = (if mLastWriteTs m = 0 then 0 else clamp_delay now (mLastWriteTs m))"

type_synonym metric_line = "string \<times> string \<times> metric_value"

definition page_lines :: "int \<Rightarrow> int \<Rightarrow> (nat \<Rightarrow> Metrics) \<Rightarrow> metric_line list" where
  "page_lines now now2 m = [
     (''sync_cursor_ns'', ''gauge'', MInt (mCursor (m 1))),
     (''sync_delay_seconds'', ''gauge'', MInt (clamp_delay now (mCursor (m 0)))),
     (''wal_pending'', ''gauge'', MInt (mWalPending (m 2))),
     (''wal_size_bytes'', ''gauge'', MInt (mWalBytes (m 3))),
     (''send_total'', ''counter'', MUint (mSendTotal (m 4))),
     (''ack_success'', ''counter'', MUint (mAckOk (m 5))),
     (''ack_fail'', ''counter'', MUint (mAckFail (m 6))),
     (''retry_total'', ''counter'', MUint (mRetry (m 7))),
     (''dlq_total'', ''counter'', MUint (mDlqTotal (m 8))),
     (''heartbeat_total'', ''counter'', MUint (mHeartbeat (m 9))),
     (''poll_skip'', ''counter'', MUint (mPollSkip (m 10))),
     (''recv_total'', ''counter'', MUint (mRecvTotal (m 11))),
     (''write_ok'', ''counter'', MUint (mWriteOk (m 12))),
     (''write_fail'', ''counter'', MUint (mWriteFail (m 13))),
     (''recv_inflight'', ''gauge'', MInt (mInflight (m 14))),
     (''dup_total'', ''counter'', MUint (mDupTotal (m 15))),
     (''point_skip_total'', ''counter'', MUint (mSkipPoint (m 16))),
     (''relay_dlq_total'', ''counter'', MUint (mRelayDLQ (m 17))),
     (''sync_e2e_delay_seconds'', ''gauge'', MInt (e2eDelay now2 (m 18))),
     (''fast_path_state'', ''gauge'', MInt (mFpState (m 19))),
     (''fast_path_batches_total'', ''counter'', MUint (mFpBatch (m 20))),
     (''fast_path_points_total'', ''counter'', MUint (mFpPoints (m 21))),
     (''fast_path_signal_only_total'', ''counter'', MUint (mFpSigOnly (m 22))),
     (''fast_path_dropped_oversize_total'', ''counter'', MUint (mFpDropBig (m 23))),
     (''fast_path_dropped_precision_total'', ''counter'', MUint (mFpDropPrec (m 24))),
     (''fast_path_dropped_backpressure_total'', ''counter'', MUint (mFpDropBP (m 25))),
     (''fast_path_line_skipped_total'', ''counter'', MUint (mFpLineSkip (m 26))),
     (''fast_path_dedup_hits_total'', ''counter'', MUint (mFpDedupHit (m 27))),
     (''vm_sync_wal_disk_usage_ratio'', ''gauge'', MRatio (mWalDiskRatio (m 28))),
     (''vm_sync_backpressure_status'', ''gauge'', MInt (mBpStatus (m 29))),
     (''vm_sync_poller_paused_seconds_total'', ''counter'', MInt (mPausedSecs (m 30))),
     (''vm_sync_dlq_generated_total'', ''counter'', MUint (mDlqTotal (m 31))),
     (''vm_sync_poison_packet_count'', ''counter'', MUint (mPoisonPacket (m 32)))]"

fun metric_block :: "(string \<Rightarrow> bytes) \<Rightarrow> metric_line \<Rightarrow> bytes" where
  "metric_block help (name, kind, v) =
     str ''# HELP '' @ str name @ [32] @ help name @ [newline] @
     str ''# TYPE '' @ str name @ [32] @ str kind @ [newline] @
     str name @ [32] @ value_text v @ [newline]"

definition Render :: "(string \<Rightarrow> bytes) \<Rightarrow> int \<Rightarrow> int \<Rightarrow> (nat \<Rightarrow> Metrics) \<Rightarrow> bytes" where
  "Render help now now2 m = concat (map (metric_block help) (page_lines now now2 m))"

section \<open>The HTTP handler\<close>

record Auth =
  Username :: bytes
  Password :: bytes

text \<open>A request: its path, and the user and password if it has basic authentication.\<close>

record page_request =
  rqPath :: bytes
  rqBasicAuth :: "(bytes \<times> bytes) option"

record page_response =
  rsStatus :: int
  rsHeader :: "(string \<times> bytes) list"
  rsBody :: bytes

definition Handler :: "bytes \<Rightarrow> page_request \<Rightarrow> page_response" where
  "Handler page r = \<lparr>rsStatus = 200, rsHeader = [(''Content-Type'', str ''text/plain; version=0.0.4'')], rsBody = page\<rparr>"

definition unauthorized :: page_response where
  "unauthorized = \<lparr>rsStatus = 401, rsHeader = [(''WWW-Authenticate'', str ''Basic realm=\"influx-sync metrics\"''),
     (''Content-Type'', str ''text/plain; charset=utf-8''), (''X-Content-Type-Options'', str ''nosniff'')],
     rsBody = str ''unauthorized'' @ [newline]\<rparr>"

definition authMiddleware :: "Auth option \<Rightarrow> (page_request \<Rightarrow> page_response) \<Rightarrow> page_request \<Rightarrow> page_response" where
  "authMiddleware auth next =
     (case auth of
        None \<Rightarrow> next
      | Some a \<Rightarrow> if Username a = [] then next
          else (\<lambda>r. case rqBasicAuth r of
                  None \<Rightarrow> unauthorized
                | Some (u, p) \<Rightarrow> if u \<noteq> Username a \<or> p \<noteq> Password a then unauthorized else next r))"

text \<open>The served paths; every other path is not found.\<close>

definition NewHTTPServer :: "bytes \<Rightarrow> Auth option \<Rightarrow> page_request \<Rightarrow> page_response" where
  "NewHTTPServer page auth r =
     (if rqPath r = str ''/metrics'' then authMiddleware auth (Handler page) r
      else \<lparr>rsStatus = 404, rsHeader = [(''Content-Type'', str ''text/plain; charset=utf-8''),
        (''X-Content-Type-Options'', str ''nosniff'')], rsBody = str ''404 page not found'' @ [newline]\<rparr>)"

section \<open>Every caller finishes\<close>

lemma filter_update:
  assumes "i < length ws"
  shows "P (ws ! i) \<Longrightarrow> \<not> P x \<Longrightarrow> length (filter P (ws[i := x])) < length (filter P ws)"
    and "P (ws ! i) = P x \<Longrightarrow> length (filter P (ws[i := x])) = length (filter P ws)"
proof -
  have u: "ws[i := x] = take i ws @ x # drop (Suc i) ws" using assms by (rule upd_conv_take_nth_drop)
  have w: "ws = take i ws @ ws ! i # drop (Suc i) ws" using assms by (rule id_take_nth_drop)
  have "length (filter P ws) = length (filter P (take i ws)) + (if P (ws ! i) then 1 else 0) + length (filter P (drop (Suc i) ws))"
    by (subst w) simp
  then show "P (ws ! i) \<Longrightarrow> \<not> P x \<Longrightarrow> length (filter P (ws[i := x])) < length (filter P ws)"
    "P (ws ! i) = P x \<Longrightarrow> length (filter P (ws[i := x])) = length (filter P ws)" by (simp_all add: u)
qed

fun unfinished :: "writer \<Rightarrow> bool" where
  "unfinished (Done ts) = False"
| "unfinished w = True"

fun stale :: "int \<Rightarrow> writer \<Rightarrow> bool" where
  "stale v (Loaded ts cur) \<longleftrightarrow> cur \<noteq> v"
| "stale v w = False"

fun loading :: "writer \<Rightarrow> bool" where
  "loading (Loading ts) = True"
| "loading w = False"

text \<open>
  A step finishes a caller; or, with as many callers left, one less holds an outdated value; or
  else one less has to load.
\<close>

definition cas_rank :: "int \<times> writer list \<Rightarrow> nat \<times> nat \<times> nat" where
  "cas_rank = (\<lambda>(v, ws). (length (filter unfinished ws), length (filter (stale v) ws), length (filter loading ws)))"

lemma cas_step_rank: "cas_step c c' \<Longrightarrow> (cas_rank c', cas_rank c) \<in> less_than <*lex*> less_than <*lex*> less_than"
proof (induction rule: cas_step.induct)
  case (load i ws ts v)
  then show ?case using filter_update [of i ws unfinished "Loaded ts v"] filter_update [of i ws "stale v" "Loaded ts v"]
      filter_update [of i ws loading "Loaded ts v"] by (simp add: cas_rank_def)
next
  case (older i ws ts cur v)
  then show ?case using filter_update [of i ws unfinished "Done ts"] by (simp add: cas_rank_def)
next
  case (swap i ws ts cur v)
  then show ?case using filter_update [of i ws unfinished "Done ts"] by (simp add: cas_rank_def)
next
  case (lost i ws ts cur v)
  then show ?case using filter_update [of i ws unfinished "Loading ts"] filter_update [of i ws "stale v" "Loading ts"]
    by (simp add: cas_rank_def)
qed

lemma cas_terminates: "wf {(c', c). cas_step c c'}"
proof (rule wf_subset)
  show "wf (inv_image (less_than <*lex*> less_than <*lex*> less_than) cas_rank)" by (intro wf_inv_image wf_lex_prod wf_less_than)
  show "{(c', c). cas_step c c'} \<subseteq> inv_image (less_than <*lex*> less_than <*lex*> less_than) cas_rank"
    using cas_step_rank by auto
qed

definition cas_inv :: "int \<Rightarrow> int list \<Rightarrow> int \<times> writer list \<Rightarrow> bool" where
  "cas_inv v0 tss = (\<lambda>(v, ws). map ts_of ws = tss \<and> v0 \<le> v \<and> v \<in> insert v0 (set tss) \<and>
     (\<forall>w\<in>set ws. case w of Loading ts \<Rightarrow> True | Loaded ts cur \<Rightarrow> cur \<le> v | Done ts \<Rightarrow> ts \<le> v))"

lemma map_update_same: "i < length ws \<Longrightarrow> f x = f (ws ! i) \<Longrightarrow> map f (ws[i := x]) = map f ws"
  by (metis list_update_id map_update nth_map)

lemma cas_step_inv:
  assumes "cas_step c c'" and "cas_inv v0 tss c"
  shows "cas_inv v0 tss c'"
  using assms
proof (induction rule: cas_step.induct)
  case (swap i ws ts cur v)
  have up: "v \<le> ts" using swap(3,4) by simp
  have "ts \<in> set tss" using swap(1,2,5) by (force simp: cas_inv_def in_set_conv_nth)
  moreover have "map ts_of (ws[i := Done ts]) = map ts_of ws" using swap by (intro map_update_same) simp_all
  moreover have "case w of Loading ts \<Rightarrow> True | Loaded t cur \<Rightarrow> cur \<le> ts | Done t \<Rightarrow> t \<le> ts" if "w \<in> set (ws[i := Done ts])" for w
    using set_update_subset_insert [of ws i "Done ts"] that swap(5) up by (force simp: cas_inv_def split: writer.splits)
  ultimately show ?case using swap(5) up by (auto simp: cas_inv_def)
next
  case (load i ws ts v)
  moreover have "map ts_of (ws[i := Loaded ts v]) = map ts_of ws" using load by (intro map_update_same) simp_all
  ultimately show ?case using set_update_subset_insert [of ws i "Loaded ts v"] by (auto simp: cas_inv_def dest!: subsetD)
next
  case (older i ws ts cur v)
  moreover have "map ts_of (ws[i := Done ts]) = map ts_of ws" using older by (intro map_update_same) simp_all
  moreover have "ts \<le> v" using older nth_mem [of i ws] by (force simp: cas_inv_def)
  ultimately show ?case using set_update_subset_insert [of ws i "Done ts"] by (auto simp: cas_inv_def dest!: subsetD)
next
  case (lost i ws ts cur v)
  moreover have "map ts_of (ws[i := Loading ts]) = map ts_of ws" using lost by (intro map_update_same) simp_all
  ultimately show ?case using set_update_subset_insert [of ws i "Loading ts"] by (auto simp: cas_inv_def dest!: subsetD)
qed

lemma cas_run_inv: "cas_step\<^sup>*\<^sup>* (v0, map Loading tss) c \<Longrightarrow> cas_inv v0 tss c"
proof (induction rule: rtranclp_induct)
  case base
  show ?case by (simp add: cas_inv_def comp_def)
next
  case (step c c')
  then show ?case by (auto intro: cas_step_inv)
qed

lemma cas_stuck:
  assumes "\<nexists>c'. cas_step (v, ws) c'" and "w \<in> set ws"
  shows "w = Done (ts_of w)"
proof -
  obtain i where i: "i < length ws" "ws ! i = w" using assms(2) by (auto simp: in_set_conv_nth)
  show ?thesis
  proof (cases w)
    case (Loading ts)
    then show ?thesis using cas_step.load [of i ws ts v] i assms(1) by auto
  next
    case (Loaded ts cur)
    then show ?thesis using cas_step.older [of i ws ts cur v] cas_step.swap [of i ws ts cur v] cas_step.lost [of i ws ts cur v] i assms(1)
      by (metis linorder_not_less)
  qed simp
qed

lemma cas_done: "\<not> cas_step (v, map Done tss) c"
  by (auto elim!: cas_stepE)

lemma foldl_max: "a \<le> foldl max a xs \<and> (\<forall>x\<in>set xs. x \<le> foldl max a xs) \<and> foldl max a xs \<in> insert a (set xs)"
  for a :: "'a :: linorder"
proof (induction xs arbitrary: a)
  case (Cons x xs)
  from Cons [of "max a x"] show ?case by (auto simp: max_def split: if_splits)
qed simp

lemma cas_result:
  assumes "cas_step\<^sup>*\<^sup>* (v0, map Loading tss) (v, ws)" and "\<nexists>c'. cas_step (v, ws) c'"
  shows "ws = map Done tss" and "v = foldl max v0 tss"
proof -
  have inv: "cas_inv v0 tss (v, ws)" by (rule cas_run_inv [OF assms(1)])
  have d: "w = Done (ts_of w)" if "w \<in> set ws" for w by (rule cas_stuck [OF assms(2) that])
  then have "ws = map Done (map ts_of ws)" by (simp add: map_idI)
  moreover have "map ts_of ws = tss" using inv by (simp add: cas_inv_def)
  ultimately show ws: "ws = map Done tss" by (simp only:)
  then have "\<forall>t\<in>set tss. t \<le> v" "v0 \<le> v" "v \<in> insert v0 (set tss)" using inv by (auto simp: cas_inv_def)
  then show "v = foldl max v0 tss" using foldl_max [of v0 tss] by (intro antisym) auto
qed

section \<open>Reading the page\<close>

text \<open>A reader of the page: the value behind the name on the first line that starts with it.\<close>

definition scrape :: "bytes \<Rightarrow> string \<Rightarrow> bytes option" where
  "scrape page name = map_option (drop (length name + 1))
     (find (\<lambda>l. takeWhile (\<lambda>c. c \<noteq> 32) l = str name) (split_byte newline page))"

text \<open>The number a text stands for, with or without decimals.\<close>

definition read_number :: "bytes \<Rightarrow> rat option" where
  "read_number s =
     (if 46 \<in> set s then dec_value s
      else let neg = (s \<noteq> [] \<and> hd s = 45); ds = (if neg then tl s else s) in
        if ds = [] \<or> \<not> list_all is_digit ds then None else Some (of_int (if neg then - digits_val ds else digits_val ds)))"

fun number_of :: "metric_value \<Rightarrow> rat" where
  "number_of (MInt n) = of_int n"
| "number_of (MUint n) = of_int (uint n)"
| "number_of (MRatio r) = of_int r / 10000"

lemma str_inject: "str a = str b \<longleftrightarrow> a = b"
proof -
  have "inj (\<lambda>c. word_of_nat (of_char c) :: byte)"
  proof (rule injI)
    fix c d :: char assume "(word_of_nat (of_char c) :: byte) = word_of_nat (of_char d)"
    then have "unat (word_of_nat (of_char c) :: byte) = unat (word_of_nat (of_char d) :: byte)" by simp
    then show "c = d" by (simp add: unat_of_nat take_bit_nat_eq_self of_char_eq_iff)
  qed
  then show ?thesis unfolding str_def by (simp add: inj_map_eq_map)
qed

lemma no_point: "list_all is_digit ds \<Longrightarrow> 46 \<notin> set ds"
  by (auto simp: list_all_iff is_digit_def)

lemma read_digits:
  "read_number (dec_digits n) = Some (of_nat n)"
  "read_number (45 # dec_digits n) = Some (- of_nat n)"
proof -
  have d: "list_all is_digit (dec_digits n)" "dec_digits n \<noteq> []" using dec_digits_digits by simp_all
  then have "hd (dec_digits n) \<noteq> 45" using digit_not_sign by (cases "dec_digits n") auto
  then show "read_number (dec_digits n) = Some (of_nat n)" "read_number (45 # dec_digits n) = Some (- of_nat n)"
    using d no_point [OF d(1)] by (simp_all add: read_number_def Let_def digits_val_dec)
qed

lemma dec_value_point: "dec_value s = Some q \<Longrightarrow> 46 \<in> set s"
proof -
  assume "dec_value s = Some q"
  then obtain t where "set t \<subseteq> set s" "dropWhile is_digit t \<noteq> []" "hd (dropWhile is_digit t) = 46"
    by (auto simp: dec_value_def Let_def split: if_splits) (metis list.set_sel(2) subsetI)
  then show ?thesis by (metis hd_in_set set_dropWhileD subsetD)
qed

lemma read_value:
  assumes "\<And>r. v = MRatio r \<Longrightarrow> \<bar>r\<bar> < 2 ^ 52"
  shows "read_number (value_text v) = Some (number_of v)"
proof (cases v)
  case (MInt n)
  then show ?thesis using read_digits by (cases "n < 0") (simp_all add: show_int_def of_nat_nat)
next
  case (MUint n)
  then show ?thesis using read_digits(1) [of "unat n"] by simp
next
  case (MRatio r)
  have "dec_value (value_text v) = Some (of_int r / 10000)"
    using FormatFixed_value [of r 0 4] assms MRatio by simp
  moreover from dec_value_point [OF this] have "46 \<in> set (value_text v)" .
  ultimately show ?thesis using MRatio by (simp only: read_number_def if_True number_of.simps)
qed

lemma value_text_clean: "newline \<notin> set (value_text v)"
proof -
  have d: "newline \<notin> set (dec_digits n)" for n using dec_digits_digits [of n] by (auto simp: list_all_iff is_digit_def newline_def)
  then have p: "newline \<notin> set (pad w (dec_digits n))" for w n by (auto simp: pad_def newline_def)
  have f: "newline \<notin> set (fmt_f n e)" for n e using d p by (auto simp: fmt_f_def Let_def newline_def)
  have "newline \<notin> set (FormatFixed k x)" for k x
    using f by (cases x) (auto simp: sign_text_def newline_def str_def)
  then show ?thesis using d by (cases v) (auto simp: show_int_def newline_def)
qed

text \<open>The three lines of a metric.\<close>

fun block_lines :: "(string \<Rightarrow> bytes) \<Rightarrow> metric_line \<Rightarrow> bytes list" where
  "block_lines help (name, kind, v) = [str ''# HELP '' @ str name @ 32 # help name,
     str ''# TYPE '' @ str name @ 32 # str kind, str name @ 32 # value_text v]"

lemma metric_block_lines: "metric_block help e = concat (map (\<lambda>l. l @ [newline]) (block_lines help e))"
  by (cases e) simp

lemma split_lines: "\<forall>l\<in>set ls. newline \<notin> set l \<Longrightarrow>
  split_byte newline (concat (map (\<lambda>l. l @ [newline]) ls)) = ls @ [[]]"
  by (induction ls) (auto simp: split_byte_append)

definition good_name :: "string \<Rightarrow> bool" where
  "good_name name \<longleftrightarrow> name \<noteq> [] \<and> CHR '' '' \<notin> set name \<and> CHR 0x0A \<notin> set name \<and> hd name \<noteq> CHR ''#''"

lemma str_mem: "(word_of_nat (of_char c) :: byte) \<in> set (str name) \<longleftrightarrow> c \<in> set name"
proof -
  have "(word_of_nat (of_char c) :: byte) = word_of_nat (of_char d) \<longleftrightarrow> c = d" for d
    using str_inject [of "[c]" "[d]"] by (simp add: str_def)
  then show ?thesis by (simp only: str_def set_map image_iff) auto
qed

lemma good_nameD:
  assumes "good_name name"
  shows "32 \<notin> set (str name)" "newline \<notin> set (str name)" "str name \<noteq> []" "hd (str name) \<noteq> 35" "str name \<noteq> [35]"
proof -
  show "32 \<notin> set (str name)" using assms str_mem [of "CHR '' ''" name] by (simp add: good_name_def)
  show "newline \<notin> set (str name)" using assms str_mem [of "CHR 0x0A" name] by (simp add: good_name_def newline_def)
  show "str name \<noteq> []" using assms by (simp add: good_name_def str_def)
  have "str [hd name] \<noteq> str ''#''" using assms str_inject by (simp add: good_name_def)
  then show "hd (str name) \<noteq> 35" "str name \<noteq> [35]" using assms by (cases name; simp add: good_name_def str_def)+
qed

lemma page_names:
  "distinct (map fst (page_lines now now2 m))" "\<forall>e\<in>set (page_lines now now2 m). good_name (fst e)"
  "\<forall>e\<in>set (page_lines now now2 m). CHR 0x0A \<notin> set (fst (snd e))"
  by (simp_all add: page_lines_def good_name_def)

lemma field_of: "32 \<notin> set k \<Longrightarrow> takeWhile (\<lambda>c. c \<noteq> 32) (k @ 32 # s) = k" for k :: bytes
  by (auto simp: takeWhile_append)

lemma find_block:
  assumes "good_name name" and "\<forall>e\<in>set es. good_name (fst e)" and "distinct (map fst es)" and "(name, kind, v) \<in> set es"
  shows "find (\<lambda>l. takeWhile (\<lambda>c. c \<noteq> 32) l = str name) (concat (map (block_lines help) es) @ r) = Some (str name @ 32 # value_text v)"
  using assms(2-4)
proof (induction es)
  case (Cons e es)
  obtain n k w where e: "e = (n, k, w)" by (cases e)
  have g: "good_name n" using Cons.prems e by simp
  have sharp: "takeWhile (\<lambda>c. c \<noteq> 32) (str ''# HELP '' @ x) = [35]" "takeWhile (\<lambda>c. c \<noteq> 32) (str ''# TYPE '' @ x) = [35]" for x
    by (simp_all add: str_def)
  note N = good_nameD [OF assms(1)] and F = field_of [OF good_nameD(1) [OF g]]
  show ?case
  proof (cases "n = name")
    case True
    then have "(name, kind, v) = e" using Cons.prems e by (auto simp: image_iff)
    then show ?thesis using e F sharp N(5) by simp
  next
    case False
    then have "str n \<noteq> str name" by (simp add: str_inject)
    then show ?thesis using Cons e F sharp N(5) False by simp
  qed
qed simp

lemma block_clean:
  assumes "good_name (fst e)" and "CHR 0x0A \<notin> set (fst (snd e))" and "newline \<notin> set (help (fst e))"
  shows "\<forall>l\<in>set (block_lines help e). newline \<notin> set l"
proof -
  obtain n k w where e: "e = (n, k, w)" by (cases e)
  have "newline \<notin> set (str k)" using assms(2) e str_mem [of "CHR 0x0A" k] by (simp add: newline_def)
  moreover have "newline \<notin> set (str ''# HELP '')" "newline \<notin> set (str ''# TYPE '')" "newline \<noteq> 32" by (simp_all add: str_def newline_def)
  ultimately show ?thesis using assms e good_nameD(2) [of n] value_text_clean [of w] by auto
qed

lemma Render_lines:
  assumes "\<forall>n. newline \<notin> set (help n)"
  shows "split_byte newline (Render help now now2 m) = concat (map (block_lines help) (page_lines now now2 m)) @ [[]]"
proof -
  have r: "Render help now now2 m = concat (map (\<lambda>l. l @ [newline]) (concat (map (block_lines help) (page_lines now now2 m))))"
  proof -
    have "concat (map (metric_block help) es) = concat (map (\<lambda>l. l @ [newline]) (concat (map (block_lines help) es)))" for es
      by (induction es) (simp_all add: metric_block_lines)
    then show ?thesis by (simp only: Render_def)
  qed
  have "newline \<notin> set l" if "e \<in> set (page_lines now now2 m)" "l \<in> set (block_lines help e)" for e l
    using block_clean [of e "help"] page_names(2,3) [of now now2 m] that assms by blast
  then show ?thesis unfolding r by (intro split_lines) auto
qed

section \<open>Properties of the metrics\<close>

text \<open>
  C31: Recording the time of the last write ends and keeps the maximum: however the callers of
  \<^verbatim>\<open>SetLastWriteTs\<close> interleave, there is no infinite run of their loads and swaps, a caller
  that has not returned can always take a step, and when all have returned the shared value is the
  maximum of its first value and all recorded times, the result of recording them one after the
  other.
\<close>

theorem last_write_is_max:
  "wf {(c', c). cas_step c c'} \<and>
   (\<forall>v ws. cas_step\<^sup>*\<^sup>* (v0, map Loading tss) (v, ws) \<and> (\<nexists>c'. cas_step (v, ws) c') \<longrightarrow>
     ws = map Done tss \<and> v = mLastWriteTs (foldl (\<lambda>m ts. update (CallSetLastWriteTs ts) m) (newMetrics\<lparr>mLastWriteTs := v0\<rparr>) tss))"
proof -
  have "mLastWriteTs (foldl (\<lambda>m ts. update (CallSetLastWriteTs ts) m) m tss) = foldl max (mLastWriteTs m) tss" for m
    by (induction tss arbitrary: m) (simp_all add: max_def)
  then show ?thesis using cas_terminates cas_result by auto
qed

lemma cas_runs: "\<exists>c'. cas_step\<^sup>*\<^sup>* c c' \<and> (\<nexists>d. cas_step c' d)"
proof (induction c rule: wf_induct_rule [OF cas_terminates])
  case (1 c)
  show ?case
  proof (cases "\<exists>d. cas_step c d")
    case True
    then obtain d where d: "cas_step c d" ..
    then obtain c' where "cas_step\<^sup>*\<^sup>* d c'" "\<nexists>e. cas_step c' e" using 1 [of d] by auto
    with d show ?thesis by (meson converse_rtranclp_into_rtranclp)
  next
    case False
    then show ?thesis by (intro exI [of _ c]) simp
  qed
qed

theorem last_write_is_max_witness:
  "\<exists>ws. cas_step\<^sup>*\<^sup>* (5, map Loading [9, 3, 7]) (9, ws) \<and> ws = map Done [9, 3, 7]"
proof -
  obtain v ws where r: "cas_step\<^sup>*\<^sup>* (5, map Loading [9, 3, 7]) (v, ws)" "\<nexists>d. cas_step (v, ws) d"
    using cas_runs [of "(5, map Loading [9, 3, 7])"] by auto
  have "ws = map Done [9, 3, 7] \<and> v = 9"
    using last_write_is_max [of 5 "[9, 3, 7]"] r by (auto simp: newMetrics_def)
  with r show ?thesis by auto
qed

text \<open>
  C39: Every number on the metrics page is read back by name: looking up the name of a metric
  gives the value its load saw, exactly, the disk ratio as the stored ten-thousandths included,
  although the help text and the other metrics are in the same text.
\<close>

theorem Render_roundtrip:
  assumes "(name, kind, v) \<in> set (page_lines now now2 m)" and "\<forall>n. newline \<notin> set (help n)"
    and "\<bar>mWalDiskRatio (m 28)\<bar> < 2 ^ 52"
  shows "Option.bind (scrape (Render help now now2 m) name) read_number = Some (number_of v)"
proof -
  have g: "good_name name" using page_names(2) assms(1) by force
  have "scrape (Render help now now2 m) name = Some (value_text v)"
    unfolding scrape_def Render_lines [OF assms(2)] find_block [OF g page_names(2,1) assms(1)]
    by (simp add: str_def)
  moreover have "\<bar>r\<bar> < 2 ^ 52" if "v = MRatio r" for r
    using that assms(1,3) by (simp add: page_lines_def)
  then have "read_number (value_text v) = Some (number_of v)" by (rule read_value)
  ultimately show ?thesis by simp
qed

theorem Render_roundtrip_witness:
  "Option.bind (scrape (Render (\<lambda>_. str ''help'') 10 10 (\<lambda>_. update CallIncSend newMetrics)) ''send_total'') read_number = Some 1"
  using Render_roundtrip [of "''send_total''" "''counter''" "MUint 1" 10 10 "\<lambda>_. update CallIncSend newMetrics" "\<lambda>_. str ''help''"]
  by (simp add: page_lines_def newMetrics_def str_def newline_def)

text \<open>
  The metrics page is served exactly when no user name is configured or the request carries the
  configured user and password; every other answer is the same for all counters.
\<close>

theorem metrics_page_guarded:
  "NewHTTPServer page auth r = Handler page r \<longleftrightarrow> rqPath r = str ''/metrics'' \<and>
     (case auth of None \<Rightarrow> True | Some a \<Rightarrow> Username a = [] \<or> rqBasicAuth r = Some (Username a, Password a))"
  "NewHTTPServer page auth r \<noteq> Handler page r \<Longrightarrow> NewHTTPServer page auth r = NewHTTPServer page' auth r"
  by (auto simp: NewHTTPServer_def authMiddleware_def Handler_def unauthorized_def split: option.splits if_splits)

end
