(* ===== verification/Config.thy ===== *)
theory Config
  imports Receiver Poller Sender Transport Vm_Request Metrics
begin

text \<open>
  The configuration, \<^verbatim>\<open>src/internal/config/config.go\<close>: sizes and durations as text, the
  checks of a loaded configuration, environment overrides and the conversion into the settings of
  the components. The contents of the file and the YAML decoder are arguments.
\<close>

section \<open>Sizes\<close>

datatype conf_err =
    Required string
  | BadValue string
  | BadDuration bytes
  | BadSize bytes
  | BadYaml string
  | BadFile string

definition upper :: "bytes \<Rightarrow> bytes" where
  "upper s = map (\<lambda>b. if 97 \<le> b \<and> b \<le> 122 then b - 32 else b) s"

definition size_units :: "(bytes \<times> int) list" where
  "size_units = [(str ''GB'', 1073741824), (str ''MB'', 1048576), (str ''KB'', 1024), (str ''B'', 1)]"

definition parseByteSize :: "bytes \<Rightarrow> conf_err + int" where
  "parseByteSize s =
     (let t = TrimSpace s in
      if t = [] then Inl (BadSize s)
      else
        let tm = (case find (\<lambda>u. has_suffix (fst u) (upper t)) size_units of
                    None \<Rightarrow> (t, 1)
                  | Some u \<Rightarrow> (TrimSpace (take (length t - length (fst u)) t), snd u))
        in (case ParseInt (fst tm) of None \<Rightarrow> Inl (BadSize s) | Some n \<Rightarrow> Inr (wrap64 (n * snd tm))))"

text \<open>A size in the file: an integer, or else a text.\<close>

definition UnmarshalYAML :: "int option \<Rightarrow> string + bytes \<Rightarrow> conf_err + int" where
  "UnmarshalYAML asInt asText =
     (case asInt of
        Some n \<Rightarrow> Inr n
      | None \<Rightarrow> (case asText of Inl e \<Rightarrow> Inl (BadYaml e) | Inr s \<Rightarrow> parseByteSize s))"

definition parseSize :: "bytes \<Rightarrow> conf_err + int" where
  "parseSize s0 =
     (let s = TrimSpace s0; ds = takeWhile is_digit s; unit = upper (TrimSpace (dropWhile is_digit s)) in
      if s = [] \<or> ds = [] then Inl (BadSize s0)
      else (case ParseInt ds of
        None \<Rightarrow> Inl (BadSize s0)
      | Some n \<Rightarrow>
          if unit = [] \<or> unit = str ''B'' then Inr n
          else if unit = str ''KB'' then Inr (wrap64 (n * 1024))
          else if unit = str ''MB'' then Inr (wrap64 (n * 1024 * 1024))
          else if unit = str ''GB'' then Inr (wrap64 (n * 1024 * 1024 * 1024))
          else Inl (BadSize s0)))"

section \<open>Durations\<close>

definition is_num_byte :: "byte \<Rightarrow> bool" where
  "is_num_byte b \<longleftrightarrow> b = 45 \<or> b = 43 \<or> b = 46 \<or> is_digit b"

lemma num_rest: "takeWhile P s \<noteq> [] \<Longrightarrow> length (dropWhile Q (dropWhile P s)) < length s"
proof -
  assume "takeWhile P s \<noteq> []"
  then have "length (dropWhile P s) < length s"
    by (metis length_append length_greater_0_conv less_add_same_cancel2 takeWhile_dropWhile_id)
  then show ?thesis using length_dropWhile_le [of Q "dropWhile P s"] by simp
qed

function durExt_loop :: "bytes \<Rightarrow> bytes option" where
  "durExt_loop s =
     (if s = [] then Some []
      else
        let num = takeWhile is_num_byte s; r = dropWhile is_num_byte s;
            unit = takeWhile (\<lambda>b. \<not> is_num_byte b) r; rest = dropWhile (\<lambda>b. \<not> is_num_byte b) r
        in if num = [] then None
           else if unit = str ''d'' then
             (case ParseFloat num of
                None \<Rightarrow> None
              | Some x \<Rightarrow> map_option (\<lambda>out. FormatShortest (f64_scale 24 x) @ str ''h'' @ out) (durExt_loop rest))
           else map_option (\<lambda>out. num @ unit @ out) (durExt_loop rest))"
  by pat_completeness auto
termination
proof (relation "measure length", goal_cases)
  case 1
  show ?case by simp
next
  case (2 s num r unit rest t)
  then show ?case using num_rest by simp
next
  case (3 s num r unit rest)
  then show ?case using num_rest by simp
qed

declare durExt_loop.simps [simp del]

definition parseDurationExt :: "bytes \<Rightarrow> int option" where
  "parseDurationExt s0 =
     (let s = TrimSpace s0 in
      if s = [] then None else Option.bind (durExt_loop s) ParseDuration)"

definition validateDur :: "bytes \<Rightarrow> conf_err option" where
  "validateDur s =
     (if s = [] then None
      else (case parseDurationExt s of
        None \<Rightarrow> Some (BadDuration s)
      | Some d \<Rightarrow> if d < 0 then Some (BadDuration s) else None))"

definition dur :: "bytes \<Rightarrow> int \<Rightarrow> int" where
  "dur s def = (if s = [] then def else (case parseDurationExt s of None \<Rightarrow> def | Some d \<Rightarrow> d))"

section \<open>Shared parts of the configurations\<close>

record LogConfig =
  log_Level :: bytes
  log_File :: bytes
  log_MaxMB :: int
  log_MaxBackups :: int

record MonitorConfig =
  mon_Addr :: bytes
  mon_Username :: bytes
  mon_Password :: bytes

definition MonitorAuth :: "MonitorConfig \<Rightarrow> Auth option" where
  "MonitorAuth c = (if mon_Username c = [] then None else Some \<lparr>Username = mon_Username c, Password = mon_Password c\<rparr>)"

definition loadFile :: "(bytes \<Rightarrow> string + 'c) \<Rightarrow> string + bytes \<Rightarrow> conf_err + 'c" where
  "loadFile yaml file =
     (case file of
        Inl e \<Rightarrow> Inl (BadFile e)
      | Inr data \<Rightarrow> (case yaml data of Inl e \<Rightarrow> Inl (BadYaml e) | Inr c \<Rightarrow> Inr c))"

section \<open>The sender's configuration\<close>

record SenderConf =
  Source :: VmConfig
  Sync_Interval :: bytes
  Sync_Window :: bytes
  Sync_Watermark :: bytes
  Sync_MaxWindow :: bytes
  Sync_FrameLines :: int
  Sync_FrameBytes :: int
  Sync_WindowTarget :: int
  Sync_ExportLag :: bytes
  Sync_Backfill :: bytes
  WAL_Path :: bytes
  WAL_SegmentSize :: bytes
  TCP_Addr :: bytes
  TCP_Timeout :: bytes
  TCP_DialTimeout :: bytes
  TCP_Compression :: bytes
  Sender_MaxRetry :: int
  Sender_BackoffBase :: bytes
  Sender_BackoffMax :: bytes
  Sender_HeartbeatInterval :: bytes
  Sender_Pipeline :: int
  SMonitor :: MonitorConfig
  SLog :: LogConfig

definition env_or :: "(string \<Rightarrow> bytes) \<Rightarrow> string \<Rightarrow> bytes \<Rightarrow> bytes" where
  "env_or getenv name v = (if getenv name \<noteq> [] then getenv name else v)"

definition applySenderEnv :: "(string \<Rightarrow> bytes) \<Rightarrow> SenderConf \<Rightarrow> SenderConf" where
  "applySenderEnv ge c = c\<lparr>
     Source := (Source c)\<lparr>vm_URL := env_or ge ''VMSYNC_SOURCE_URL'' (vm_URL (Source c))\<rparr>,
     TCP_Addr := env_or ge ''VMSYNC_TCP_ADDR'' (TCP_Addr c),
     WAL_Path := env_or ge ''VMSYNC_WAL_PATH'' (WAL_Path c),
     SMonitor := (SMonitor c)\<lparr>mon_Addr := env_or ge ''VMSYNC_MONITOR_ADDR'' (mon_Addr (SMonitor c))\<rparr>,
     SLog := (SLog c)\<lparr>log_Level := env_or ge ''VMSYNC_LOG_LEVEL'' (log_Level (SLog c))\<rparr>\<rparr>"

definition sender_durs :: "SenderConf \<Rightarrow> bytes list" where
  "sender_durs c = [Sync_Interval c, Sync_Window c, Sync_Watermark c, Sync_MaxWindow c, Sync_ExportLag c,
     TCP_Timeout c, TCP_DialTimeout c, Sender_BackoffBase c, Sender_BackoffMax c, Sender_HeartbeatInterval c]"

text \<open>The error of the first value that has one; the code visits them in an arbitrary order.\<close>

fun first_bad :: "bytes list \<Rightarrow> conf_err option" where
  "first_bad [] = None"
| "first_bad (s # ss) = (case validateDur s of None \<Rightarrow> first_bad ss | Some e \<Rightarrow> Some e)"

definition validateSender :: "SenderConf \<Rightarrow> conf_err option" where
  "validateSender c =
     (if vm_URL (Source c) = [] then Some (Required ''source.url'')
      else if TCP_Addr c = [] then Some (Required ''tcp.addr'')
      else if WAL_Path c = [] then Some (Required ''wal.path'')
      else (case first_bad (sender_durs c) of
        Some e \<Rightarrow> Some e
      | None \<Rightarrow>
          if Sender_Pipeline c < 0 then Some (BadValue ''sender.pipeline_window'')
          else if Sync_WindowTarget c < 0 then Some (BadValue ''sync.window_target'')
          else if TCP_Compression c \<notin> {[], str ''zstd'', str ''gzip''} then Some (BadValue ''tcp.compression'')
          else
            let b = TrimSpace (Sync_Backfill c) in
            if b \<noteq> [] \<and> b \<noteq> str ''all'' \<and> b \<noteq> str ''0'' then
              (case parseDurationExt b of
                 None \<Rightarrow> Some (BadDuration b)
               | Some d \<Rightarrow> if d < 0 then Some (BadDuration b) else None)
            else None))"

definition LoadSender :: "(string \<Rightarrow> bytes) \<Rightarrow> (bytes \<Rightarrow> string + SenderConf) \<Rightarrow> string + bytes \<Rightarrow> conf_err + SenderConf" where
  "LoadSender ge yaml file =
     (case loadFile yaml file of
        Inl e \<Rightarrow> Inl e
      | Inr c0 \<Rightarrow> let c = applySenderEnv ge c0 in
          (case validateSender c of Some e \<Rightarrow> Inl e | None \<Rightarrow> Inr c))"

definition ValidateBackfill :: "bytes \<Rightarrow> conf_err option" where
  "ValidateBackfill s =
     (let b = TrimSpace s in
      if b = [] \<or> b = str ''all'' \<or> b = str ''0'' \<or> b = str ''0s'' then None
      else (case parseDurationExt b of
              None \<Rightarrow> Some (BadDuration b)
            | Some d \<Rightarrow> if d < 0 then Some (BadDuration b) else None))"

definition CompressionFrameType :: "SenderConf \<Rightarrow> u8" where
  "CompressionFrameType c = (if TCP_Compression c = str ''gzip'' then TypeData else TypeDataZstd)"

section \<open>Settings of the components\<close>

definition pollerConfig :: "SenderConf \<Rightarrow> PollerConfig" where
  "pollerConfig c = \<lparr>
     Interval = dur (Sync_Interval c) 500000000,
     Window = dur (Sync_Window c) 5000000000,
     Watermark = dur (Sync_Watermark c) 1000000000,
     MaxWindow = dur (Sync_MaxWindow c) 30000000000,
     FrameLines = Sync_FrameLines c,
     FrameBytes = Sync_FrameBytes c,
     WindowTarget = Sync_WindowTarget c,
     ExportLag = dur (Sync_ExportLag c) 0,
     Compression = CompressionFrameType c\<rparr>"

definition WatermarkDuration :: "SenderConf \<Rightarrow> int" where
  "WatermarkDuration c = dur (Sync_Watermark c) 1000000000"

definition EffectiveExportLag :: "SenderConf \<Rightarrow> int" where
  "EffectiveExportLag c =
     (let lag0 = WatermarkDuration c; v = dur (Sync_ExportLag c) 0;
          lag = (if v > lag0 then v else lag0)
      in if lag < DefaultExportVisibilityLag then DefaultExportVisibilityLag else lag)"

datatype BackfillSpec = BackfillNone | BackfillAll | BackfillDuration int

definition backfillSpec :: "SenderConf \<Rightarrow> BackfillSpec" where
  "backfillSpec c =
     (let v = TrimSpace (Sync_Backfill c) in
      if v = [] \<or> v = str ''all'' then BackfillAll
      else if v = str ''0'' \<or> v = str ''0s'' then BackfillNone
      else (case parseDurationExt v of
              None \<Rightarrow> BackfillAll
            | Some d \<Rightarrow> if d \<le> 0 then BackfillAll else BackfillDuration d))"

definition senderLoopConfig :: "SenderConf \<Rightarrow> SenderConfig" where
  "senderLoopConfig c = \<lparr>
     MaxRetry = Sender_MaxRetry c,
     BackoffBase = dur (Sender_BackoffBase c) 1000000000,
     BackoffMax = dur (Sender_BackoffMax c) 60000000000,
     HeartbeatInterval = dur (Sender_HeartbeatInterval c) 30000000000,
     IdleSleep = 0,
     Pipeline = Sender_Pipeline c\<rparr>"

record ClientConfig =
  Addr :: bytes
  Timeout :: int
  DialTimeout :: int

definition clientConfig :: "SenderConf \<Rightarrow> ClientConfig" where
  "clientConfig c = \<lparr>Addr = TCP_Addr c, Timeout = dur (TCP_Timeout c) 10000000000,
     DialTimeout = dur (TCP_DialTimeout c) 10000000000\<rparr>"

definition NewClient :: "ClientConfig \<Rightarrow> ClientConfig" where
  "NewClient c = (let t = (if Timeout c \<le> 0 then 10000000000 else Timeout c) in
     \<lparr>Addr = Addr c, Timeout = t, DialTimeout = (if DialTimeout c \<le> 0 then t else DialTimeout c)\<rparr>)"

definition SegmentSize :: "SenderConf \<Rightarrow> int" where
  "SegmentSize c =
     (if WAL_SegmentSize c = [] then DefaultSegmentSize
      else (case parseSize (WAL_SegmentSize c) of Inl _ \<Rightarrow> DefaultSegmentSize | Inr d \<Rightarrow> d))"

section \<open>The receiver's configuration\<close>

record ReceiverConf =
  Target :: VmConfig
  RTCP_Listen :: bytes
  RTCP_ReadTimeout :: bytes
  RTCP_MaxInflight :: int
  RTCP_MaxConns :: int
  Dedup_Cap :: int
  Dedup_LastSeqFile :: bytes
  DLQ_Dir :: bytes
  Relay_Addr :: bytes
  Relay_WALDir :: bytes
  Relay_Timeout :: bytes
  Relay_DLQDir :: bytes
  RMonitor :: MonitorConfig
  RLog :: LogConfig

definition applyReceiverEnv :: "(string \<Rightarrow> bytes) \<Rightarrow> ReceiverConf \<Rightarrow> ReceiverConf" where
  "applyReceiverEnv ge c = c\<lparr>
     Target := (Target c)\<lparr>vm_URL := env_or ge ''VMSYNC_TARGET_URL'' (vm_URL (Target c))\<rparr>,
     RTCP_Listen := env_or ge ''VMSYNC_TCP_LISTEN'' (RTCP_Listen c),
     RMonitor := (RMonitor c)\<lparr>mon_Addr := env_or ge ''VMSYNC_MONITOR_ADDR'' (mon_Addr (RMonitor c))\<rparr>,
     RLog := (RLog c)\<lparr>log_Level := env_or ge ''VMSYNC_LOG_LEVEL'' (log_Level (RLog c))\<rparr>\<rparr>"

definition validateReceiver :: "ReceiverConf \<Rightarrow> conf_err option" where
  "validateReceiver c =
     (if vm_URL (Target c) = [] then Some (Required ''target.url'')
      else if RTCP_Listen c = [] then Some (Required ''tcp.listen'')
      else if RTCP_MaxInflight c < 0 then Some (BadValue ''tcp.max_inflight'')
      else if RTCP_MaxConns c < 0 then Some (BadValue ''tcp.max_conns'')
      else first_bad [RTCP_ReadTimeout c, Relay_Timeout c])"

definition LoadReceiver :: "(string \<Rightarrow> bytes) \<Rightarrow> (bytes \<Rightarrow> string + ReceiverConf) \<Rightarrow> string + bytes \<Rightarrow> conf_err + ReceiverConf" where
  "LoadReceiver ge yaml file =
     (case loadFile yaml file of
        Inl e \<Rightarrow> Inl e
      | Inr c0 \<Rightarrow> let c = applyReceiverEnv ge c0 in
          (case validateReceiver c of Some e \<Rightarrow> Inl e | None \<Rightarrow> Inr c))"

definition serverConfig :: "ReceiverConf \<Rightarrow> ServerConfig" where
  "serverConfig c = \<lparr>Listen = RTCP_Listen c, ReadTimeout = dur (RTCP_ReadTimeout c) 60000000000,
     MaxInflight = RTCP_MaxInflight c, MaxConns = RTCP_MaxConns c\<rparr>"

text \<open>
  The receiver's settings as the receiver reads them: which files it keeps. Paths do not matter
  to it, the relay WAL is an argument of \<^verbatim>\<open>New\<close>, and the callback for the
  time of the last write is added by the caller.
\<close>

definition receiverConfig :: "ReceiverConf \<Rightarrow> RecvConfig" where
  "receiverConfig c = \<lparr>cLastSeqFile = (Dedup_LastSeqFile c \<noteq> []), cRelayDLQDir = (Relay_DLQDir c \<noteq> []), cLastWriteTs = False\<rparr>"

definition RelayTimeout :: "ReceiverConf \<Rightarrow> int" where
  "RelayTimeout c = dur (Relay_Timeout c) 10000000000"

end
