(* ===== verification/Config_Text.thy ===== *)
theory Config_Text
  imports Config
begin

text \<open>
  What the texts of a configuration file mean, \<^verbatim>\<open>src/internal/config/config.go\<close>: sizes
  and durations are read as their value, the backfill policy as what it says, and the settings a
  loaded configuration gives to the components are within their ranges.
\<close>

section \<open>Durations as text\<close>

text \<open>The units of the file: those of \<^verbatim>\<open>time.ParseDuration\<close> and the day.\<close>

definition conf_units :: "(bytes \<times> nat) list" where
  "conf_units = (str ''d'', 86400000000000) # dur_units"

type_synonym dur_parts = "(nat \<times> bytes \<times> nat) list"

definition dur_text :: "dur_parts \<Rightarrow> bytes" where
  "dur_text ps = concat (map (\<lambda>(n, u, k). dec_digits n @ u) ps)"

definition dur_total :: "dur_parts \<Rightarrow> nat" where
  "dur_total ps = sum_list (map (\<lambda>(n, u, k). n * k) ps)"

lemma dur_text_simps [simp]:
  "dur_text [] = []" "dur_text ((n, u, k) # ps) = dec_digits n @ u @ dur_text ps"
  "dur_total [] = 0" "dur_total ((n, u, k) # ps) = n * k + dur_total ps"
  by (simp_all add: dur_text_def dur_total_def)

lemma dec_digits_head [simp]: "dec_digits n \<noteq> []" "is_digit (hd (dec_digits n))"
  using dec_digits_digits [of n] by (auto simp: list_all_iff)

lemma dur_text_head: "ps \<noteq> [] \<Longrightarrow> dur_text ps \<noteq> [] \<and> is_digit (hd (dur_text ps))"
  by (cases ps) auto

text \<open>\<^verbatim>\<open>time.ParseDuration\<close> adds up the parts.\<close>

lemma dur_loop_parts:
  assumes "\<forall>(n, u, k)\<in>set ps. (u, k) \<in> set dur_units" and "d + dur_total ps < 2 ^ 63"
  shows "dur_loop d (dur_text ps) = Some (d + dur_total ps)"
  using assms
proof (induction ps arbitrary: d)
  case (Cons p ps)
  obtain n u k where p: "p = (n, u, k)" by (cases p)
  have "dur_text ps = [] \<or> in_number (hd (dur_text ps))"
    using dur_text_head [of ps] by (cases "ps = []") (auto simp: in_number_def)
  then have part: "dur_part (dec_digits n @ u @ dur_text ps) = Some (n * k, dur_text ps)"
    using Cons.prems p by (intro dur_part_unit) auto
  have "d + n * k < 2 ^ 63" using Cons.prems(2) p by simp
  moreover from this have "(d + n * k) mod 2 ^ 64 = d + n * k" by (intro mod_less) simp
  moreover have "dec_digits n @ u @ dur_text ps \<noteq> []" by simp
  ultimately show ?case using Cons.IH [of "d + n * k"] Cons.prems p part
    by (simp add: dur_loop.simps [of d "dec_digits n @ u @ dur_text ps"] Let_def add.assoc)
qed (simp add: dur_loop.simps)

lemma ParseDuration_parts:
  assumes "ps \<noteq> []" and "\<forall>(n, u, k)\<in>set ps. (u, k) \<in> set dur_units" and "dur_total ps < 2 ^ 63"
  shows "ParseDuration (dur_text ps) = Some (int (dur_total ps))"
proof -
  note hd = dur_text_head [OF assms(1)]
  then have nosign: "hd (dur_text ps) \<noteq> 45" "hd (dur_text ps) \<noteq> 43" using digit_not_sign by auto
  have "dur_text ps \<noteq> [48]"
  proof (cases ps)
    case (Cons p qs)
    obtain n u k where "p = (n, u, k)" by (cases p)
    moreover have "u \<noteq> []" using assms(2) Cons calculation dur_units_text by auto
    ultimately show ?thesis using Cons by (auto simp: append_eq_Cons_conv)
  qed (use assms(1) in simp)
  then show ?thesis using hd nosign dur_loop_parts [OF assms(2), of 0] assms(3)
    by (simp add: ParseDuration_def Let_def)
qed

text \<open>Days are rewritten as hours, exactly.\<close>

definition in_hours :: "nat \<times> bytes \<times> nat \<Rightarrow> nat \<times> bytes \<times> nat" where
  "in_hours p = (case p of (n, u, k) \<Rightarrow> if u = str ''d'' then (n * 24, str ''h'', 3600000000000) else p)"

lemma conf_units_text:
  assumes "(u, k) \<in> set conf_units"
  shows "u \<noteq> []" "list_all (\<lambda>c. \<not> is_num_byte c) u" "u = str ''d'' \<Longrightarrow> k = 86400000000000"
    "u \<noteq> str ''d'' \<Longrightarrow> (u, k) \<in> set dur_units" "printable (last u) \<or> u \<in> set [[0xC2, 0xB5, 115], [0xCE, 0xBC, 115]]"
  using assms by (auto simp: conf_units_def dur_units_def str_def is_num_byte_def is_digit_def printable_def)

lemma in_hours_unit:
  assumes "(u, k) \<in> set conf_units"
  shows "case in_hours (n, u, k) of (m, v, j) \<Rightarrow> (v, j) \<in> set dur_units \<and> m * j = n * k"
  using conf_units_text [OF assms] by (auto simp: in_hours_def dur_units_def)

lemma dur_total_hours: "\<forall>(n, u, k)\<in>set ps. (u, k) \<in> set conf_units \<Longrightarrow> dur_total (map in_hours ps) = dur_total ps"
proof (induction ps)
  case (Cons p ps)
  obtain n u k where p: "p = (n, u, k)" by (cases p)
  obtain m v j where q: "in_hours p = (m, v, j)" by (cases "in_hours p")
  show ?case using Cons in_hours_unit [of u k n] p q by auto
qed simp

lemma day_in_hours:
  assumes "n * 24 < 2 ^ 53"
  shows "map_option (\<lambda>x. FormatShortest (f64_scale 24 x)) (ParseFloat (dec_digits n)) = Some (dec_digits (n * 24))"
proof -
  have "n < 2 ^ 53" using assms by linarith
  then have pf: "ParseFloat (dec_digits n) = Some (Fin False (of_nat n))" by (rule ParseFloat_nat)
  have r: "rnd (of_nat n * 24) = of_nat (n * 24)" using rnd_nat [OF assms] by simp
  have "(of_nat (n * 24) :: rat) < of_nat (2 ^ 53)" using assms by (simp only: of_nat_less_iff)
  then have "\<not> (2 :: rat) ^ 1024 \<le> of_nat (n * 24)"
    using power_increasing [of 53 1024 "2 :: rat"] by (simp only: of_nat_power of_nat_numeral) linarith
  then have "f64_scale 24 (Fin False (of_nat n)) = Fin False (of_nat (n * 24))"
    using r by (simp only: f64_scale.simps of_nat_numeral fin_def if_False)
  then show ?thesis using FormatShortest_nat [OF assms] by (simp only: pf option.map)
qed

lemma durExt_parts:
  assumes "\<forall>(n, u, k)\<in>set ps. (u, k) \<in> set conf_units" and "dur_total ps < 2 ^ 63"
  shows "durExt_loop (dur_text ps) = Some (dur_text (map in_hours ps))"
  using assms
proof (induction ps)
  case (Cons p ps)
  obtain n u k where p: "p = (n, u, k)" by (cases p)
  have u: "(u, k) \<in> set conf_units" using Cons.prems(1) p by simp
  note U = conf_units_text [OF u]
  let ?s = "dec_digits n @ u @ dur_text ps" and ?N = "\<lambda>c. \<not> is_num_byte c"
  have d: "\<forall>b\<in>set (dec_digits n). is_num_byte b"
    using dec_digits_digits [of n] by (auto simp: list_all_iff is_num_byte_def)
  obtain c cs where c: "u = c # cs" "\<not> is_num_byte c" using U(1,2) by (cases u) auto
  have rest: "dur_text ps = [] \<or> is_num_byte (hd (dur_text ps))"
    using dur_text_head [of ps] by (cases "ps = []") (auto simp: is_num_byte_def)
  have tw: "takeWhile is_num_byte ?s = dec_digits n" "dropWhile is_num_byte ?s = u @ dur_text ps"
    using d c by (auto simp: takeWhile_append dropWhile_append)
  have tu: "takeWhile ?N (u @ dur_text ps) = u" "dropWhile ?N (u @ dur_text ps) = dur_text ps"
    using U(2) rest by (cases "dur_text ps"; auto simp: list_all_iff takeWhile_append dropWhile_append)+
  have ih: "durExt_loop (dur_text ps) = Some (dur_text (map in_hours ps))" using Cons p by simp
  show ?case
  proof (cases "u = str ''d''")
    case True
    have "n * 86400000000000 < 2 ^ 63" using Cons.prems(2) p U(3) [OF True] by simp
    then have "n * 24 < 2 ^ 53" by simp
    from day_in_hours [OF this] obtain x where "ParseFloat (dec_digits n) = Some x"
      "FormatShortest (f64_scale 24 x) = dec_digits (n * 24)" by auto
    moreover from this have "durExt_loop ?s = Some (dec_digits (n * 24) @ str ''h'' @ dur_text (map in_hours ps))"
      unfolding durExt_loop.simps [of ?s] Let_def tw tu ih using True by simp
    moreover have "in_hours p = (n * 24, str ''h'', 3600000000000)" using p True by (simp add: in_hours_def)
    ultimately show ?thesis using p by simp
  next
    case False
    then have "durExt_loop ?s = Some (dec_digits n @ u @ dur_text (map in_hours ps))"
      unfolding durExt_loop.simps [of ?s] Let_def tw tu ih by simp
    moreover have "in_hours p = p" using p False by (simp add: in_hours_def)
    ultimately show ?thesis using p by simp
  qed
qed (simp add: durExt_loop.simps)

text \<open>No white space ends in the letter that ends every unit.\<close>

lemma dur_text_last:
  assumes "ps \<noteq> []" and "\<forall>(n, u, k)\<in>set ps. (u, k) \<in> set conf_units"
  shows "printable (last (dur_text ps))"
  using assms
proof (induction ps rule: rev_induct)
  case (snoc p ps)
  obtain n u k where p: "p = (n, u, k)" by (cases p)
  have "(u, k) \<in> set conf_units" using snoc.prems(2) p by simp
  then have "u \<noteq> [] \<and> printable (last u)" by (auto simp: conf_units_def dur_units_def str_def printable_def)
  then show ?case using p by (simp add: dur_text_def)
qed simp

lemma digit_printable: "is_digit b \<Longrightarrow> printable b"
  by (simp add: is_digit_def printable_def word_le_nat_alt word_less_nat_alt)

lemma TrimSpace_dur:
  assumes "ps \<noteq> []" and "\<forall>(n, u, k)\<in>set ps. (u, k) \<in> set conf_units"
  shows "TrimSpace (dur_text ps) = dur_text ps"
  using dur_text_head [OF assms(1)] dur_text_last [OF assms] digit_printable by (intro TrimSpace_id) auto

lemma parseDurationExt_parts:
  assumes "ps \<noteq> []" and "\<forall>(n, u, k)\<in>set ps. (u, k) \<in> set conf_units" and "dur_total ps < 2 ^ 63"
  shows "parseDurationExt (dur_text ps) = Some (int (dur_total ps))"
proof -
  have "\<forall>(n, u, k)\<in>set (map in_hours ps). (u, k) \<in> set dur_units"
  proof
    fix q assume "q \<in> set (map in_hours ps)"
    then obtain n u k where "q = in_hours (n, u, k)" "(n, u, k) \<in> set ps" by auto
    then show "case q of (n, u, k) \<Rightarrow> (u, k) \<in> set dur_units" using assms(2) in_hours_unit [of u k n] by auto
  qed
  then have "ParseDuration (dur_text (map in_hours ps)) = Some (int (dur_total ps))"
    using ParseDuration_parts [of "map in_hours ps"] assms dur_total_hours [OF assms(2)] by simp
  then show ?thesis using dur_text_head [OF assms(1)] durExt_parts [OF assms(2,3)]
    by (simp add: parseDurationExt_def TrimSpace_dur [OF assms(1,2)])
qed

section \<open>Sizes as text\<close>

lemma digits_show: "0 \<le> n \<Longrightarrow> list_all is_digit (show_int n)"
  using dec_digits_digits [of "nat n"] by (simp add: show_int_def)

lemma takeWhile_show:
  assumes "0 \<le> n" and "\<not> is_digit b"
  shows "takeWhile is_digit (show_int n @ b # bs) = show_int n" "dropWhile is_digit (show_int n @ b # bs) = b # bs"
  using digits_show [OF assms(1)] assms(2) by (auto simp: list_all_iff takeWhile_append dropWhile_append)

lemma upper_digits: "list_all is_digit s \<Longrightarrow> upper s = s"
proof -
  have "(if 97 \<le> b \<and> b \<le> 122 then b - 32 else b) = b" if "is_digit b" for b
    using that by (auto simp: is_digit_def word_le_nat_alt)
  then show "list_all is_digit s \<Longrightarrow> upper s = s" by (induction s) (auto simp: upper_def)
qed

lemma has_suffix_last:
  "has_suffix [y] (s @ [z]) \<longleftrightarrow> y = z"
  "has_suffix [x, y] (s @ [w, z]) \<longleftrightarrow> x = w \<and> y = z"
  by (auto simp: has_suffix_def)

lemma last_not_letter:
  assumes "list_all is_digit s" and "s \<noteq> []" and "\<not> is_digit x"
  shows "\<not> has_suffix [x, z] (s @ [y])"
proof
  assume "has_suffix [x, z] (s @ [y])"
  then have "drop (length s - 1) s = [x]" using assms(2) by (auto simp: has_suffix_def)
  then have "x \<in> set s" by (metis in_set_dropD list.set_intros(1))
  then show False using assms(1,3) by (simp add: list_all_iff)
qed

definition units :: "(string \<times> int) list" where
  "units = [(''B'', 1), (''KB'', 1024), (''MB'', 1048576), (''GB'', 1073741824)]"

lemma printable_units: "um \<in> set units \<Longrightarrow> printable (last (str (fst um)))"
  by (auto simp: units_def str_def printable_def)

lemma TrimSpace_show: "TrimSpace (show_int n) = show_int n"
  by (rule TrimSpace_id [OF show_int_ends])

lemma parseSize_text:
  assumes um: "um \<in> set units" and nn: "0 \<le> n" and fits: "n * snd um < 2 ^ 63"
  shows "parseSize (show_int n @ str (fst um)) = Inr (n * snd um)"
proof -
  let ?s = "show_int n @ str (fst um)"
  have tr: "TrimSpace ?s = ?s"
    using show_int_ends [of n] printable_units [OF um] um
    by (intro TrimSpace_id) (auto simp: units_def str_def)
  have n64: "in_i64 n"
  proof -
    have "n * 1 \<le> n * snd um" using um nn by (intro mult_left_mono) (auto simp: units_def)
    then show ?thesis using fits nn by (simp add: in_i64_def)
  qed
  have w: "wrap64 (n * snd um) = n * snd um" using fits nn um by (intro wrap64_id) (auto simp: in_i64_def units_def)
  have trim: "TrimSpace (str (fst um)) = str (fst um)"
    using um by (intro TrimSpace_id) (auto simp: units_def str_def printable_def)
  have up: "upper (str (fst um)) = str (fst um)" using um by (auto simp: units_def str_def upper_def)
  obtain b bs where u: "str (fst um) = b # bs" "\<not> is_digit b" using um by (auto simp: units_def str_def is_digit_def)
  have ds: "takeWhile is_digit ?s = show_int n" "dropWhile is_digit ?s = str (fst um)"
    using takeWhile_show [OF nn u(2)] u(1) by auto
  have ne: "show_int n \<noteq> []" by (rule show_int_ends(1))
  show ?thesis unfolding parseSize_def tr Let_def ds trim up ParseInt_show [OF n64]
    using ne w um by (auto simp: units_def str_def mult.assoc)
qed

lemma parseByteSize_text:
  assumes um: "um \<in> set units" and nn: "0 \<le> n" and fits: "n * snd um < 2 ^ 63"
  shows "parseByteSize (show_int n @ str (fst um)) = Inr (n * snd um)"
proof -
  let ?s = "show_int n @ str (fst um)"
  have tr: "TrimSpace ?s = ?s"
    using show_int_ends [of n] printable_units [OF um] um
    by (intro TrimSpace_id) (auto simp: units_def str_def)
  have n64: "in_i64 n"
  proof -
    have "n * 1 \<le> n * snd um" using um nn by (intro mult_left_mono) (auto simp: units_def)
    then show ?thesis using fits nn by (simp add: in_i64_def)
  qed
  have w: "wrap64 (n * snd um) = n * snd um" using fits nn um by (intro wrap64_id) (auto simp: in_i64_def units_def)
  have ne: "show_int n \<noteq> []" by (rule show_int_ends(1))
  have up: "upper ?s = show_int n @ str (fst um)"
    using upper_digits [OF digits_show [OF nn]] um by (auto simp: units_def str_def upper_def)
  have nl: "\<not> has_suffix [x, z] (show_int n @ [y])" if "\<not> is_digit x" for x y z
    by (rule last_not_letter [OF digits_show [OF nn] ne that])
  have fnd: "find (\<lambda>u. has_suffix (fst u) (upper ?s)) size_units = Some (str (fst um), snd um)"
    unfolding up using um nl [of 66] nl [of 71] nl [of 75] nl [of 77]
    by (auto simp: units_def size_units_def str_def is_digit_def has_suffix_last)
  show ?thesis unfolding parseByteSize_def tr Let_def fnd
    using ne w ParseInt_show [OF n64] TrimSpace_show by simp
qed

text \<open>
  Both parsers of sizes read a number followed by a unit as that number of units, as long as
  the result is below \<open>2 ^ 63\<close>.
\<close>

theorem sizes_parse:
  assumes "um \<in> set units" and "0 \<le> n" and "n * snd um < 2 ^ 63"
  shows "parseSize (show_int n @ str (fst um)) = Inr (n * snd um) \<and>
    parseByteSize (show_int n @ str (fst um)) = Inr (n * snd um)"
  using parseSize_text [OF assms] parseByteSize_text [OF assms] by simp

theorem sizes_parse_witness:
  "parseSize (show_int 512 @ str ''MB'') = Inr 536870912 \<and> parseByteSize (show_int 512 @ str ''MB'') = Inr 536870912"
  using sizes_parse [of "(''MB'', 1048576)" 512] by (simp add: units_def)

section \<open>The settings of a loaded configuration\<close>

lemma parseDurationExt_range: "parseDurationExt s = Some d \<Longrightarrow> in_i64 d"
  by (auto simp: parseDurationExt_def Let_def bind_eq_Some_conv split: if_splits intro: ParseDuration_range)

text \<open>A duration as the components get it: not negative, and within 64 bits.\<close>

definition is_dur :: "int \<Rightarrow> bool" where
  "is_dur d \<longleftrightarrow> 0 \<le> d \<and> d < 2 ^ 63"

lemma validateDur_dur:
  assumes "validateDur s = None" and "is_dur def"
  shows "is_dur (dur s def)" and "s \<noteq> [] \<Longrightarrow> parseDurationExt s = Some (dur s def)"
  using assms parseDurationExt_range [of s]
  by (auto simp: validateDur_def dur_def is_dur_def in_i64_def split: if_splits option.splits)

lemma first_bad_None: "first_bad ss = None \<longleftrightarrow> (\<forall>s\<in>set ss. validateDur s = None)"
  by (induction ss) (auto split: option.split)

lemma LoadSender_valid:
  assumes "LoadSender ge yaml file = Inr c"
  shows "validateSender c = None"
  using assms by (auto simp: LoadSender_def Let_def split: sum.splits option.splits)

lemma LoadSender_durs:
  assumes "LoadSender ge yaml file = Inr c" and "s \<in> set (sender_durs c)"
  shows "validateDur s = None"
proof -
  have "first_bad (sender_durs c) = None"
    using LoadSender_valid [OF assms(1)] by (auto simp: validateSender_def split: if_splits option.splits)
  then show ?thesis using assms(2) by (simp add: first_bad_None)
qed

definition poller_ok :: "PollerConfig \<Rightarrow> bool" where
  "poller_ok p \<longleftrightarrow> (\<forall>d\<in>{Interval p, Window p, MaxWindow p, Watermark p, ExportLag p}. is_dur d \<and> 0 < d) \<and>
     Watermark p \<le> ExportLag p \<and> DefaultExportVisibilityLag \<le> ExportLag p \<and>
     0 < FrameLines p \<and> 0 < FrameBytes p \<and> Compression p \<in> {TypeData, TypeDataZstd}"

definition sender_ok :: "SenderConfig \<Rightarrow> bool" where
  "sender_ok s \<longleftrightarrow> (\<forall>d\<in>{BackoffBase s, BackoffMax s, HeartbeatInterval s, IdleSleep s}. is_dur d \<and> 0 < d) \<and>
     0 < MaxRetry s \<and> 0 < Pipeline s"

definition client_ok :: "ClientConfig \<Rightarrow> bool" where
  "client_ok c \<longleftrightarrow> Addr c \<noteq> [] \<and> is_dur (Timeout c) \<and> 0 < Timeout c \<and> is_dur (DialTimeout c) \<and> 0 < DialTimeout c"

lemma loaded_poller_ok:
  assumes "LoadSender ge yaml file = Inr c"
  shows "poller_ok (NewPoller (pollerConfig c))"
proof -
  have d: "is_dur (dur s def)" if "s \<in> set (sender_durs c)" "is_dur def" for s def
    using validateDur_dur(1) [OF LoadSender_durs [OF assms that(1)] that(2)] .
  have "is_dur (dur (Sync_Interval c) 500000000)" "is_dur (dur (Sync_Window c) 5000000000)"
    "is_dur (dur (Sync_Watermark c) 1000000000)" "is_dur (dur (Sync_MaxWindow c) 30000000000)" "is_dur (dur (Sync_ExportLag c) 0)"
    by (rule d; simp add: sender_durs_def is_dur_def)+
  then show ?thesis
    by (simp add: poller_ok_def NewPoller_def pollerConfig_def is_dur_def DefaultExportVisibilityLag_def
        CompressionFrameType_def TypeData_def TypeDataZstd_def Let_def)
qed

lemma loaded_sender_ok:
  assumes "LoadSender ge yaml file = Inr c"
  shows "sender_ok (NewSender (senderLoopConfig c))" and "client_ok (NewClient (clientConfig c))"
proof -
  have d: "is_dur (dur s def)" if "s \<in> set (sender_durs c)" "is_dur def" for s def
    using validateDur_dur(1) [OF LoadSender_durs [OF assms that(1)] that(2)] .
  have D: "is_dur (dur (Sender_BackoffBase c) 1000000000)" "is_dur (dur (Sender_BackoffMax c) 60000000000)"
    "is_dur (dur (Sender_HeartbeatInterval c) 30000000000)" "is_dur (dur (TCP_Timeout c) 10000000000)"
    "is_dur (dur (TCP_DialTimeout c) 10000000000)"
    by (rule d; simp add: sender_durs_def is_dur_def)+
  show "sender_ok (NewSender (senderLoopConfig c))"
    using D by (simp add: sender_ok_def NewSender_def senderLoopConfig_def is_dur_def)
  have "TCP_Addr c \<noteq> []" using LoadSender_valid [OF assms] by (auto simp: validateSender_def split: if_splits)
  then show "client_ok (NewClient (clientConfig c))"
    using D by (simp add: client_ok_def NewClient_def clientConfig_def is_dur_def Let_def)
qed

section \<open>Properties of the configuration\<close>



lemma dur_text_not:
  assumes "ps \<noteq> []" and "\<forall>(n, u, k)\<in>set ps. (u, k) \<in> set conf_units"
  shows "dur_text ps \<noteq> str ''all''" "dur_text ps \<noteq> str ''0''"
proof -
  have "is_digit (hd (dur_text ps))" using dur_text_head [OF assms(1)] by simp
  then show "dur_text ps \<noteq> str ''all''" by (auto simp: str_def is_digit_def)
  obtain n u k qs where ps: "ps = (n, u, k) # qs" using assms(1) by (metis list.exhaust prod_cases3)
  then have "u \<noteq> []" using assms(2) conf_units_text(1) by auto
  then show "dur_text ps \<noteq> str ''0''" using ps by (auto simp: str_def append_eq_Cons_conv)
qed

text \<open>
  What the backfill setting means when it is written as a duration: that duration when it is
  positive, no history for \<^verbatim>\<open>0s\<close>, and the whole history for every other way to write
  zero, \<^verbatim>\<open>0d\<close> and \<^verbatim>\<open>0h\<close> among them; all are accepted.
\<close>

theorem backfill_means:
  assumes "ps \<noteq> []" and "\<forall>(n, u, k)\<in>set ps. (u, k) \<in> set conf_units" and "dur_total ps < 2 ^ 63"
    and "Sync_Backfill c = dur_text ps"
  shows "ValidateBackfill (Sync_Backfill c) = None \<and>
    backfillSpec c = (if dur_text ps = str ''0s'' then BackfillNone
      else if dur_total ps = 0 then BackfillAll else BackfillDuration (int (dur_total ps)))"
  using parseDurationExt_parts [OF assms(1-3)] dur_text_not [OF assms(1,2)] dur_text_head [OF assms(1)]
  by (auto simp: ValidateBackfill_def backfillSpec_def assms(4) TrimSpace_dur [OF assms(1,2)] Let_def)

definition demo_file :: SenderConf where
  "demo_file = \<lparr>Source = demo_vm, Sync_Interval = dur_text [(2, str ''s'', 1000000000)], Sync_Window = [],
     Sync_Watermark = [], Sync_MaxWindow = [], Sync_FrameLines = 0, Sync_FrameBytes = 0, Sync_WindowTarget = 0,
     Sync_ExportLag = dur_text [(1, str ''d'', 86400000000000)], Sync_Backfill = dur_text [(0, str ''d'', 86400000000000)],
     WAL_Path = str ''w'', WAL_SegmentSize = [], TCP_Addr = str ''a'', TCP_Timeout = [], TCP_DialTimeout = [],
     TCP_Compression = [], Sender_MaxRetry = 0, Sender_BackoffBase = [], Sender_BackoffMax = [],
     Sender_HeartbeatInterval = [], Sender_Pipeline = 8, 
     SMonitor = \<lparr>mon_Addr = [], mon_Username = [], mon_Password = []\<rparr>,
     SLog = \<lparr>log_Level = [], log_File = [], log_MaxMB = 0, log_MaxBackups = 0\<rparr>\<rparr>"

lemmas demo_durs =
  parseDurationExt_parts [of "[(2, str ''s'', 1000000000)]"]
  parseDurationExt_parts [of "[(1, str ''d'', 86400000000000)]"]
  parseDurationExt_parts [of "[(0, str ''d'', 86400000000000)]"]

lemma demo_file_loads: "LoadSender (\<lambda>_. []) (\<lambda>_. Inr demo_file) (Inr []) = Inr demo_file"
proof -
  have b: "TrimSpace (Sync_Backfill demo_file) = Sync_Backfill demo_file"
    by (simp only: demo_file_def SenderConf.simps, rule TrimSpace_dur) (simp_all add: conf_units_def)
  have "first_bad (sender_durs demo_file) = None"
    using demo_durs by (simp add: first_bad_None sender_durs_def demo_file_def validateDur_def conf_units_def dur_units_def)
  then have "validateSender demo_file = None"
    using demo_durs(3) b by (simp add: validateSender_def) (simp add: demo_file_def demo_vm_def str_def conf_units_def Let_def)
  then show ?thesis by (simp add: LoadSender_def loadFile_def applySenderEnv_def env_or_def Let_def)
qed

theorem backfill_means_witness:
  "ValidateBackfill (Sync_Backfill demo_file) = None \<and> backfillSpec demo_file = BackfillAll"
proof -
  have "dur_text [(0, str ''d'', 86400000000000)] \<noteq> str ''0s''" by (simp add: str_def dec_digits.simps)
  then show ?thesis using backfill_means [of "[(0, str ''d'', 86400000000000)]" demo_file]
    by (simp add: demo_file_def conf_units_def)
qed



end
