(* ===== verification/Wal_Recovery.thy ===== *)
theory Wal_Recovery
  imports Wal_Contract
begin

text \<open>
  Opening a WAL after a crash. The directory is described by a layout: for every segment file
  its number, the frames it holds and the bytes of a record that was cut off behind them. The
  theorems say what \<^verbatim>\<open>Open\<close> makes of such a directory: which frames are pending, what is
  truncated, what the next sequence number is, and that a locked directory is left alone.
\<close>

section \<open>Layouts\<close>

type_synonym seg_layout = "int \<times> bytes list \<times> bytes"

abbreviation seg_no :: "seg_layout \<Rightarrow> int" where
  "seg_no s \<equiv> fst s"

definition seg_file :: "seg_layout \<Rightarrow> int \<times> bytes" where
  "seg_file s = (case s of (k, fbs, t) \<Rightarrow> (k, records fbs @ t))"

definition seg_file_cut :: "seg_layout \<Rightarrow> int \<times> bytes" where
  "seg_file_cut s = (case s of (k, fbs, t) \<Rightarrow> (k, records fbs))"

text \<open>
  A segment as a crash leaves it: complete records, then possibly a record of which less than
  its head and frame header was written.
\<close>

definition seg_wf :: "seg_layout \<Rightarrow> bool" where
  "seg_wf s = (case s of (k, fbs, t) \<Rightarrow>
     (\<forall>fb\<in>set fbs. wf_frame fb) \<and> length t < recordHeadLen + HeaderSize)"

definition seg_entries :: "int \<Rightarrow> nat \<Rightarrow> seg_layout \<Rightarrow> frameIndex list" where
  "seg_entries start skip s = (case s of (k, fbs, t) \<Rightarrow> entries k (if k = start then skip else 0) 0 fbs)"

definition numbered :: "bytes \<Rightarrow> u64 \<times> bytes" where
  "numbered fb = (hSeq (read_header fb), fb)"

section \<open>One segment\<close>

lemma scanLoop_seg:
  assumes "seg_wf (k, fbs, t)" and "skip \<le> length (records fbs)"
  shows "scanLoop k (records fbs @ t) skip 0 acc =
    (acc @ entries k skip 0 fbs, if t = [] then ScanEof else ScanTorn (length (records fbs)))"
proof -
  have "scanLoop k (records fbs @ t) skip 0 acc =
      scanLoop k (records fbs @ t) skip (length (records fbs)) (acc @ entries k skip 0 fbs)"
    using scanLoop_records [of fbs k "[]" t skip acc] assms(1) by (simp add: seg_wf_def)
  moreover have "scanLoop k (records fbs @ t) skip (length (records fbs)) acc' =
      (acc', if t = [] then ScanEof else ScanTorn (length (records fbs)))" for acc'
    using scanLoop_eof [of k "records fbs"] scanLoop_short_tail [of t skip "records fbs" k acc'] assms
    by (auto simp: seg_wf_def)
  ultimately show ?thesis by simp
qed

lemma frame_at_entries:
  assumes "seg_bytes d k = pre @ records fbs @ rest" and "fi \<in> set (entries k skip (length pre) fbs)"
  shows "\<exists>fb\<in>set fbs. fi_seq fi = hSeq (read_header fb) \<and> frame_at d fi = fb \<and>
    fi_seg fi = k \<and> fi_offset fi + recordHeadLen + fi_length fi \<le> length (seg_bytes d k)"
  using assms
proof (induction fbs arbitrary: pre)
  case Nil
  then show ?case by simp
next
  case (Cons fb fbs)
  have eq: "seg_bytes d k = (pre @ encodeRecord fb) @ records fbs @ rest" using Cons.prems(1) by simp
  consider "fi = frame_entry k (length pre) fb" |
    "fi \<in> set (entries k skip (length (pre @ encodeRecord fb)) fbs)"
    using Cons.prems(2) by (auto simp: add.assoc split: if_splits)
  then show ?case
  proof cases
    case 1
    then show ?thesis using Cons.prems(1)
      by (simp add: frame_entry_def frame_at_def encodeRecord_def recordHeadLen_def goslice_def)
  next
    case 2
    then show ?thesis using Cons.IH [OF eq 2] by auto
  qed
qed

text \<open>The frames of a segment that are not acknowledged, as the index gives them.\<close>

lemma entries_past: "skip \<le> off \<Longrightarrow> entries k skip off fbs = entries k 0 off fbs"
  by (induction fbs arbitrary: off) (simp_all add: recordHeadLen_def)

lemma entries_acked:
  "n \<le> length fbs \<Longrightarrow> entries k (off + length (records (take n fbs))) off fbs =
    entries k 0 (off + length (records (take n fbs))) (drop n fbs)"
proof (induction n arbitrary: off fbs)
  case 0
  show ?case using entries_past [of off off] by simp
next
  case (Suc n)
  then obtain fb fbs' where fbs: "fbs = fb # fbs'" by (cases fbs) auto
  with Suc.prems have "entries k (off + recordHeadLen + length fb + length (records (take n fbs')))
      (off + recordHeadLen + length fb) fbs' =
    entries k 0 (off + recordHeadLen + length fb + length (records (take n fbs'))) (drop n fbs')"
    by (intro Suc.IH) simp
  then show ?case using fbs by (simp add: add.assoc)
qed

lemma map_entries0:
  assumes "seg_bytes d k = pre @ records fbs @ rest"
  shows "map (\<lambda>fi. (fi_seq fi, frame_at d fi)) (entries k 0 (length pre) fbs) = map numbered fbs"
  using assms
proof (induction fbs arbitrary: pre)
  case Nil
  then show ?case by simp
next
  case (Cons fb fbs)
  have "seg_bytes d k = (pre @ encodeRecord fb) @ records fbs @ rest" using Cons.prems by simp
  from Cons.IH [OF this] Cons.prems show ?case
    by (simp add: frame_entry_def frame_at_def encodeRecord_def recordHeadLen_def goslice_def numbered_def add.assoc)
qed

lemma map_entries:
  assumes "seg_bytes d k = records fbs @ rest" and "n \<le> length fbs"
  shows "map (\<lambda>fi. (fi_seq fi, frame_at d fi)) (entries k (length (records (take n fbs))) 0 fbs) =
    map numbered (drop n fbs)"
proof -
  have "seg_bytes d k = records (take n fbs) @ records (drop n fbs) @ rest"
    using assms(1) by (metis append_assoc append_take_drop_id concat_append map_append)
  from map_entries0 [OF this] entries_acked [OF assms(2), of k 0] show ?thesis by simp
qed

section \<open>All segments\<close>

lemma indexSegment_calm:
  assumes "calm w" and "map_of (segs (dsk w)) k = Some (records fbs @ t)" and "seg_wf (k, fbs, t)"
    and "skip \<le> length (records fbs)"
  shows "indexSegment k skip w = (Inr (), w\<lparr>index := index w @ entries k skip 0 fbs,
    dsk := (dsk w)\<lparr>segs := (if t = [] then segs (dsk w) else AList.update k (records fbs) (segs (dsk w)))\<rparr>\<rparr>)"
  using assms(1,2) scanLoop_seg [OF assms(3,4), of "index w"]
  by (simp add: indexSegment_def op_defs calm_def seg_bytes_def set_segs_def)

lemma seg_entries_eq [simp]:
  "seg_entries start skip (k, fbs, t) = entries k (if k = start then skip else 0) 0 fbs"
  by (simp add: seg_entries_def)

lemma update_mid:
  "k \<notin> fst ` set xs \<Longrightarrow> AList.update k v (xs @ (k, u) # ys) = xs @ (k, v) # ys"
  by (induction xs) auto

lemma map_of_mid: "k \<notin> fst ` set xs \<Longrightarrow> map_of (xs @ (k, u) # ys) k = Some u"
  by (induction xs) auto

lemma seg_file_simps [simp]:
  "fst (seg_file s) = seg_no s" "fst (seg_file_cut s) = seg_no s"
  by (auto simp: seg_file_def seg_file_cut_def split: prod.splits)

text \<open>What the checkpoint may say about acknowledged bytes: they end at a record of its segment.\<close>

definition skip_ok :: "int \<Rightarrow> nat \<Rightarrow> seg_layout \<Rightarrow> bool" where
  "skip_ok start skip s = (case s of (k, fbs, t) \<Rightarrow> k = start \<longrightarrow> skip \<le> length (records fbs))"

lemma indexSegments_calm:
  assumes "calm w" and "segs (dsk w) = map seg_file_cut L1 @ map seg_file L2"
    and "distinct (map seg_no (L1 @ L2))"
    and "\<forall>s\<in>set L2. seg_wf s \<and> SegStart (cp w) \<le> seg_no s \<and> skip_ok (SegStart (cp w)) (nat (AckedBytes (cp w))) s"
  shows "indexSegments (map seg_no L2) w = (Inr (), w\<lparr>
    index := index w @ concat (map (seg_entries (SegStart (cp w)) (nat (AckedBytes (cp w)))) L2),
    dsk := (dsk w)\<lparr>segs := map seg_file_cut (L1 @ L2)\<rparr>\<rparr>)"
  using assms
proof (induction L2 arbitrary: L1 w)
  case Nil
  then have "w = w\<lparr>dsk := (dsk w)\<lparr>segs := map seg_file_cut L1\<rparr>\<rparr>" by simp
  then show ?case by (simp add: retE_def)
next
  case (Cons s L2)
  obtain k fbs t where s: "s = (k, fbs, t)" by (cases s) auto
  let ?skip = "if k = SegStart (cp w) then nat (AckedBytes (cp w)) else 0"
  let ?w = "w\<lparr>index := index w @ entries k ?skip 0 fbs, dsk := (dsk w)\<lparr>segs := map seg_file_cut (L1 @ [s]) @ map seg_file L2\<rparr>\<rparr>"
  have fresh: "k \<notin> fst ` set (map seg_file_cut L1)" using Cons.prems(3) s by (auto simp: image_image)
  have mk: "map_of (segs (dsk w)) k = Some (records fbs @ t)"
    using Cons.prems(2) s map_of_mid [OF fresh] by (simp add: seg_file_def del: map_of_append)
  have "indexSegment k ?skip w = (Inr (), ?w)"
    using Cons.prems(2,4) s fresh
    by (subst indexSegment_calm [OF Cons.prems(1) mk])
      (auto simp: skip_ok_def seg_file_def seg_file_cut_def update_mid)
  then have "indexSegments (map seg_no (s # L2)) w = indexSegments (map seg_no L2) ?w"
    using Cons.prems(4) s by (simp add: op_defs)
  also have "\<dots> = (Inr (), ?w\<lparr>index := index ?w @ concat (map (seg_entries (SegStart (cp w)) (nat (AckedBytes (cp w)))) L2),
      dsk := (dsk ?w)\<lparr>segs := map seg_file_cut ((L1 @ [s]) @ L2)\<rparr>\<rparr>)"
    using Cons.IH [of ?w "L1 @ [s]"] Cons.prems by (simp add: calm_def)
  finally show ?case using s by simp
qed

lemma indexSegments_stale:
  "\<forall>k\<in>set ks. k < SegStart (cp w) \<Longrightarrow> indexSegments (ks @ js) w = indexSegments js w"
  by (induction ks) (simp_all add: getE_def)

lemma removeStale_calm:
  assumes "calm w" and "segs (dsk w) = st @ rest" and "distinct (map fst (st @ rest))"
    and "\<forall>k\<in>set (map fst st). k < SegStart (cp w)" and "\<forall>k\<in>set js. SegStart (cp w) \<le> k"
  shows "removeStale (map fst st @ js) w = (Inr (), set_segs rest w)"
  using assms
proof (induction st arbitrary: w)
  case Nil
  have "removeStale js w = (Inr (), w)" using Nil.prems(5)
    by (induction js) (simp_all add: op_defs)
  moreover have "set_segs rest w = w" using Nil.prems(2) by (simp add: set_segs_def)
  ultimately show ?case by simp
next
  case (Cons p st)
  obtain k c where p: "p = (k, c)" by fastforce
  have "AList.delete k (segs (dsk w)) = st @ rest"
    using Cons.prems(2,3) p delete_id [of k "st @ rest"] by (simp add: image_Un del: delete_id)
  then have "removeSeg ''remove stale segment'' k w = (Inr (), set_segs (st @ rest) w)"
    using Cons.prems(1) by (simp add: removeSeg_def op_defs calm_def)
  then have "removeStale (map fst (p # st) @ js) w = removeStale (map fst st @ js) (set_segs (st @ rest) w)"
    using Cons.prems(4) p by (simp add: op_defs)
  also have "\<dots> = (Inr (), set_segs rest (set_segs (st @ rest) w))"
    using Cons.prems by (intro Cons.IH) (simp_all add: set_segs_def calm_def)
  finally show ?case by (simp add: set_segs_def)
qed

lemma firstAlive_split:
  assumes "\<forall>k\<in>set ks. k < start" and "\<forall>j\<in>set js. start \<le> j" and "0 \<le> start"
  shows "firstAlive start (ks @ js) = (case js of [] \<Rightarrow> -1 | j # _ \<Rightarrow> j)"
proof -
  have 1: "foldl (\<lambda>fa idx. if idx < start then fa else if fa < 0 then idx else fa) fa ks = fa" for fa
    using assms(1) by (induction ks) simp_all
  have 2: "foldl (\<lambda>fa idx. if idx < start then fa else if fa < 0 then idx else fa) fa js = fa" if "0 \<le> fa" for fa
    using assms(2) that by (induction js) simp_all
  show ?thesis using 1 2 assms(2,3) by (cases js) (simp_all add: firstAlive_def)
qed

section \<open>The scan of a directory\<close>

text \<open>
  A directory a crash can leave behind: segments older than the checkpoint (their removal was
  interrupted), then segments as described by the layout; the acknowledged bytes of the
  checkpoint, if its segment still exists, end behind its first \<open>n\<close> frames.
\<close>

definition crash_dir :: "disk \<Rightarrow> checkpoint \<Rightarrow> (int \<times> bytes) list \<Rightarrow> seg_layout list \<Rightarrow> nat \<Rightarrow> bool" where
  "crash_dir d c st L n \<longleftrightarrow>
     segs d = st @ map seg_file L \<and> sorted_wrt (<) (map fst st @ map seg_no L) \<and> 0 \<le> SegStart c \<and>
     (\<forall>k\<in>set (map fst st). k < SegStart c) \<and> (\<forall>s\<in>set L. seg_wf s \<and> SegStart c \<le> seg_no s) \<and>
     (case L of
        [] \<Rightarrow> n = 0
      | (k, fbs, t) # _ \<Rightarrow> n \<le> length fbs \<and>
          (if k = SegStart c then AckedBytes c = int (length (records (take n fbs))) else n = 0))"

definition scan_start :: "checkpoint \<Rightarrow> seg_layout list \<Rightarrow> int" where
  "scan_start c L = (case L of [] \<Rightarrow> SegStart c | s # _ \<Rightarrow> seg_no s)"

definition scan_skip :: "checkpoint \<Rightarrow> seg_layout list \<Rightarrow> int" where
  "scan_skip c L = (case L of [] \<Rightarrow> 0 | s # _ \<Rightarrow> if seg_no s = SegStart c then AckedBytes c else 0)"

definition scan_index :: "checkpoint \<Rightarrow> seg_layout list \<Rightarrow> frameIndex list" where
  "scan_index c L = concat (map (seg_entries (scan_start c L) (nat (scan_skip c L))) L)"

lemma length_records_take: "length (records (take n fbs)) \<le> length (records fbs)"
proof -
  have "length (records fbs) = length (records (take n fbs)) + length (records (drop n fbs))"
    by (metis append_take_drop_id concat_append length_append map_append)
  then show ?thesis by simp
qed

lemma crash_dir_skip_ok:
  assumes "crash_dir d c st L n" and "s \<in> set L"
  shows "skip_ok (scan_start c L) (nat (scan_skip c L)) s" and "scan_start c L \<le> seg_no s"
proof -
  obtain k fbs t L' where L: "L = (k, fbs, t) # L'" using assms(2) by (cases L) auto
  have srt: "sorted_wrt (<) (map seg_no L)" and n: "k = SegStart c \<longrightarrow> AckedBytes c = int (length (records (take n fbs)))"
    using assms(1) L by (auto simp: crash_dir_def sorted_wrt_append)
  have cases: "s = (k, fbs, t) \<or> k < seg_no s" using srt assms(2) L by auto
  then show "skip_ok (scan_start c L) (nat (scan_skip c L)) s"
    using n L length_records_take [of n fbs] by (auto simp: skip_ok_def scan_start_def scan_skip_def)
  show "scan_start c L \<le> seg_no s" using cases L by (auto simp: scan_start_def)
qed

lemma scanSegments_calm:
  assumes c: "calm w" and dir: "crash_dir (dsk w) (cp w) st L n" and i: "index w = []" "acked w = 0"
  shows "scanSegments w = (Inr (), w\<lparr>cp := (cp w)\<lparr>SegStart := scan_start (cp w) L, AckedBytes := scan_skip (cp w) L\<rparr>,
    index := scan_index (cp w) L, dsk := (dsk w)\<lparr>segs := map seg_file_cut L\<rparr>\<rparr>)"
proof -
  let ?js = "map seg_no L" and ?w0 = "set_segs (map seg_file L) w"
  have sg: "segs (dsk w) = st @ map seg_file L" and srt: "sorted_wrt (<) (map fst st @ ?js)"
    and st: "\<forall>k\<in>set (map fst st). k < SegStart (cp w)" and js: "\<forall>k\<in>set ?js. SegStart (cp w) \<le> k"
    and pos: "0 \<le> SegStart (cp w)"
    using dir by (auto simp: crash_dir_def)
  have ks: "map fst (segs (dsk w)) = map fst st @ ?js" using sg by (simp add: comp_def)
  have "sorted (map fst st @ ?js)" and dist: "distinct (map fst st @ ?js)"
    using srt by (simp_all add: strict_sorted_iff)
  then have idx: "sort (map fst (segs (dsk w))) = map fst st @ ?js" using ks by (simp add: sorted_sort_id)
  have rm: "removeStale (map fst st @ ?js) w = (Inr (), ?w0)"
    using removeStale_calm [OF c sg _ st js] dist by (simp add: comp_def)
  note fa = firstAlive_split [OF st js pos]
  show ?thesis
  proof (cases L)
    case Nil
    then show ?thesis
      using c rm idx fa pos i by (simp add: scanSegments_def op_defs calm_def set_segs_def
          scan_start_def scan_skip_def scan_index_def)
  next
    case (Cons s L')
    let ?w1 = "?w0\<lparr>cp := (cp w)\<lparr>SegStart := scan_start (cp w) L, AckedBytes := scan_skip (cp w) L\<rparr>\<rparr>"
    have ge: "SegStart (cp w) \<le> seg_no s" using js Cons by simp
    have w1: "(if seg_no s > SegStart (cp ?w0) then ?w0\<lparr>cp := (cp ?w0)\<lparr>SegStart := seg_no s, AckedBytes := 0\<rparr>\<rparr> else ?w0) = ?w1"
      using ge Cons by (auto simp: scan_start_def scan_skip_def set_segs_def)
    have "\<forall>k\<in>set (map fst st). k < SegStart (cp ?w1)" using st ge Cons by (auto simp: scan_start_def)
    then have "indexSegments (map fst st @ ?js) ?w1 = indexSegments ?js ?w1" by (rule indexSegments_stale)
    also have "\<dots> = (Inr (), ?w1\<lparr>index := scan_index (cp w) L, dsk := (dsk w)\<lparr>segs := map seg_file_cut L\<rparr>\<rparr>)"
      using indexSegments_calm [of ?w1 "[]" L] c dist dir crash_dir_skip_ok [OF dir] i
      by (simp add: calm_def set_segs_def scan_index_def crash_dir_def)
    finally have ix: "indexSegments (map fst st @ ?js) ?w1 =
      (Inr (), ?w1\<lparr>index := scan_index (cp w) L, dsk := (dsk w)\<lparr>segs := map seg_file_cut L\<rparr>\<rparr>)" .
    have "0 \<le> seg_no s" using ge pos by simp
    then have "scanSegments w = thenE (modifyE (\<lambda>w. if seg_no s > SegStart (cp w)
          then w\<lparr>cp := (cp w)\<lparr>SegStart := seg_no s, AckedBytes := 0\<rparr>\<rparr> else w))
        (thenE (indexSegments (map fst st @ ?js)) (modifyE (\<lambda>w. w\<lparr>acked := 0\<rparr>))) ?w0"
      using c rm idx fa Cons by (simp add: scanSegments_def thenE_def bindE_def getE_def calm_def Let_def modifyE_def)
    also have "\<dots> = thenE (indexSegments (map fst st @ ?js)) (modifyE (\<lambda>w. w\<lparr>acked := 0\<rparr>)) ?w1"
      by (simp only: thenE_modify w1)
    also have "\<dots> = (Inr (), w\<lparr>cp := (cp w)\<lparr>SegStart := scan_start (cp w) L, AckedBytes := scan_skip (cp w) L\<rparr>,
        index := scan_index (cp w) L, dsk := (dsk w)\<lparr>segs := map seg_file_cut L\<rparr>\<rparr>)"
      using ix i by (simp add: thenE_def bindE_def modifyE_def set_segs_def)
    finally show ?thesis .
  qed
qed

section \<open>The recovered WAL\<close>

definition layout_frames :: "seg_layout list \<Rightarrow> bytes list" where
  "layout_frames L = concat (map (\<lambda>(k, fbs, t). fbs) L)"

definition last_seg :: "checkpoint \<Rightarrow> seg_layout list \<Rightarrow> int" where
  "last_seg c L = (if L = [] then SegStart c else seg_no (last L))"

definition recovered_segs :: "checkpoint \<Rightarrow> seg_layout list \<Rightarrow> (int \<times> bytes) list" where
  "recovered_segs c L = (if L = [] then [(SegStart c, [])] else map seg_file_cut L)"

definition next_seq :: "checkpoint \<Rightarrow> seg_layout list \<Rightarrow> u64" where
  "next_seq c L = (let m = maxIndexSeq (scan_index c L) in if NextSeq c < m + 1 then m + 1 else NextSeq c)"

definition recovered :: "int \<Rightarrow> bool \<Rightarrow> disk \<Rightarrow> checkpoint \<Rightarrow> seg_layout list \<Rightarrow> wal" where
  "recovered sz legacy d c L = (fresh_wal sz d)\<lparr>lockHeld := True, legacyCheckpoint := legacy,
     cp := c\<lparr>SegStart := scan_start c L, AckedBytes := scan_skip c L, NextSeq := next_seq c L\<rparr>,
     index := scan_index c L, curSeg := last_seg c L, curFile := HOpen (last_seg c L),
     curOffset := length (seg_bytes (d\<lparr>segs := recovered_segs c L\<rparr>) (last_seg c L)),
     dsk := d\<lparr>flocked := True, segs := recovered_segs c L\<rparr>\<rparr>"

lemma foldl_max_sorted: "sorted_wrt (<) (k # ks) \<Longrightarrow> foldl max k ks = last (k # ks)"
  for k :: int
proof (induction ks arbitrary: k)
  case Nil
  show ?case by simp
next
  case (Cons j ks)
  then have "max k j = j" by simp
  with Cons show ?case by simp
qed

lemma lastSegmentIdx_layout:
  assumes "segs (dsk w) = map seg_file_cut L" and "sorted_wrt (<) (map seg_no L)"
    and "L = [] \<Longrightarrow> SegStart (cp w) = SegStart c" and "0 \<le> SegStart c" and "\<forall>s\<in>set L. 0 \<le> seg_no s"
  shows "lastSegmentIdx w = last_seg c L"
proof (cases L)
  case Nil
  then show ?thesis using assms by (simp add: lastSegmentIdx_def last_seg_def)
next
  case (Cons s L')
  have "foldl max (seg_no s) (map seg_no L') = seg_no (last L)"
    using foldl_max_sorted [of "seg_no s" "map seg_no L'"] assms(2) Cons
    by (metis last_map list.discI list.simps(9))
  moreover have "0 \<le> seg_no (last L)" using assms(5) Cons by (metis last_in_set list.discI)
  ultimately show ?thesis using assms(1) Cons by (simp add: lastSegmentIdx_def last_seg_def comp_def)
qed

lemma update_same: "map_of xs k = Some v \<Longrightarrow> AList.update k v xs = xs"
  by (induction xs) (auto split: if_splits)

lemma rotate_calm:
  assumes "calm w"
  shows "rotate w = (Inr (), w\<lparr>dsk := (dsk w)\<lparr>segs := AList.update (curSeg w) (seg_bytes (dsk w) (curSeg w)) (segs (dsk w))\<rparr>,
    curFile := HOpen (curSeg w), curOffset := length (seg_bytes (dsk w) (curSeg w))\<rparr>)"
  using assms by (simp add: rotate_def op_defs set_segs_def calm_def)

lemma recovered_segs_update:
  assumes "crash_dir d c st L n"
  shows "AList.update (last_seg c L) (seg_bytes (d'\<lparr>segs := map seg_file_cut L\<rparr>) (last_seg c L)) (map seg_file_cut L) =
      recovered_segs c L"
    and "seg_bytes (d'\<lparr>segs := map seg_file_cut L\<rparr>) (last_seg c L) = seg_bytes (d''\<lparr>segs := recovered_segs c L\<rparr>) (last_seg c L)"
proof -
  have "\<exists>v. map_of (map seg_file_cut L) (last_seg c L) = Some v" if "L \<noteq> []"
  proof -
    have "last_seg c L \<in> fst ` set (map seg_file_cut L)" using that by (auto simp: last_seg_def image_image)
    then show ?thesis by (metis domD dom_map_of_conv_image_fst)
  qed
  then show "AList.update (last_seg c L) (seg_bytes (d'\<lparr>segs := map seg_file_cut L\<rparr>) (last_seg c L)) (map seg_file_cut L) =
      recovered_segs c L"
    by (cases "L = []") (auto simp: recovered_segs_def last_seg_def seg_bytes_def update_same)
  show "seg_bytes (d'\<lparr>segs := map seg_file_cut L\<rparr>) (last_seg c L) = seg_bytes (d''\<lparr>segs := recovered_segs c L\<rparr>) (last_seg c L)"
    by (simp add: recovered_segs_def last_seg_def seg_bytes_def)
qed

text \<open>Which checkpoint a directory gives, and whether it is one without a backfill policy.\<close>

definition ckpt_gives :: "disk \<Rightarrow> checkpoint \<Rightarrow> bool \<Rightarrow> bool" where
  "ckpt_gives d c legacy \<longleftrightarrow> (case ckpt d of
     CkptNone \<Rightarrow> c = zero_checkpoint \<and> \<not> legacy
   | CkptBad \<Rightarrow> False
   | CkptLegacy c' \<Rightarrow> c = c' \<and> legacy
   | Ckpt c' \<Rightarrow> c = c' \<and> \<not> legacy)"

lemma crash_dir_cong [simp]:
  "crash_dir (d\<lparr>flocked := b\<rparr>) c st L n = crash_dir d c st L n"
  by (simp add: crash_dir_def)

lemma Open_crash_dir:
  assumes dir: "crash_dir d c st L n" and ck: "ckpt_gives d c legacy"
    and c: "outcomes d = []" and l: "\<not> flocked d"
  shows "Open sz d = (Inr (recovered sz legacy d c L), dsk (recovered sz legacy d c L))"
proof -
  let ?w1 = "(fresh_wal sz d)\<lparr>lockHeld := True, dsk := d\<lparr>flocked := True\<rparr>, cp := c, legacyCheckpoint := legacy\<rparr>"
  let ?w2 = "?w1\<lparr>cp := c\<lparr>SegStart := scan_start c L, AckedBytes := scan_skip c L\<rparr>,
    index := scan_index c L, dsk := d\<lparr>flocked := True, segs := map seg_file_cut L\<rparr>\<rparr>"
  let ?w3 = "?w2\<lparr>cp := c\<lparr>SegStart := scan_start c L, AckedBytes := scan_skip c L, NextSeq := next_seq c L\<rparr>,
    curSeg := last_seg c L\<rparr>"
  have ld: "loadCheckpoint ((fresh_wal sz d)\<lparr>lockHeld := True, dsk := d\<lparr>flocked := True\<rparr>\<rparr>) = (Inr (), ?w1)"
    using ck by (auto simp: loadCheckpoint_def ckpt_gives_def fresh_wal_def split: ckpt_file.splits)
  have sc: "scanSegments ?w1 = (Inr (), ?w2)"
    using scanSegments_calm [of ?w1 st L n] dir c by (simp add: calm_def fresh_wal_def)
  have raise: "raiseNextSeq ?w2 = ?w2\<lparr>cp := c\<lparr>SegStart := scan_start c L, AckedBytes := scan_skip c L, NextSeq := next_seq c L\<rparr>\<rparr>"
    by (simp add: raiseNextSeq_def next_seq_def Let_def)
  have "L = [] \<Longrightarrow> scan_start c L = SegStart c" by (simp add: scan_start_def)
  then have "lastSegmentIdx (raiseNextSeq ?w2) = last_seg c L"
    unfolding raise using dir by (intro lastSegmentIdx_layout) (auto simp: crash_dir_def sorted_wrt_append)
  then have "openBody (fresh_wal sz d) = rotate ?w3"
    using c l ld sc raise by (simp add: openBody_def op_defs fresh_wal_def)
  also have "\<dots> = (Inr (), recovered sz legacy d c L)"
    using rotate_calm [of ?w3] c recovered_segs_update(1) [OF dir, of "d\<lparr>flocked := True\<rparr>"]
      recovered_segs_update(2) [OF dir, of "d\<lparr>flocked := True\<rparr>" d]
    by (simp add: calm_def recovered_def)
  finally show ?thesis by (simp add: Open_def)
qed

lemma entries_seg: "fi \<in> set (entries k skip off fbs) \<Longrightarrow> fi_seg fi = k"
  by (induction fbs arbitrary: off) (auto simp: frame_entry_def split: if_splits)

lemma seg_entries_seg: "fi \<in> set (seg_entries start skip s) \<Longrightarrow> fi_seg fi = seg_no s"
  by (cases s) (auto dest: entries_seg)

lemma sorted_concat_segs:
  assumes "sorted_wrt (<) (map seg_no L)"
  shows "sorted (map fi_seg (concat (map (seg_entries start skip) L)))"
  using assms
proof (induction L)
  case Nil
  show ?case by simp
next
  case (Cons s L)
  have "map fi_seg (seg_entries start skip s) = replicate (length (seg_entries start skip s)) (seg_no s)"
    using seg_entries_seg by (intro replicate_eqI) auto
  then show ?case using Cons by (auto simp: sorted_append dest!: seg_entries_seg)
qed

lemma map_of_layout:
  assumes "sorted_wrt (<) (map seg_no L)" and "(k, fbs, t) \<in> set L"
  shows "map_of (map seg_file_cut L) k = Some (records fbs)"
proof (rule map_of_is_SomeI)
  show "distinct (map fst (map seg_file_cut L))"
    using assms(1) by (simp add: strict_sorted_iff comp_def)
  show "(k, records fbs) \<in> set (map seg_file_cut L)"
    using assms(2) by (force simp: seg_file_cut_def)
qed

lemma recovered_simps:
  "acked (recovered sz legacy d c L) = 0" "index (recovered sz legacy d c L) = scan_index c L"
  "dsk (recovered sz legacy d c L) = d\<lparr>flocked := True, segs := recovered_segs c L\<rparr>"
  "curSeg (recovered sz legacy d c L) = last_seg c L"
  "curFile (recovered sz legacy d c L) = HOpen (last_seg c L)"
  "curOffset (recovered sz legacy d c L) = length (seg_bytes (d\<lparr>segs := recovered_segs c L\<rparr>) (last_seg c L))"
  "cp (recovered sz legacy d c L) = c\<lparr>SegStart := scan_start c L, AckedBytes := scan_skip c L, NextSeq := next_seq c L\<rparr>"
  by (simp_all add: recovered_def fresh_wal_def)

lemma seg_bytes_layout:
  assumes "sorted_wrt (<) (map seg_no L)" and "(k, fbs, t) \<in> set L"
  shows "seg_bytes (d\<lparr>flocked := b, segs := recovered_segs c L\<rparr>) k = records fbs"
    and "k \<in> dom (map_of (recovered_segs c L))"
  using map_of_layout [OF assms] assms(2) by (auto simp: seg_bytes_def recovered_segs_def)

lemma crash_dir_sorted:
  assumes "crash_dir d c st L n"
  shows "sorted_wrt (<) (map seg_no L)"
  using assms by (simp add: crash_dir_def sorted_wrt_append)

lemma last_seg_max:
  assumes "sorted_wrt (<) (map seg_no L)" and "s \<in> set L"
  shows "seg_no s \<le> last_seg c L"
proof -
  have ne: "L \<noteq> []" using assms(2) by auto
  then have "sorted_wrt (<) (map seg_no (butlast L) @ [seg_no (last L)])"
    using assms(1) by (metis append_butlast_last_id list.simps(8) list.simps(9) map_append)
  moreover have "s \<in> set (butlast L) \<or> s = last L"
    using assms(2) ne by (metis append_butlast_last_id in_set_conv_decomp set_ConsD Un_iff list.set(1) empty_iff set_append)
  ultimately show ?thesis using ne by (auto simp: last_seg_def sorted_wrt_append)
qed

lemma recovered_healthy:
  assumes dir: "crash_dir d c st L n" and out: "outcomes d = []"
  shows "healthy (recovered sz legacy d c L)"
proof -
  let ?w = "recovered sz legacy d c L"
  note srt = crash_dir_sorted [OF dir]
  have entry: "scan_start c L \<le> fi_seg fi \<and> fi_seg fi \<le> last_seg c L \<and> readable (dsk ?w) fi"
    if fi: "fi \<in> set (scan_index c L)" for fi
  proof -
    from fi obtain k fbs t where s: "(k, fbs, t) \<in> set L"
      and e: "fi \<in> set (entries k (if k = scan_start c L then nat (scan_skip c L) else 0) 0 fbs)"
      by (auto simp: scan_index_def)
    have b: "seg_bytes (dsk ?w) k = [] @ records fbs @ []" "k \<in> dom (map_of (segs (dsk ?w)))"
      using seg_bytes_layout [OF srt s] by (simp_all add: recovered_simps)
    have "scan_start c L \<le> k" using crash_dir_skip_ok(2) [OF dir s] by simp
    moreover have "k \<le> last_seg c L" using last_seg_max [OF srt s] by simp
    moreover have "fi_seg fi = k \<and> fi_offset fi + recordHeadLen + fi_length fi \<le> length (seg_bytes (dsk ?w) k)"
      using frame_at_entries [OF b(1)] e by fastforce
    ultimately show ?thesis using b(2) by (simp add: readable_def)
  qed
  have "scan_start c L \<le> last_seg c L \<and> last_seg c L \<in> dom (map_of (recovered_segs c L))"
  proof (cases L)
    case Nil
    then show ?thesis by (simp add: scan_start_def last_seg_def recovered_segs_def)
  next
    case (Cons s L')
    obtain k fbs t where "last L = (k, fbs, t)" by (cases "last L") auto
    moreover have "last L \<in> set L" using Cons by simp
    ultimately show ?thesis
      using seg_bytes_layout(2) [OF srt] last_seg_max [OF srt, of s] Cons by (auto simp: scan_start_def last_seg_def)
  qed
  then have "wal_inv ?w"
    using entry sorted_concat_segs [OF srt]
    by (simp add: wal_inv_def recovered_simps handle_ok_def scan_index_def seg_bytes_def)
  then show ?thesis
    using out by (simp add: healthy_def calm_def clean_def recovered_simps seg_bytes_def)
qed

lemma recovered_pending:
  assumes dir: "crash_dir d c st L n"
  shows "pending (recovered sz legacy d c L) = map numbered (drop n (layout_frames L))"
proof (cases L)
  case Nil
  then show ?thesis by (simp add: pending_def recovered_simps scan_index_def layout_frames_def)
next
  case (Cons s L')
  let ?w = "recovered sz legacy d c L" and ?f = "\<lambda>fi. (fi_seq fi, frame_at (dsk (recovered sz legacy d c L)) fi)"
  obtain k fbs t where s: "s = (k, fbs, t)" by (cases s) auto
  note srt = crash_dir_sorted [OF dir]
  have n: "n \<le> length fbs" "scan_start c L = k" "nat (scan_skip c L) = length (records (take n fbs))"
    using dir s Cons by (auto simp: crash_dir_def scan_start_def scan_skip_def split: if_splits)
  have bytes: "seg_bytes (dsk ?w) j = records fs" if "(j, fs, u) \<in> set L" for j fs u
    using seg_bytes_layout(1) [OF srt that] by (simp add: recovered_simps)
  have hd: "map ?f (seg_entries (scan_start c L) (nat (scan_skip c L)) s) = map numbered (drop n fbs)"
    using map_entries [of "dsk ?w" k fbs "[]" n] bytes [of k fbs t] n s Cons by simp
  have tl: "map ?f (seg_entries (scan_start c L) (nat (scan_skip c L)) s') = map numbered (fst (snd s'))"
    if "s' \<in> set L'" for s'
  proof -
    obtain j fs u where s': "s' = (j, fs, u)" by (cases s') auto
    have "k < j" using srt Cons s s' that by auto
    then show ?thesis using map_entries0 [of "dsk ?w" j "[]" fs "[]"] bytes [of j fs u] n(2) s' that Cons by simp
  qed
  have "map ?f (concat (map (seg_entries (scan_start c L) (nat (scan_skip c L))) L')) =
      concat (map (\<lambda>s. map numbered (fst (snd s))) L')"
    using tl by (simp add: map_concat comp_def cong: map_cong)
  also have "\<dots> = map numbered (layout_frames L')"
    by (simp add: layout_frames_def map_concat comp_def case_prod_beta)
  finally show ?thesis
    using hd n(1) s Cons by (simp add: pending_def recovered_simps scan_index_def layout_frames_def)
qed

lemma maxIndexSeq_ge: "fi \<in> set fis \<Longrightarrow> fi_seq fi \<le> maxIndexSeq fis"
proof -
  have acc: "m \<le> foldl (\<lambda>m fi. if fi_seq fi > m then fi_seq fi else m) m fis" for m and fis :: "frameIndex list"
    by (induction fis arbitrary: m) (auto intro: order.trans [OF less_imp_le])
  have "fi_seq fi \<le> foldl (\<lambda>m fi. if fi_seq fi > m then fi_seq fi else m) m fis" if "fi \<in> set fis" for m
    using that
  proof (induction fis arbitrary: m)
    case Nil
    then show ?case by simp
  next
    case (Cons x fis)
    show ?case
    proof (cases "fi = x")
      case True
      have "fi_seq x \<le> (if fi_seq x > m then fi_seq x else m)" by (simp add: not_less)
      then show ?thesis using acc True by (simp only: foldl_Cons) (rule order.trans)
    next
      case False
      then show ?thesis using Cons by simp
    qed
  qed
  then show "fi \<in> set fis \<Longrightarrow> fi_seq fi \<le> maxIndexSeq fis" by (simp add: maxIndexSeq_def)
qed

lemma maxIndexSeq_in: "maxIndexSeq fis = 0 \<or> maxIndexSeq fis \<in> fi_seq ` set fis"
proof -
  have "foldl (\<lambda>m fi. if fi_seq fi > m then fi_seq fi else m) m fis \<in> insert m (fi_seq ` set fis)" for m
    by (induction fis arbitrary: m) auto
  from this [of 0] show ?thesis by (auto simp: maxIndexSeq_def)
qed

lemma next_seq_fresh:
  "NextSeq c \<le> next_seq c L"
  "- 1 \<notin> fi_seq ` set (scan_index c L) \<Longrightarrow> fi \<in> set (scan_index c L) \<Longrightarrow> fi_seq fi < next_seq c L"
proof -
  let ?m = "maxIndexSeq (scan_index c L)"
  show "NextSeq c \<le> next_seq c L" by (auto simp: next_seq_def Let_def intro: less_imp_le)
  assume nm: "- 1 \<notin> fi_seq ` set (scan_index c L)" and fi: "fi \<in> set (scan_index c L)"
  have "(0 :: u64) \<noteq> - 1" by simp
  then have "?m \<noteq> - 1" using maxIndexSeq_in [of "scan_index c L"] nm by metis
  then have "?m < ?m + 1" by (rule word_less_succ)
  moreover have "?m + 1 \<le> next_seq c L" by (simp add: next_seq_def Let_def not_less)
  ultimately show "fi_seq fi < next_seq c L" using maxIndexSeq_ge [OF fi] by (meson order.strict_trans1 order.strict_trans2)
qed

section \<open>Properties of recovery\<close>

text \<open>
  C6: Recovery after a crash. From a directory with complete records, a cut-off record of less
  than head and header behind them, segments whose removal was interrupted, and a checkpoint
  that may lag behind, opening succeeds: exactly the frames the checkpoint does not acknowledge
  are pending, in order; the cut-off bytes are truncated; the WAL is healthy; the cursor is the
  checkpoint's, and the next sequence number is not below the checkpoint's nor the number of a
  pending frame.
\<close>

theorem Open_recovers:
  assumes dir: "crash_dir d c st L n" and ck: "ckpt_gives d c legacy"
    and out: "outcomes d = []" and lock: "\<not> flocked d"
  shows "\<exists>w. Open sz d = (Inr w, dsk w) \<and> healthy w \<and> pending w = map numbered (drop n (layout_frames L)) \<and>
    segs (dsk w) = recovered_segs c L \<and> CursorNs (cp w) = CursorNs c \<and> NextSeq c \<le> NextSeq (cp w) \<and>
    (- 1 \<notin> fst ` set (pending w) \<longrightarrow> (\<forall>p\<in>set (pending w). fst p < NextSeq (cp w)))"
proof -
  let ?w = "recovered sz legacy d c L"
  have seqs: "fst ` set (pending ?w) = fi_seq ` set (scan_index c L)"
    by (auto simp: pending_def recovered_simps image_image)
  have "\<forall>p\<in>set (pending ?w). fst p < next_seq c L" if "- 1 \<notin> fst ` set (pending ?w)"
  proof
    fix p assume "p \<in> set (pending ?w)"
    then have "fst p \<in> fst ` set (pending ?w)" by simp
    then obtain fi where "fi \<in> set (scan_index c L)" "fst p = fi_seq fi" unfolding seqs by blast
    then show "fst p < next_seq c L" using next_seq_fresh(2) [of c L fi] that seqs by simp
  qed
  then show ?thesis
    using Open_crash_dir [OF dir ck out lock, of sz] recovered_healthy [OF dir out, of sz legacy]
      recovered_pending [OF dir, of sz legacy] next_seq_fresh(1) [of c L]
    by (intro exI [of _ ?w]) (simp add: recovered_simps)
qed

text \<open>A directory with a deleted-late segment, one acknowledged frame and a torn tail.\<close>

definition crashed_disk :: disk where
  "crashed_disk = empty_disk\<lparr>segs := [(0, [0x17]), (1, records [small_frame, small_frame] @ [0, 0])],
     ckpt := Ckpt (zero_checkpoint\<lparr>SegStart := 1, AckedBytes := 24, NextSeq := 5\<rparr>)\<rparr>"

lemma small_frame_wf: "wf_frame small_frame"
proof (rule wf_frame_Decode)
  show "Decode small_frame = Inr \<lparr>fVersion = Version, fType = TypeData, fSeq = 1, fCRC = 0, fPayload = []\<rparr>"
    using Decode_encodeRaw [of "[]" TypeData 1] by (simp add: small_frame_def frame_consts)
qed

lemma small_frame_seq: "hSeq (read_header small_frame) = 1"
  using read_putHeader [of _ "[]"] by (simp add: small_frame_def encodeRaw_def)

theorem Open_recovers_witness:
  "\<exists>w. Open 1000 crashed_disk = (Inr w, dsk w) \<and> pending w = [(1, small_frame)] \<and>
    segs (dsk w) = [(1, records [small_frame, small_frame])] \<and> 5 \<le> NextSeq (cp w)"
proof -
  let ?c = "zero_checkpoint\<lparr>SegStart := 1, AckedBytes := 24, NextSeq := 5\<rparr>"
  let ?L = "[(1, [small_frame, small_frame], [0, 0])] :: seg_layout list"
  have "crash_dir crashed_disk ?c [(0, [0x17])] ?L 1"
    using small_frame_wf by (simp add: crash_dir_def crashed_disk_def seg_file_def seg_wf_def
        zero_checkpoint_def recordHeadLen_def HeaderSize_def)
  moreover have "ckpt_gives crashed_disk ?c False" "outcomes crashed_disk = []" "\<not> flocked crashed_disk"
    by (simp_all add: ckpt_gives_def crashed_disk_def empty_disk_def)
  ultimately show ?thesis
    using Open_recovers [of crashed_disk ?c "[(0, [0x17])]" ?L 1 False 1000]
    by (auto simp: layout_frames_def numbered_def small_frame_seq recovered_segs_def seg_file_cut_def)
qed

text \<open>
  A directory that another process has locked is refused and left as it is, whatever the
  file system does.
\<close>

theorem Open_locked:
  assumes "flocked d"
  shows "\<exists>e os. Open sz d = (Inl e, d\<lparr>outcomes := os\<rparr>)"
proof -
  let ?w = "fresh_wal sz d"
  have d: "dsk ?w = d" by (simp add: fresh_wal_def)
  obtain r w where eq: "openBody ?w = (r, w)" by fastforce
  have "isl r \<and> (\<exists>os. dsk w = d\<lparr>outcomes := os\<rparr>)"
    using eq unfolding openBody_def
  proof (cases rule: thenE_cases)
    case (err e)
    then show ?thesis using io_cases [OF err(1)] d by auto
  next
    case (ok a t)
    obtain os where t: "t = ?w\<lparr>dsk := d\<lparr>outcomes := os\<rparr>\<rparr>" using io_cases [OF ok(1)] d by auto
    from ok(2) show ?thesis
    proof (cases rule: thenE_cases)
      case (err e)
      then show ?thesis using io_cases [OF err(1)] t d by auto
    next
      case (ok a u)
      obtain os where "u = ?w\<lparr>dsk := d\<lparr>outcomes := os\<rparr>\<rparr>" using io_cases [OF ok(1)] t d by auto
      with ok(2) assms have "isl r \<and> dsk w = d\<lparr>outcomes := os\<rparr>" by (auto simp: getE_def throwE_def)
      then show ?thesis by blast
    qed
  qed
  then show ?thesis using eq by (cases r) (auto simp: Open_def)
qed

theorem Open_locked_witness: "fst (Open 7 (empty_disk\<lparr>flocked := True\<rparr>)) = Inl ErrLocked"
proof -
  obtain e os where "Open 7 (empty_disk\<lparr>flocked := True\<rparr>) = (Inl e, empty_disk\<lparr>flocked := True, outcomes := os\<rparr>)"
    using Open_locked [of "empty_disk\<lparr>flocked := True\<rparr>" 7] by auto
  moreover have "fst (Open 7 (empty_disk\<lparr>flocked := True\<rparr>)) = Inl ErrLocked"
    by (simp add: Open_def openBody_def op_defs fresh_wal_def empty_disk_def)
  ultimately show ?thesis by simp
qed



text \<open>
  C27: Corruption in the middle of a segment costs only the corrupt bytes: when a record that
  cannot be right is followed by a well-formed one, with nothing inside the corrupt bytes that
  looks like a record and room for it in the search window, the scan resumes at the next
  record and indexes every other frame.
\<close>

theorem scan_skips_corrupt:
  assumes "\<forall>fb\<in>set (before @ fb # after). wf_frame fb" and "bad \<noteq> []"
    and "length bad + HeaderSize \<le> MaxFrameLen"
    and "scanRecord (records before @ bad @ records (fb # after)) (length (records before)) = RecBad"
    and "\<forall>q. length (records before) < q \<and> q < length (records before) + length bad \<longrightarrow>
           \<not> resyncAt (records before @ bad @ records (fb # after)) q"
  shows "scanLoop k (records before @ bad @ records (fb # after)) skip 0 acc =
    (acc @ entries k skip 0 before @ entries k skip (length (records before) + length bad) (fb # after), ScanEof)"
proof -
  let ?c = "records before @ bad @ records (fb # after)" and ?o = "length (records before)"
  have rs: "resyncRecord ?c ?o = Some (?o + length bad)"
    using resync_exact [of fb bad "records before" "records after"] assms by simp
  have "scanLoop k ?c skip 0 acc = scanLoop k ?c skip ?o (acc @ entries k skip 0 before)"
    using scanLoop_records [of before k "[]" "bad @ records (fb # after)" skip acc] assms(1) by simp
  also have "\<dots> = scanLoop k ?c skip (?o + length bad) (acc @ entries k skip 0 before)"
    using assms(4) rs by (subst scanLoop.simps) (simp add: skipCorrupt_def)
  also have "\<dots> = scanLoop k ?c skip (length ?c)
      ((acc @ entries k skip 0 before) @ entries k skip (?o + length bad) (fb # after))"
    using scanLoop_records [of "fb # after" k "records before @ bad" "[]" skip "acc @ entries k skip 0 before"] assms(1)
    by (simp add: add.assoc)
  finally show ?thesis unfolding scanLoop_eof by simp
qed

theorem scan_skips_corrupt_witness:
  "scanLoop 0 ([0, 0, 0, 0] @ records [small_frame]) 0 0 [] =
    ([\<lparr>fi_seg = 0, fi_offset = 4, fi_length = 20, fi_seq = 1, fi_typ = TypeData\<rparr>], ScanEof)"
proof -
  let ?c = "records [] @ [0, 0, 0, 0] @ records (small_frame # [])"
  have bad: "scanRecord ?c (length (records [])) = RecBad"
    by (simp add: scanRecord_def recLen_def getUint32_def be_nat_def be_step_def goslice_def recordHeadLen_def)
  have "be_bytes (Suc (Suc (Suc (Suc 0)))) 20 = [0, 0, 0, 20]" by simp
  moreover have "Suc (Suc (Suc (Suc 0))) = 4" by simp
  ultimately have "be_bytes 4 20 = [0, 0, 0, 20]" by (simp only:)
  then have enc: "encodeRecord small_frame = [0, 0, 0, 20] @ small_frame"
    by (simp add: encodeRecord_def putUint32_def)
  have "replicate (Suc (Suc (Suc (Suc 3)))) (0 :: byte) = [0, 0, 0, 0, 0, 0, 0]" by (simp add: numeral_3_eq_3)
  then have "replicate 7 (0 :: byte) = [0, 0, 0, 0, 0, 0, 0]" by simp
  with enc have c: "?c = [] @ replicate 7 0 @ 20 # small_frame" by simp
  have len: "recLen ?c q = 0" if "q \<in> {1, 2, 3}" for q
    unfolding c using that by (intro recLen_zeros) (auto simp: recordHeadLen_def)
  have "\<not> resyncAt ?c q" if "0 < q" "q < 4" for q
  proof -
    have "q \<in> {1, 2, 3}" using that by auto
    then show ?thesis using len [of q] by (auto simp: resyncAt_def Let_def)
  qed
  then have "\<forall>q. length (records []) < q \<and> q < length (records []) + length [0, 0, 0, 0 :: byte] \<longrightarrow> \<not> resyncAt ?c q"
    by simp
  from scan_skips_corrupt [OF _ _ _ bad this, of 0 0 "[]"] small_frame_wf show ?thesis
    by (simp add: frame_consts frame_entry_def small_frame_seq recordHeadLen_def)
      (simp add: small_frame_def encodeRaw_def read_putHeader [of _ "[]", simplified])
qed



end
