(* ===== verification/Startup.thy ===== *)
theory Startup
  imports Config_Text Wal_Recovery
begin

text \<open>
  Start-up of the sender, \<^verbatim>\<open>src/cmd/sender/main.go\<close>: where the cursor begins. The
  results of the probes for the oldest data are an argument, one per attempt; \<open>t\<close> is the
  clock the WAL reads when it saves its checkpoint.
\<close>

section \<open>The backfill policy\<close>

fun retryProbe :: "nat \<Rightarrow> nat \<Rightarrow> (nat \<Rightarrow> vm_err + int) \<Rightarrow> int option" where
  "retryProbe 0 attempt probe = None"
| "retryProbe (Suc k) attempt probe =
     (case probe attempt of Inr old \<Rightarrow> Some old | Inl _ \<Rightarrow> retryProbe k (attempt + 1) probe)"

record backfill_plan =
  applyPolicy :: bool
  policyNs :: int
  boundaryNs :: int

definition planBackfill :: "BackfillSpec \<Rightarrow> bool \<Rightarrow> int \<Rightarrow> int \<Rightarrow> backfill_plan" where
  "planBackfill spec probeOK oldest now =
     (case spec of
        BackfillNone \<Rightarrow> \<lparr>applyPolicy = True, policyNs = 0, boundaryNs = 0\<rparr>
      | BackfillAll \<Rightarrow>
          if \<not> probeOK \<or> oldest = 0 then \<lparr>applyPolicy = False, policyNs = 0, boundaryNs = 0\<rparr>
          else \<lparr>applyPolicy = True, policyNs = BackfillAllNs, boundaryNs = oldest\<rparr>
      | BackfillDuration d \<Rightarrow>
          if probeOK \<and> oldest = 0 then \<lparr>applyPolicy = False, policyNs = 0, boundaryNs = 0\<rparr>
          else let p = ms d; b = now - p in
            \<lparr>applyPolicy = True, policyNs = p,
             boundaryNs = (if probeOK \<and> oldest > 0 \<and> oldest > b then oldest else b)\<rparr>)"

definition initialCursor :: "BackfillSpec \<Rightarrow> bool \<Rightarrow> int \<Rightarrow> int \<Rightarrow> int \<Rightarrow> int \<Rightarrow> int" where
  "initialCursor spec probeOK oldest boundary initLagMs now =
     (case spec of
        BackfillAll \<Rightarrow> if probeOK \<and> oldest > 0 then oldest else now - initLagMs
      | BackfillDuration d \<Rightarrow> if boundary > 0 then boundary else now - initLagMs
      | BackfillNone \<Rightarrow> now - initLagMs)"

definition backfillInit :: "(nat \<Rightarrow> vm_err + int) \<Rightarrow> BackfillSpec \<Rightarrow> int \<Rightarrow> int \<Rightarrow> int \<Rightarrow> unit walM" where
  "backfillInit probe spec initLagMs now t =
     (let probed = (if spec = BackfillNone then Some 0 else retryProbe 5 1 probe);
          probeOK = (probed \<noteq> None);
          oldest = (case probed of None \<Rightarrow> 0 | Some old \<Rightarrow> old);
          plan = planBackfill spec probeOK oldest now
      in thenE (if applyPolicy plan then thenE (ApplyBackfillPolicy t (policyNs plan) (boundaryNs plan)) (retE ()) else retE ())
           (getE (\<lambda>w. if Cursor w = 0
              then SetCursor t (initialCursor spec probeOK oldest (boundaryNs plan) initLagMs now)
              else retE ())))"

section \<open>What the policy does to the WAL\<close>

lemma meta_same_cursor:
  assumes "meta_same (w\<lparr>cp := (cp w)\<lparr>CursorNs := c, BackfillNs := p\<rparr>\<rparr>) w'"
  shows "pending w' = pending w" "wal_inv w' = wal_inv w" "Cursor w' = c" "BackfillPolicyNs w' = p"
proof -
  have "pending (w\<lparr>cp := (cp w)\<lparr>CursorNs := c, BackfillNs := p\<rparr>\<rparr>) = pending w"
    "wal_inv (w\<lparr>cp := (cp w)\<lparr>CursorNs := c, BackfillNs := p\<rparr>\<rparr>) = wal_inv w"
    by (simp_all add: pending_def wal_inv_def handle_ok_def split: handle.split)
  then show "pending w' = pending w" "wal_inv w' = wal_inv w" "Cursor w' = c" "BackfillPolicyNs w' = p"
    using meta_same_simps [OF assms] meta_same_fields [OF assms] by (auto simp: Cursor_def BackfillPolicyNs_def)
qed

lemma ApplyBackfillPolicy_result:
  assumes "ApplyBackfillPolicy t pol b w = (r, w')"
  shows "pending w' = pending w \<and> wal_inv w' = wal_inv w \<and> BackfillPolicyNs w' = pol \<and>
    Cursor w' = (if \<not> legacyCheckpoint w \<and> BackfillPolicyNs w \<noteq> pol \<and> pol \<noteq> BackfillNoneNs \<and> 0 < b \<and> b < Cursor w
      then b else Cursor w)"
proof -
  have pers: "meta_same v w'" if "thenE (persistLocked t) (retE x) v = (r, w')" for x v
    using that by (cases rule: thenE_cases) (auto simp: retE_def dest: keepsD [OF keeps_meta_persist meta_same_refl])
  let ?rew = "pol \<noteq> BackfillNoneNs \<and> 0 < b \<and> b < CursorNs (cp w)"
  consider (legacy) "legacyCheckpoint w" "meta_same (w\<lparr>legacyCheckpoint := False, cp := (cp w)\<lparr>BackfillNs := pol\<rparr>\<rparr>) w'"
    | (same) "\<not> legacyCheckpoint w" "BackfillNs (cp w) = pol" "w' = w"
    | (changed) "\<not> legacyCheckpoint w" "BackfillNs (cp w) \<noteq> pol"
        "meta_same (w\<lparr>cp := (cp w)\<lparr>CursorNs := (if ?rew then b else CursorNs (cp w)), BackfillNs := pol\<rparr>\<rparr>) w'"
    using assms pers
    by (auto simp: ApplyBackfillPolicy_def getE_def thenE_modify retE_def Let_def split: if_splits)
  then show ?thesis
  proof cases
    case legacy
    have "meta_same ((w\<lparr>legacyCheckpoint := False\<rparr>)\<lparr>cp := (cp (w\<lparr>legacyCheckpoint := False\<rparr>))\<lparr>
        CursorNs := CursorNs (cp w), BackfillNs := pol\<rparr>\<rparr>) w'" using legacy(2) by simp
    note M = meta_same_cursor [OF this]
    have "pending (w\<lparr>legacyCheckpoint := False\<rparr>) = pending w" "wal_inv (w\<lparr>legacyCheckpoint := False\<rparr>) = wal_inv w"
      by (simp_all add: pending_def wal_inv_def handle_ok_def split: handle.split)
    then show ?thesis using M legacy(1) by (simp add: Cursor_def)
  next
    case same
    then show ?thesis by (simp add: BackfillPolicyNs_def)
  next
    case changed
    then show ?thesis using meta_same_cursor [OF changed(3)] by (simp add: BackfillPolicyNs_def Cursor_def)
  qed
qed

text \<open>
  The outcome of a successful start: the first cursor of a new WAL, and for a WAL with a cursor
  the boundary of a changed policy if that is earlier.
\<close>

definition start_cursor :: "BackfillSpec \<Rightarrow> bool \<Rightarrow> int \<Rightarrow> int \<Rightarrow> int \<Rightarrow> wal \<Rightarrow> int" where
  "start_cursor spec probeOK oldest lag now w =
     (let plan = planBackfill spec probeOK oldest now in
      if Cursor w = 0 then initialCursor spec probeOK oldest (boundaryNs plan) lag now
      else if applyPolicy plan \<and> \<not> legacyCheckpoint w \<and> BackfillPolicyNs w \<noteq> policyNs plan \<and>
        policyNs plan \<noteq> BackfillNoneNs \<and> 0 < boundaryNs plan then min (Cursor w) (boundaryNs plan)
      else Cursor w)"

definition probe_outcome :: "BackfillSpec \<Rightarrow> (nat \<Rightarrow> vm_err + int) \<Rightarrow> int option" where
  "probe_outcome spec probe = (if spec = BackfillNone then Some 0 else retryProbe 5 1 probe)"

lemma backfillInit_result:
  assumes ok: "backfillInit probe spec lag now t w = (Inr (), w')" and nn: "0 \<le> Cursor w"
  shows "pending w' = pending w" "wal_inv w' = wal_inv w"
    and "Cursor w' = start_cursor spec (probe_outcome spec probe \<noteq> None)
      (case probe_outcome spec probe of None \<Rightarrow> 0 | Some old \<Rightarrow> old) lag now w"
    and "BackfillPolicyNs w' = (let plan = planBackfill spec (probe_outcome spec probe \<noteq> None)
      (case probe_outcome spec probe of None \<Rightarrow> 0 | Some old \<Rightarrow> old) now
      in if applyPolicy plan then policyNs plan else BackfillPolicyNs w)"
proof -
  define pok where "pok = (probe_outcome spec probe \<noteq> None)"
  define old where "old = (case probe_outcome spec probe of None \<Rightarrow> 0 | Some old \<Rightarrow> old)"
  define plan where "plan = planBackfill spec pok old now"
  let ?init = "initialCursor spec pok old (boundaryNs plan) lag now"
  let ?pol = "if applyPolicy plan then thenE (ApplyBackfillPolicy t (policyNs plan) (boundaryNs plan)) (retE ()) else retE ()"
  let ?cur = "getE (\<lambda>w. if Cursor w = 0 then SetCursor t ?init else retE ())"
  have "thenE ?pol ?cur w = (Inr (), w')"
    using ok unfolding backfillInit_def Let_def probe_outcome_def [symmetric] pok_def [symmetric] old_def [symmetric]
      plan_def [symmetric] .
  then obtain u where u: "?pol w = (Inr (), u)" "?cur u = (Inr (), w')" by (cases rule: thenE_cases) auto
  have P: "pending u = pending w \<and> wal_inv u = wal_inv w \<and>
    BackfillPolicyNs u = (if applyPolicy plan then policyNs plan else BackfillPolicyNs w) \<and>
    Cursor u = (if applyPolicy plan \<and> \<not> legacyCheckpoint w \<and> BackfillPolicyNs w \<noteq> policyNs plan \<and>
      policyNs plan \<noteq> BackfillNoneNs \<and> 0 < boundaryNs plan \<and> boundaryNs plan < Cursor w then boundaryNs plan else Cursor w)"
  proof (cases "applyPolicy plan")
    case False
    then show ?thesis using u(1) by (simp add: retE_def)
  next
    case True
    then have "thenE (ApplyBackfillPolicy t (policyNs plan) (boundaryNs plan)) (retE ()) w = (Inr (), u)" using u(1) by simp
    then obtain a where "ApplyBackfillPolicy t (policyNs plan) (boundaryNs plan) w = (Inr a, u)"
      by (cases rule: thenE_cases) (auto simp: retE_def)
    from ApplyBackfillPolicy_result [OF this] True show ?thesis by simp
  qed
  have S: "pending w' = pending u \<and> wal_inv w' = wal_inv u \<and> BackfillPolicyNs w' = BackfillPolicyNs u \<and>
    Cursor w' = (if Cursor u = 0 then ?init else Cursor u)"
  proof (cases "Cursor u = 0")
    case False
    then show ?thesis using u(2) by (simp add: getE_def retE_def)
  next
    case True
    then have sc: "SetCursor t ?init u = (Inr (), w')" using u(2) by (simp add: getE_def)
    note R = SetCursor_result [OF sc]
    have "meta_same (u\<lparr>cp := (cp u)\<lparr>CursorNs := ?init, BackfillNs := BackfillNs (cp u)\<rparr>\<rparr>) w'" using R by auto
    from meta_same_cursor [OF this] True show ?thesis by (simp add: BackfillPolicyNs_def)
  qed
  show "pending w' = pending w" "wal_inv w' = wal_inv w" using P S by simp_all
  show "Cursor w' = start_cursor spec (probe_outcome spec probe \<noteq> None)
      (case probe_outcome spec probe of None \<Rightarrow> 0 | Some old \<Rightarrow> old) lag now w"
    unfolding pok_def [symmetric] old_def [symmetric] start_cursor_def plan_def [symmetric] Let_def
    using S P nn by (auto simp: min_def)
  show "BackfillPolicyNs w' = (let plan = planBackfill spec (probe_outcome spec probe \<noteq> None)
      (case probe_outcome spec probe of None \<Rightarrow> 0 | Some old \<Rightarrow> old) now
      in if applyPolicy plan then policyNs plan else BackfillPolicyNs w)"
    unfolding pok_def [symmetric] old_def [symmetric] plan_def [symmetric] Let_def using S P by simp
qed

text \<open>When the calls into the file system succeed, so does the start.\<close>

lemma SetCursor_calm:
  assumes "calm w" and "Cursor w \<le> c"
  shows "\<exists>w'. SetCursor t c w = (Inr (), w') \<and> calm w' \<and> legacyCheckpoint w' = legacyCheckpoint w"
  using assms persist_calm [of "w\<lparr>cp := (cp w)\<lparr>CursorNs := c\<rparr>\<rparr>" t]
  by (simp add: SetCursor_def getE_def thenE_modify Cursor_def calm_def)

lemma ApplyBackfillPolicy_calm:
  assumes "calm w" and "\<not> legacyCheckpoint w"
  shows "\<exists>r w'. ApplyBackfillPolicy t pol b w = (Inr r, w') \<and> calm w' \<and> \<not> legacyCheckpoint w'"
  using assms persist_calm [of "w\<lparr>cp := (cp w)\<lparr>CursorNs := c, BackfillNs := pol\<rparr>\<rparr>" t for c]
  by (auto simp: ApplyBackfillPolicy_def getE_def op_defs Let_def calm_def)

lemma backfillInit_calm:
  assumes "calm w" and "\<not> legacyCheckpoint w" and "0 \<le> Cursor w"
    and "0 \<le> start_cursor spec (probe_outcome spec probe \<noteq> None)
      (case probe_outcome spec probe of None \<Rightarrow> 0 | Some old \<Rightarrow> old) lag now w"
  shows "\<exists>w'. backfillInit probe spec lag now t w = (Inr (), w') \<and> calm w' \<and> \<not> legacyCheckpoint w'"
proof -
  define pok where "pok = (probe_outcome spec probe \<noteq> None)"
  define old where "old = (case probe_outcome spec probe of None \<Rightarrow> 0 | Some old \<Rightarrow> old)"
  define plan where "plan = planBackfill spec pok old now"
  let ?init = "initialCursor spec pok old (boundaryNs plan) lag now"
  let ?pol = "if applyPolicy plan then thenE (ApplyBackfillPolicy t (policyNs plan) (boundaryNs plan)) (retE ()) else retE ()"
  let ?cur = "getE (\<lambda>w. if Cursor w = 0 then SetCursor t ?init else retE ())"
  have e: "backfillInit probe spec lag now t w = thenE ?pol ?cur w"
    unfolding backfillInit_def Let_def probe_outcome_def [symmetric] pok_def [symmetric] old_def [symmetric]
      plan_def [symmetric] ..
  obtain u where u: "?pol w = (Inr (), u)" "calm u" "\<not> legacyCheckpoint u" "Cursor u = 0 \<longrightarrow> Cursor w = 0"
  proof (cases "applyPolicy plan")
    case False
    then show ?thesis using that [of w] assms by (simp add: retE_def)
  next
    case True
    obtain r u where a: "ApplyBackfillPolicy t (policyNs plan) (boundaryNs plan) w = (Inr r, u)" "calm u" "\<not> legacyCheckpoint u"
      using ApplyBackfillPolicy_calm [OF assms(1,2)] by blast
    then have "Cursor u = 0 \<longrightarrow> Cursor w = 0" using ApplyBackfillPolicy_result [OF a(1)] by (auto split: if_splits)
    then show ?thesis using that [of u] a True by (simp add: op_defs retE_def)
  qed
  have init: "Cursor u = 0 \<Longrightarrow> 0 \<le> ?init"
    using u(4) assms(4) unfolding pok_def [symmetric] old_def [symmetric] by (simp add: start_cursor_def plan_def Let_def)
  show ?thesis
  proof (cases "Cursor u = 0")
    case True
    then show ?thesis using SetCursor_calm [OF u(2), of ?init t] init u by (auto simp: e op_defs getE_def)
  next
    case False
    then show ?thesis using u by (simp add: e op_defs getE_def retE_def)
  qed
qed

section \<open>Properties of the start-up\<close>

lemma retryProbe_first: "probe attempt = Inr old \<Longrightarrow> 0 < k \<Longrightarrow> retryProbe k attempt probe = Some old"
  by (cases k) simp_all

lemma retryProbe_none:
  assumes "\<And>a. case probe a of Inl e \<Rightarrow> True | Inr old \<Rightarrow> old = 0"
  shows "retryProbe k attempt probe = None \<or> retryProbe k attempt probe = Some 0"
proof (induction k arbitrary: attempt)
  case (Suc k)
  then show ?case using assms [of attempt] by (auto split: sum.splits)
qed simp

lemma outcome_serves:
  assumes "serves srv ts" "old \<in> ts" "\<forall>t\<in>ts. old \<le> t" "0 \<le> old" "old < pnow" "spec \<noteq> BackfillNone"
  shows "probe_outcome spec (\<lambda>_. ProbeOldestData srv pnow) = Some old"
  using retryProbe_first [of "\<lambda>_. ProbeOldestData srv pnow" 1 old 5] ProbeOldestData_finds [OF assms(1-5)] assms(6)
  by (simp add: probe_outcome_def)

lemma outcome_none:
  assumes "\<forall>a. case probe a of Inl e \<Rightarrow> True | Inr old \<Rightarrow> old = 0"
  shows "probe_outcome BackfillAll probe = None \<or> probe_outcome BackfillAll probe = Some 0"
  unfolding probe_outcome_def using assms retryProbe_none [of probe] by auto

text \<open>What a policy asks for: the samples at or after a point, given the time of the start.\<close>

fun wanted :: "BackfillSpec \<Rightarrow> int \<Rightarrow> int \<Rightarrow> int \<Rightarrow> bool" where
  "wanted BackfillNone lag now t \<longleftrightarrow> now - lag \<le> t"
| "wanted BackfillAll lag now t \<longleftrightarrow> True"
| "wanted (BackfillDuration d) lag now t \<longleftrightarrow> now - ms d \<le> t"

text \<open>
  C24: The first start with an empty cursor puts it where the configured policy asks: at the
  oldest sample of the database, at the later of that and the start of the asked-for duration,
  or at the visibility lag before now. No sample the policy asks for is before the cursor, the
  frames waiting in the WAL stay, and the policy is recorded.
\<close>

theorem backfill_covers:
  assumes "serves srv ts" and "old \<in> ts" and "\<forall>t\<in>ts. old \<le> t" and "0 < old" and "old < pnow"
    and "Cursor w = 0" and "backfillInit (\<lambda>_. ProbeOldestData srv pnow) spec lag now t w = (Inr (), w')"
  shows "(\<forall>s\<in>ts. wanted spec lag now s \<longrightarrow> Cursor w' \<le> s) \<and> pending w' = pending w \<and>
    Cursor w' = (case spec of BackfillNone \<Rightarrow> now - lag | BackfillAll \<Rightarrow> old
      | BackfillDuration d \<Rightarrow> max old (now - ms d)) \<and>
    BackfillPolicyNs w' = (case spec of BackfillNone \<Rightarrow> 0 | BackfillAll \<Rightarrow> BackfillAllNs
      | BackfillDuration d \<Rightarrow> ms d)"
proof -
  note R = backfillInit_result [OF assms(7)]
  have "spec \<noteq> BackfillNone \<Longrightarrow> probe_outcome spec (\<lambda>_. ProbeOldestData srv pnow) = Some old"
    using outcome_serves assms(1-5) by auto
  moreover have "probe_outcome BackfillNone p = Some 0" for p by (simp add: probe_outcome_def)
  ultimately have C: "Cursor w' = (case spec of BackfillNone \<Rightarrow> now - lag | BackfillAll \<Rightarrow> old
      | BackfillDuration d \<Rightarrow> max old (now - ms d))"
    and P: "BackfillPolicyNs w' = (case spec of BackfillNone \<Rightarrow> 0 | BackfillAll \<Rightarrow> BackfillAllNs
      | BackfillDuration d \<Rightarrow> ms d)"
    using R(3,4) assms(4,6)
    by (cases spec; simp add: start_cursor_def initialCursor_def planBackfill_def Let_def max_def split: if_splits)+
  then show ?thesis using R(1) assms(3,6) by (cases spec) auto
qed

definition demo_srv :: "int \<Rightarrow> int \<Rightarrow> http_result" where
  "demo_srv a b = HttpResp 200 (if a \<le> 7 \<and> 7 < b \<or> a \<le> 40 \<and> 40 < b then [1] else [], None)"

lemma demo_srv_serves: "serves demo_srv {7, 40}"
  unfolding serves_def demo_srv_def by auto

text \<open>
  C25: A start that asked for everything and found no oldest sample, because every probe failed
  or the database was empty, starts from the present but does not record the policy. A later
  start that finds the oldest sample takes the cursor back to it and records the policy: the
  history is not lost to an unlucky first start.
\<close>

theorem backfill_retried:
  assumes "\<forall>a. case probe a of Inl e \<Rightarrow> True | Inr old \<Rightarrow> old = 0" and "Cursor w = 0" and "BackfillPolicyNs w = 0"
    and "backfillInit probe BackfillAll lag now t w = (Inr (), w1)"
    and "\<not> legacyCheckpoint w2" and "BackfillPolicyNs w2 = BackfillPolicyNs w1" and "Cursor w1 \<le> Cursor w2" and "lag < now"
    and "serves srv ts" and "old \<in> ts" and "\<forall>t\<in>ts. old \<le> t" and "0 < old" and "old < pnow"
    and "backfillInit (\<lambda>_. ProbeOldestData srv pnow) BackfillAll lag2 now2 t2 w2 = (Inr (), w3)"
  shows "Cursor w1 = now - lag \<and> BackfillPolicyNs w1 = 0 \<and>
    Cursor w3 \<le> old \<and> BackfillPolicyNs w3 = BackfillAllNs \<and> pending w1 = pending w \<and> pending w3 = pending w2"
proof -
  have "0 \<le> Cursor w" using assms(2) by simp
  note R = backfillInit_result [OF assms(4) this]
  have w1: "Cursor w1 = now - lag" "BackfillPolicyNs w1 = 0" "pending w1 = pending w"
    using R(1,3,4) outcome_none [OF assms(1)] assms(2,3)
    by (auto simp: start_cursor_def initialCursor_def planBackfill_def Let_def)
  then have pos: "0 < Cursor w2" using assms(7,8) by simp
  then have "0 \<le> Cursor w2" by simp
  note S = backfillInit_result [OF assms(14) this]
  have "probe_outcome BackfillAll (\<lambda>_. ProbeOldestData srv pnow) = Some old"
    using outcome_serves [OF assms(9-11)] assms(12,13) by simp
  then have "Cursor w3 \<le> old" "BackfillPolicyNs w3 = BackfillAllNs" "pending w3 = pending w2"
    using S(1,3,4) pos assms(5,6,12) w1(2)
    by (auto simp: start_cursor_def planBackfill_def Let_def BackfillAllNs_def BackfillNoneNs_def)
  then show ?thesis using w1 by simp
qed

lemma small_wal_start: "calm small_wal" "\<not> legacyCheckpoint small_wal" "Cursor small_wal = 0" "BackfillPolicyNs small_wal = 0"
  by (simp_all add: small_wal_def calm_def fresh_wal_def empty_disk_def Cursor_def BackfillPolicyNs_def zero_checkpoint_def)

theorem backfill_covers_witness:
  "let w' = snd (backfillInit (\<lambda>_. ProbeOldestData demo_srv 1000) (BackfillDuration 970000000) 5 1000 3 small_wal)
   in Cursor w' = 30 \<and> BackfillPolicyNs w' = 970 \<and> pending w' = pending small_wal"
proof -
  let ?p = "\<lambda>_. ProbeOldestData demo_srv 1000"
  have "probe_outcome (BackfillDuration 970000000) ?p = Some 7"
    by (rule outcome_serves [OF demo_srv_serves]) auto
  then have "0 \<le> start_cursor (BackfillDuration 970000000) (probe_outcome (BackfillDuration 970000000) ?p \<noteq> None)
      (case probe_outcome (BackfillDuration 970000000) ?p of None \<Rightarrow> 0 | Some old \<Rightarrow> old) 5 1000 small_wal"
    using small_wal_start by (simp add: start_cursor_def initialCursor_def planBackfill_def Let_def ms_def quot_nonneg)
  from backfillInit_calm [OF _ _ _ this, of 3] small_wal_start
  obtain w' where w': "backfillInit ?p (BackfillDuration 970000000) 5 1000 3 small_wal = (Inr (), w')" by auto
  from backfill_covers [OF demo_srv_serves, of 7, OF _ _ _ _ _ this] show ?thesis
    by (simp add: Let_def w' ms_def quot_nonneg small_wal_start)
qed

definition dead_probe :: "nat \<Rightarrow> vm_err + int" where
  "dead_probe _ = ProbeOldestData (\<lambda>_ _. HttpResp 503 ([], None)) 1000"

definition first_start :: wal where
  "first_start = snd (backfillInit dead_probe BackfillAll 5 1000 3 small_wal)"

definition second_start :: wal where
  "second_start = snd (backfillInit (\<lambda>_. ProbeOldestData demo_srv 2000) BackfillAll 5 2000 4 first_start)"

lemma dead_probe_none: "\<forall>a. case dead_probe a of Inl e \<Rightarrow> True | Inr old \<Rightarrow> old = 0"
  by (simp add: dead_probe_def ProbeOldestData_def ExportHasData_def)

lemma demo_starts:
  "backfillInit dead_probe BackfillAll 5 1000 3 small_wal = (Inr (), first_start) \<and> calm first_start \<and>
    \<not> legacyCheckpoint first_start" (is ?first)
  "backfillInit (\<lambda>_. ProbeOldestData demo_srv 2000) BackfillAll 5 2000 4 first_start = (Inr (), second_start)"
proof -
  have "0 \<le> start_cursor BackfillAll (probe_outcome BackfillAll dead_probe \<noteq> None)
      (case probe_outcome BackfillAll dead_probe of None \<Rightarrow> 0 | Some old \<Rightarrow> old) 5 1000 small_wal"
    using outcome_none [OF dead_probe_none] small_wal_start
    by (auto simp: start_cursor_def initialCursor_def planBackfill_def)
  from backfillInit_calm [OF _ _ _ this, of 3] small_wal_start show f: ?first
    by (auto simp: first_start_def)
  have "probe_outcome BackfillAll (\<lambda>_. ProbeOldestData demo_srv 2000) = Some 7"
    by (rule outcome_serves [OF demo_srv_serves]) auto
  moreover have "0 \<le> Cursor first_start" using backfillInit_result(3) [OF conjunct1 [OF f]] small_wal_start
    outcome_none [OF dead_probe_none] by (auto simp: start_cursor_def initialCursor_def planBackfill_def)
  ultimately have "0 \<le> start_cursor BackfillAll (probe_outcome BackfillAll (\<lambda>_. ProbeOldestData demo_srv 2000) \<noteq> None)
      (case probe_outcome BackfillAll (\<lambda>_. ProbeOldestData demo_srv 2000) of None \<Rightarrow> 0 | Some old \<Rightarrow> old) 5 2000 first_start"
    by (auto simp: start_cursor_def initialCursor_def planBackfill_def Let_def)
  from backfillInit_calm [OF _ _ _ this, of 4] f \<open>0 \<le> Cursor first_start\<close>
  show "backfillInit (\<lambda>_. ProbeOldestData demo_srv 2000) BackfillAll 5 2000 4 first_start = (Inr (), second_start)"
    by (auto simp: second_start_def)
qed

theorem backfill_retried_witness:
  "Cursor first_start = 995 \<and> BackfillPolicyNs first_start = 0 \<and>
   Cursor second_start \<le> 7 \<and> BackfillPolicyNs second_start = BackfillAllNs"
  using backfill_retried [of dead_probe small_wal 5 1000 3 first_start first_start demo_srv "{7, 40}" 7 2000 5 2000 4 second_start]
    demo_srv_serves demo_starts dead_probe_none small_wal_start by simp

section \<open>Starting the sender\<close>

text \<open>
  The part of \<^verbatim>\<open>run\<close> that prepares the WAL: open it, apply the policy; on an error
  the deferred \<^verbatim>\<open>Close\<close> runs.
\<close>

definition startSender :: "SenderConf \<Rightarrow> (nat \<Rightarrow> vm_err + int) \<Rightarrow> int \<Rightarrow> int \<Rightarrow> disk \<Rightarrow> (wal_err + wal) \<times> disk" where
  "startSender c probe now t d =
     (case Open (SegmentSize c) d of
        (Inl e, d1) \<Rightarrow> (Inl e, d1)
      | (Inr w, _) \<Rightarrow>
          (case backfillInit probe (backfillSpec c) (ms (EffectiveExportLag c)) now t w of
             (Inl e, w1) \<Rightarrow> (Inl e, dsk (snd (Close t w1)))
           | (Inr _, w1) \<Rightarrow> (Inr w1, dsk w1)))"

definition policy_of :: "BackfillSpec \<Rightarrow> int" where
  "policy_of spec = (case spec of BackfillNone \<Rightarrow> BackfillNoneNs | BackfillAll \<Rightarrow> BackfillAllNs | BackfillDuration d \<Rightarrow> ms d)"

lemma start_cursor_resumes:
  assumes "0 < Cursor w"
  shows "0 < start_cursor spec ok old lag now w" and "start_cursor spec ok old lag now w \<le> Cursor w"
    and "BackfillPolicyNs w = policy_of spec \<Longrightarrow> start_cursor spec ok old lag now w = Cursor w"
  using assms
  by (cases spec; auto simp: start_cursor_def planBackfill_def policy_of_def BackfillNoneNs_def Let_def)+

text \<open>
  From the directory a crash left behind the sender starts, whatever
  the probes of the database answer: every frame the checkpoint does not acknowledge is pending
  again, in order, and the cursor is not after the saved one, so that no window between them is
  left out; with the policy of the last start it is exactly the saved one.
\<close>

lemma startSender_resumes:
  assumes "crash_dir d c st lay n" and "ckpt_gives d c False" and "outcomes d = []" and "\<not> flocked d" and "0 < CursorNs c"
  shows "\<exists>w. startSender conf probe now t d = (Inr w, dsk w) \<and> wal_inv w \<and>
    pending w = map numbered (drop n (layout_frames lay)) \<and> 0 < Cursor w \<and> Cursor w \<le> CursorNs c \<and>
    (policy_of (backfillSpec conf) = BackfillNs c \<longrightarrow> Cursor w = CursorNs c)"
proof -
  let ?w = "recovered (SegmentSize conf) False d c lay" and ?spec = "backfillSpec conf"
  let ?lag = "ms (EffectiveExportLag conf)"
  have h: "healthy ?w" by (rule recovered_healthy [OF assms(1,3)])
  have cur: "Cursor ?w = CursorNs c" "BackfillPolicyNs ?w = BackfillNs c" by (simp_all add: Cursor_def BackfillPolicyNs_def recovered_simps)
  note sc = start_cursor_resumes [of ?w ?spec "probe_outcome ?spec probe \<noteq> None"
      "case probe_outcome ?spec probe of None \<Rightarrow> 0 | Some old \<Rightarrow> old" ?lag now]
  have "calm ?w" "\<not> legacyCheckpoint ?w" "0 \<le> Cursor ?w"
    using h cur assms(5) by (simp_all add: healthy_def recovered_def)
  then obtain w where w: "backfillInit probe ?spec ?lag now t ?w = (Inr (), w)"
    using backfillInit_calm [of ?w ?spec probe ?lag now t] sc(1) cur assms(5) by auto
  note R = backfillInit_result [OF w \<open>0 \<le> Cursor ?w\<close>]
  have "startSender conf probe now t d = (Inr w, dsk w)"
    by (simp add: startSender_def Open_crash_dir [OF assms(1-4)] w)
  then show ?thesis
    using R(1-3) recovered_pending [OF assms(1)] sc cur assms(5) h
    by (intro exI [of _ w]) (simp add: healthy_def)
qed

definition stopped_disk :: disk where
  "stopped_disk = crashed_disk\<lparr>ckpt := Ckpt (zero_checkpoint\<lparr>SegStart := 1, AckedBytes := 24, NextSeq := 5,
     CursorNs := 400, BackfillNs := BackfillAllNs\<rparr>)\<rparr>"

end
