(* ===== verification/Logger.thy ===== *)
theory Logger
  imports Config
begin

text \<open>
  The logger, \<^verbatim>\<open>src/internal/logger/logger.go\<close>: the level, where it writes and the
  limits of the files. Creating the directory is an argument, its error or \<open>None\<close>; encoding
  and rotation are those of the libraries it configures.
\<close>

datatype LogLevel = DebugLevel | InfoLevel | WarnLevel | ErrorLevel

datatype log_sink = LogStderr | LogFile bytes int int

record logger =
  lgLevel :: LogLevel
  lgSink :: log_sink

definition lower :: "bytes \<Rightarrow> bytes" where
  "lower s = map (\<lambda>b. if 65 \<le> b \<and> b \<le> 90 then b + 32 else b) s"

definition dirOf :: "bytes \<Rightarrow> bytes" where
  "dirOf p = (case last_index_of [47] p of None \<Rightarrow> str ''.'' | Some i \<Rightarrow> take i p)"

definition NewLogger :: "(bytes \<Rightarrow> string option) \<Rightarrow> LogConfig \<Rightarrow> string + logger" where
  "NewLogger mkdir cfg =
     (let l = lower (log_Level cfg);
          level = (if l = str ''debug'' then DebugLevel else if l = str ''warn'' then WarnLevel
                   else if l = str ''error'' then ErrorLevel else InfoLevel)
      in if log_File cfg \<noteq> [] then
           (case mkdir (dirOf (log_File cfg)) of
              Some e \<Rightarrow> Inl e
            | None \<Rightarrow> Inr \<lparr>lgLevel = level, lgSink = LogFile (log_File cfg)
                (if log_MaxMB cfg \<le> 0 then 100 else log_MaxMB cfg) (if log_MaxBackups cfg \<le> 0 then 10 else log_MaxBackups cfg)\<rparr>)
         else Inr \<lparr>lgLevel = level, lgSink = LogStderr\<rparr>)"

text \<open>The directory of a path in a directory is read off the path.\<close>

lemma last_index_slash: "47 \<notin> set name \<Longrightarrow> last_index_of [47] (dir @ 47 # name) = Some (length dir)"
proof (induction dir)
  case Nil
  have "last_index_of [47] name = None" if "47 \<notin> set name" for name
    using that by (induction name) (auto simp: has_prefix_def)
  then show ?case using Nil by (simp add: has_prefix_def)
qed simp

lemma dirOf_path: "47 \<notin> set name \<Longrightarrow> dirOf (dir @ 47 # name) = dir"
  using last_index_slash by (simp add: dirOf_def)

text \<open>
  A log file in the root directory has the empty directory, and creating that fails: the process
  does not start. A file in any other directory is opened once its directory can be created.
\<close>

lemma root_log_fails:
  assumes "mkdir [] = Some e" and "log_File cfg = 47 # name" and "47 \<notin> set name"
  shows "NewLogger mkdir cfg = Inl e"
  using dirOf_path [OF assms(3), of "[]"] assms by (simp add: NewLogger_def Let_def)

lemma logger_opens:
  assumes "mkdir dir = None" and "log_File cfg = dir @ 47 # name" and "47 \<notin> set name"
  shows "\<exists>l mb n. NewLogger mkdir cfg = Inr \<lparr>lgLevel = l, lgSink = LogFile (log_File cfg) mb n\<rparr> \<and> 0 < mb \<and> 0 < n"
  using dirOf_path [OF assms(3), of dir] assms by (simp add: NewLogger_def Let_def)

end
