(* ===== verification/Tcp_Server.thy ===== *)
theory Tcp_Server
  imports Transport
begin

text \<open>
  The TCP server as a whole, \<^verbatim>\<open>src/internal/transport/tcp_server.go\<close>: listening, the
  accept loop with its limit and its numbering of connections, the connections side by side, and
  closing. The server is a record, each goroutine a step on it; \<open>sAccepted\<close> are the numbers
  given out so far, \<open>sClosed\<close> the connections whose socket was closed under their reader.
\<close>

section \<open>The server\<close>

record server =
  sListening :: bool
  sServing :: bool
  sCancelled :: bool
  sConnSeq :: u64
  sConns :: "u64 \<rightharpoonup> server_conn"
  sClosed :: "u64 set"
  sAccepted :: "u64 list"

definition new_server :: server where
  "new_server = \<lparr>sListening = False, sServing = False, sCancelled = False, sConnSeq = 0, sConns = (\<lambda>_. None),
     sClosed = {}, sAccepted = []\<rparr>"

definition ListenTCP :: "string option \<Rightarrow> server \<Rightarrow> string + server" where
  "ListenTCP res s = (case res of Some e \<Rightarrow> Inl e | None \<Rightarrow> Inr (s\<lparr>sListening := True\<rparr>))"

text \<open>One round of \<^verbatim>\<open>Serve\<close>: an error of \<^verbatim>\<open>Accept\<close>, or a connection.\<close>

definition serveError :: "server \<Rightarrow> server" where
  "serveError s = (if sCancelled s then s\<lparr>sServing := False\<rparr> else s)"

definition serveConn :: "ServerConfig \<Rightarrow> bytes \<Rightarrow> server \<Rightarrow> server" where
  "serveConn cfg bs s =
     (case acceptConn cfg (sConnSeq s, dom (sConns s)) of
        (None, _) \<Rightarrow> s
      | (Some i, seq, _) \<Rightarrow> s\<lparr>sConnSeq := seq, sConns := (sConns s)(i \<mapsto> new_conn bs), sAccepted := sAccepted s @ [i]\<rparr>)"

text \<open>The deferred end of \<^verbatim>\<open>handleConn\<close>; \<^verbatim>\<open>Close\<close>, and the reader that meets the
  closed socket.\<close>

definition endConn :: "u64 \<Rightarrow> server \<Rightarrow> server" where
  "endConn i s = s\<lparr>sConns := (sConns s)(i := None)\<rparr>"

definition CloseServer :: "server \<Rightarrow> server" where
  "CloseServer s = s\<lparr>sListening := False, sClosed := sClosed s \<union> dom (sConns s)\<rparr>"

definition readClosed :: "u64 \<Rightarrow> server_conn \<Rightarrow> server \<Rightarrow> server" where
  "readClosed i c s = s\<lparr>sConns := (sConns s)(i \<mapsto> stopReading c)\<rparr>"

inductive srv_step :: "ServerConfig \<Rightarrow> server \<Rightarrow> server \<Rightarrow> bool" for cfg where
  listen: "ListenTCP None s = Inr s' \<Longrightarrow> \<not> sServing s \<Longrightarrow> srv_step cfg s s'"
| serve: "sListening s \<Longrightarrow> srv_step cfg s (s\<lparr>sServing := True\<rparr>)"
| connect: "sServing s \<Longrightarrow> sListening s \<Longrightarrow> srv_step cfg s (serveConn cfg bs s)"
| accept_error: "sServing s \<Longrightarrow> srv_step cfg s (serveError s)"
| conn: "sConns s i = Some c \<Longrightarrow> conn_step cfg c c' \<Longrightarrow> srv_step cfg s (s\<lparr>sConns := (sConns s)(i \<mapsto> c')\<rparr>)"
| ended: "sConns s i = Some c \<Longrightarrow> \<not> reading c \<Longrightarrow> srv_step cfg s (endConn i s)"
| cancel: "srv_step cfg s (s\<lparr>sCancelled := True\<rparr>)"
| close: "srv_step cfg s (CloseServer s)"
| closed_read: "sConns s i = Some c \<Longrightarrow> i \<in> sClosed s \<Longrightarrow> srv_step cfg s (readClosed i c s)"

section \<open>The invariant\<close>

definition srv_inv :: "ServerConfig \<Rightarrow> server \<Rightarrow> bool" where
  "srv_inv cfg s \<longleftrightarrow> finite (dom (sConns s)) \<and> (0 < MaxConns cfg \<longrightarrow> int (card (dom (sConns s))) \<le> MaxConns cfg) \<and>
     dom (sConns s) \<subseteq> set (sAccepted s) \<and> sConnSeq s = word_of_nat (length (sAccepted s)) \<and>
     sAccepted s = map (\<lambda>k. word_of_nat (k + 1)) [0..<length (sAccepted s)] \<and>
     (\<forall>i c. sConns s i = Some c \<longrightarrow> (\<exists>bs. (conn_step cfg)\<^sup>*\<^sup>* (new_conn bs) c))"

lemma srv_inv_conn: "srv_inv cfg s \<Longrightarrow> sConns s i = Some c \<Longrightarrow> \<exists>bs. (conn_step cfg)\<^sup>*\<^sup>* (new_conn bs) c"
  unfolding srv_inv_def by blast

lemma serveConn_inv:
  assumes "srv_inv cfg s"
  shows "srv_inv cfg (serveConn cfg bs s)"
proof (cases "MaxConns cfg > 0 \<and> countConns (MaxConns cfg) (card (dom (sConns s))) \<ge> MaxConns cfg")
  case True
  then show ?thesis using assms by (simp add: serveConn_def acceptConn_def)
next
  case False
  let ?i = "sConnSeq s + 1" and ?s = "serveConn cfg bs s"
  have s: "sConnSeq ?s = ?i" "sConns ?s = (sConns s)(?i \<mapsto> new_conn bs)" "sAccepted ?s = sAccepted s @ [?i]"
    using False by (auto simp: serveConn_def acceptConn_def)
  have room: "0 < MaxConns cfg \<longrightarrow> int (card (dom (sConns s))) < MaxConns cfg"
    using False by (auto simp: countConns_def)
  have fin: "finite (dom (sConns s))" using assms by (simp add: srv_inv_def)
  then have "card (insert ?i (dom (sConns s))) \<le> Suc (card (dom (sConns s)))" by (simp add: card_insert_if)
  then have "0 < MaxConns cfg \<longrightarrow> int (card (insert ?i (dom (sConns s)))) \<le> MaxConns cfg" using room by linarith
  then show ?thesis using assms fin unfolding srv_inv_def s by (auto simp: add.commute)
qed

lemma conn_update_inv:
  assumes "srv_inv cfg s" and "sConns s i = Some c" and "conn_step cfg c c'"
  shows "srv_inv cfg (s\<lparr>sConns := (sConns s)(i \<mapsto> c')\<rparr>)"
proof -
  obtain bs where "(conn_step cfg)\<^sup>*\<^sup>* (new_conn bs) c" using srv_inv_conn [OF assms(1,2)] ..
  then have "(conn_step cfg)\<^sup>*\<^sup>* (new_conn bs) c'" using assms(3) by (rule rtranclp.rtrancl_into_rtrancl)
  moreover have "insert i (dom (sConns s)) = dom (sConns s)" using assms(2) by auto
  ultimately show ?thesis using assms(1) by (auto simp: srv_inv_def)
qed

lemma srv_step_inv:
  assumes "srv_step cfg s s'" and "srv_inv cfg s"
  shows "srv_inv cfg s'"
  using assms
proof (induction rule: srv_step.induct)
  case (connect s bs)
  then show ?case by (auto intro: serveConn_inv)
next
  case (conn s i c c')
  then show ?case using conn_update_inv by simp
next
  case (closed_read s i c)
  then show ?case using conn_update_inv [of cfg s i c "stopReading c"] conn_step.gone by (simp add: readClosed_def)
next
  case (ended s i c)
  have "card (dom (sConns s) - {i}) \<le> card (dom (sConns s))" using ended(3) by (simp add: srv_inv_def card_Diff1_le)
  then show ?case using ended by (auto simp: srv_inv_def endConn_def)
qed (auto simp: srv_inv_def ListenTCP_def serveError_def CloseServer_def)

lemma srv_run_inv:
  assumes "(srv_step cfg)\<^sup>*\<^sup>* new_server s"
  shows "srv_inv cfg s"
  using assms
proof (induction rule: rtranclp_induct)
  case base
  then show ?case by (simp add: srv_inv_def new_server_def)
next
  case (step s s')
  then show ?case using srv_step_inv by blast
qed

lemma distinct_ids:
  assumes "n < 2 ^ 64"
  shows "distinct (map (\<lambda>k. word_of_nat (k + 1) :: u64) [0..<n])"
proof -
  have "inj_on (\<lambda>k. word_of_nat (k + 1) :: u64) {0..<n}"
  proof (rule inj_onI)
    fix j k assume jk: "j \<in> {0..<n}" "k \<in> {0..<n}" "(word_of_nat (j + 1) :: u64) = word_of_nat (k + 1)"
    then have "unat (word_of_nat (j + 1) :: u64) = unat (word_of_nat (k + 1) :: u64)" by (simp only:)
    moreover have "j + 1 < 2 ^ 64" "k + 1 < 2 ^ 64" using jk assms by (auto simp: Suc_le_eq) 
    then have "unat (word_of_nat (j + 1) :: u64) = j + 1" "unat (word_of_nat (k + 1) :: u64) = k + 1"
      by (simp_all only: unat_of_nat take_bit_nat_eq_self_iff) simp_all
    ultimately show "j = k" by linarith
  qed
  then show ?thesis by (simp add: distinct_map)
qed

section \<open>Properties of the server\<close>

text \<open>
  C30: However connections come, send, break and end, the server never serves more than the
  configured number at once, gives no two connections the same number (before \<open>2 ^ 64\<close> of
  them), and each connection is served as if it were alone: what happens on it is a run of its
  own reader, handlers and writer, whatever the others do.
\<close>

theorem connections_bounded:
  assumes "(srv_step cfg)\<^sup>*\<^sup>* new_server s"
  shows "(0 < MaxConns cfg \<longrightarrow> int (card (dom (sConns s))) \<le> MaxConns cfg) \<and>
    (length (sAccepted s) < 2 ^ 64 \<longrightarrow> distinct (sAccepted s)) \<and> dom (sConns s) \<subseteq> set (sAccepted s) \<and>
    (\<forall>i c. sConns s i = Some c \<longrightarrow> (\<exists>bs. (conn_step cfg)\<^sup>*\<^sup>* (new_conn bs) c))"
proof -
  have inv: "srv_inv cfg s" by (rule srv_run_inv [OF assms])
  then have "sAccepted s = map (\<lambda>k. word_of_nat (k + 1)) [0..<length (sAccepted s)]" by (simp add: srv_inv_def)
  then have "length (sAccepted s) < 2 ^ 64 \<longrightarrow> distinct (sAccepted s)" by (metis distinct_ids)
  then show ?thesis using inv unfolding srv_inv_def by blast
qed

text \<open>Closing: no connection is admitted afterwards, and the loop can end only after a cancellation.\<close>

lemma closed_admits_none:
  assumes "srv_step cfg s s'" and "\<not> sListening s" and "sServing s"
  shows "sAccepted s' = sAccepted s \<and> \<not> sListening s' \<and> (sServing s' \<or> sCancelled s)"
  using assms by (induction rule: srv_step.induct) (auto simp: ListenTCP_def serveError_def endConn_def CloseServer_def readClosed_def)

definition one_conn :: ServerConfig where
  "one_conn = NewServer \<lparr>Listen = [], ReadTimeout = 0, MaxInflight = 0, MaxConns = 1\<rparr>"

theorem connections_bounded_witness:
  "\<exists>s. (srv_step one_conn)\<^sup>*\<^sup>* new_server s \<and> sAccepted s = [1] \<and> card (dom (sConns s)) = 1"
proof -
  define s1 where "s1 = new_server\<lparr>sListening := True\<rparr>"
  define s2 where "s2 = s1\<lparr>sServing := True\<rparr>"
  define s3 where "s3 = serveConn one_conn [] s2"
  define s4 where "s4 = serveConn one_conn [] s3"
  have "srv_step one_conn new_server s1"
    by (rule srv_step.listen) (simp_all add: ListenTCP_def s1_def new_server_def)
  moreover have "srv_step one_conn s1 s2" unfolding s2_def by (rule srv_step.serve) (simp add: s1_def)
  moreover have "srv_step one_conn s2 s3" unfolding s3_def by (rule srv_step.connect) (simp_all add: s2_def s1_def)
  moreover have s3: "sServing s3" "sListening s3" "sAccepted s3 = [1]" "sConns s3 = [1 \<mapsto> new_conn []]"
    by (simp_all add: s3_def s2_def s1_def new_server_def serveConn_def acceptConn_def one_conn_def NewServer_def countConns_def)
  then have "srv_step one_conn s3 s4" unfolding s4_def by (intro srv_step.connect)
  ultimately have run: "(srv_step one_conn)\<^sup>*\<^sup>* new_server s4"
    by (intro rtranclp.rtrancl_into_rtrancl [OF rtranclp.rtrancl_into_rtrancl [OF rtranclp.rtrancl_into_rtrancl [OF r_into_rtranclp]]])
  moreover have "s4 = s3" using s3 by (simp add: s4_def serveConn_def acceptConn_def one_conn_def NewServer_def countConns_def)
  moreover have "int (card (dom (sConns s4))) \<le> 1" using connections_bounded [OF run] by (simp add: one_conn_def NewServer_def)
  ultimately show ?thesis using s3 by (intro exI [of _ s4]) simp
qed

end
