(* ===== verification/Wal_Names.thy ===== *)
theory Wal_Names
  imports Wal Go_Float "HOL-Library.Multiset"
begin

text \<open>
  The names in a WAL directory, \<^verbatim>\<open>src/internal/wal/wal.go\<close>: the file of a segment and
  the number read back from a name, the numbers a listing of the directory gives, and the reading
  accessors of the WAL. A listing of the directory is an argument.
\<close>

section \<open>Segment files\<close>

text \<open>\<^verbatim>\<open>%06d\<close>.\<close>

definition fmt06 :: "int \<Rightarrow> bytes" where
  "fmt06 i = (if i < 0 then 45 # pad 5 (dec_digits (nat (- i))) else pad 6 (dec_digits (nat i)))"

definition segName :: "int \<Rightarrow> bytes" where
  "segName idx = str ''seg-'' @ fmt06 idx @ str ''.log''"

definition parseSegIdx :: "bytes \<Rightarrow> int option" where
  "parseSegIdx name =
     (if \<not> has_prefix (str ''seg-'') name \<or> \<not> has_suffix (str ''.log'') name then None
      else ParseInt (let t = drop 4 name in if has_suffix (str ''.log'') t then take (length t - 4) t else t))"

record dir_entry =
  entName :: bytes
  entIsDir :: bool
  entSize :: "int option"

text \<open>The segments of a listing, as \<^verbatim>\<open>scanSegments\<close> finds them, in order.\<close>

definition segIndexes :: "dir_entry list \<Rightarrow> int list" where
  "segIndexes es = sort (remdups (List.map_filter (\<lambda>e. if entIsDir e then None else parseSegIdx (entName e)) es))"

section \<open>Accessors\<close>

definition walNextSeq :: "wal \<Rightarrow> u64" where
  "walNextSeq w = NextSeq (cp w)"

fun usage_loop :: "int \<Rightarrow> dir_entry list \<Rightarrow> int" where
  "usage_loop n [] = n"
| "usage_loop n (e # es) =
     (if entIsDir e then usage_loop n es
      else usage_loop (case entSize e of None \<Rightarrow> n | Some k \<Rightarrow> wrap64 (n + k)) es)"

text \<open>\<^verbatim>\<open>None\<close> is a directory that cannot be read; a file without a size is one whose
  information cannot be read.\<close>

definition DiskUsage :: "dir_entry list option \<Rightarrow> int" where
  "DiskUsage listing = (case listing of None \<Rightarrow> 0 | Some es \<Rightarrow> usage_loop 0 es)"

section \<open>Names are read back\<close>

lemma pad_parts: "list_all is_digit (pad w (dec_digits n))" "pad w (dec_digits n) \<noteq> []" "digits_val (pad w (dec_digits n)) = int n"
proof -
  have z: "is_digit 48" by (simp add: is_digit_def)
  show "list_all is_digit (pad w (dec_digits n))" using dec_digits_digits [of n] z by (auto simp: pad_def list_all_iff)
  show "pad w (dec_digits n) \<noteq> []" using dec_digits_digits [of n] by (simp add: pad_def)
  show "digits_val (pad w (dec_digits n)) = int n" by (simp add: pad_def digits_val_concat digits_val_dec)
qed

lemma ParseInt_fmt06:
  assumes "in_i64 i"
  shows "ParseInt (fmt06 i) = Some i"
proof (cases "i < 0")
  case True
  then show ?thesis using assms pad_parts [of 5 "nat (- i)"] by (simp add: ParseInt_def fmt06_def Let_def)
next
  case False
  note P = pad_parts [of 6 "nat i"]
  have "hd (pad 6 (dec_digits (nat i))) \<noteq> 45 \<and> hd (pad 6 (dec_digits (nat i))) \<noteq> 43"
    using P(1,2) digit_not_sign by (cases "pad 6 (dec_digits (nat i))") auto
  then show ?thesis using False assms P by (simp add: ParseInt_def fmt06_def Let_def)
qed

lemma parse_segName:
  assumes "in_i64 i"
  shows "parseSegIdx (segName i) = Some i"
proof -
  have "has_prefix (str ''seg-'') (segName i)" by (simp add: segName_def has_prefix_def str_def)
  moreover have "has_suffix (str ''.log'') (segName i)" "has_suffix (str ''.log'') (fmt06 i @ str ''.log'')"
    by (simp_all add: segName_def has_suffix_def str_def)
  moreover have "drop 4 (segName i) = fmt06 i @ str ''.log''" "length (str ''.log'') = 4" by (simp_all add: segName_def str_def)
  ultimately show ?thesis using ParseInt_fmt06 [OF assms] by (simp add: parseSegIdx_def Let_def)
qed

text \<open>The other names the WAL gives in its directory.\<close>

definition other_names :: "bytes list" where
  "other_names = [str ''checkpoint'', str ''checkpoint.tmp'', str ''.lock'']"

text \<open>
  C38: Segment files are found again: the listing of a directory that holds the files of some
  segments, whatever their number of digits, the other files of the WAL, and any directories, gives
  exactly the numbers of these segments, each once and in increasing order.
\<close>

theorem segments_found:
  assumes "\<forall>i\<in>set is. in_i64 i" and "distinct is"
    and "mset (map entName (filter (\<lambda>e. \<not> entIsDir e) es)) = mset (map segName is) + mset others" and "set others \<subseteq> set other_names"
  shows "segIndexes es = sort is"
proof -
  let ?f = "\<lambda>e. if entIsDir e then None else parseSegIdx (entName e)"
  have o: "parseSegIdx n = None" if "n \<in> set others" for n
    using that assms(4) by (auto simp: other_names_def parseSegIdx_def has_prefix_def has_suffix_def str_def)
  have e: "List.map_filter ?f es = List.map_filter parseSegIdx (map entName (filter (\<lambda>e. \<not> entIsDir e) es))"
    by (induction es) (auto simp: map_filter_simps split: option.split)
  have mf: "mset (List.map_filter g xs) = image_mset (the \<circ> g) (filter_mset (\<lambda>x. g x \<noteq> None) (mset xs))" for g :: "bytes \<Rightarrow> int option" and xs
    by (simp add: List.map_filter_def mset_filter)
  have i: "parseSegIdx (segName i) = Some i" if "i \<in> set is" for i using parse_segName assms(1) that by blast
  have "mset (List.map_filter ?f es) = image_mset (the \<circ> parseSegIdx) (filter_mset (\<lambda>x. parseSegIdx x \<noteq> None) (mset (map segName is) + mset others))"
    unfolding e mf assms(3) ..
  also have "\<dots> = mset is"
  proof -
    have "filter_mset (\<lambda>x. parseSegIdx x \<noteq> None) (mset others) = {#}" using o by (auto simp: multiset_eq_iff not_in_iff)
    moreover have "filter (\<lambda>x. parseSegIdx x \<noteq> None) (map segName is) = map segName is"
      using i by (intro filter_True) auto
    then have "filter_mset (\<lambda>x. parseSegIdx x \<noteq> None) (mset (map segName is)) = mset (map segName is)"
      by (metis mset_filter)
    moreover have "map (the \<circ> parseSegIdx) (map segName is) = is" using i by (simp add: map_idI)
    then have "image_mset (the \<circ> parseSegIdx) (mset (map segName is)) = mset is" by (metis mset_map)
    ultimately show ?thesis by (simp only: filter_union_mset image_mset_union image_mset_empty add_0_right)
  qed
  finally have m: "mset (List.map_filter ?f es) = mset is" .
  then have "distinct (List.map_filter ?f es)" using assms(2) by (metis mset_eq_imp_distinct_iff)
  then show ?thesis unfolding segIndexes_def using m by (simp add: distinct_remdups_id) (metis mset_sort properties_for_sort sorted_sort)
qed

theorem segments_found_witness:
  "segIndexes [\<lparr>entName = segName 1000000, entIsDir = False, entSize = Some 9\<rparr>,
     \<lparr>entName = str ''checkpoint'', entIsDir = False, entSize = Some 80\<rparr>,
     \<lparr>entName = segName 5, entIsDir = True, entSize = None\<rparr>,
     \<lparr>entName = segName 999999, entIsDir = False, entSize = Some 40\<rparr>] = [999999, 1000000]"
  by (subst segments_found [of "[1000000, 999999]" _ "[str ''checkpoint'']"]) (auto simp: in_i64_def other_names_def)

end
