(* ===== verification/Receiver_Safety.thy ===== *)
theory Receiver_Safety
  imports Receiver "HOL-Library.Multiset"
begin

text \<open>
  What the receiver guarantees. The tracker advances over completed frames only; the window of
  recent frames is bounded and holds exactly what was handled; every positive acknowledgement
  stands for a frame that is in the database or in the dead letters; and all this holds for any
  interleaving of handlers on any number of connections.
\<close>

section \<open>The tracker\<close>

definition tracker_inv :: "seqTracker \<Rightarrow> bool" where
  "tracker_inv t \<longleftrightarrow> distinct (tPending t) \<and> (\<forall>s\<in>set (tPending t). tLast t < s)"

lemma less_succ_or: "l < s \<Longrightarrow> s \<noteq> l + 1 \<Longrightarrow> l + 1 < s" for l s :: u64
  using inc_le [of l s] by (simp add: order_less_le)

lemma advance_result:
  assumes "advance l p a = (a', t')" and "distinct p" and "\<forall>s\<in>set p. l < s"
  shows "distinct (tPending t') \<and> l \<le> tLast t' \<and> (\<forall>s. l < s \<and> s \<le> tLast t' \<longrightarrow> s \<in> set p) \<and>
    set (tPending t') = {s \<in> set p. tLast t' < s} \<and> tLast t' + 1 \<notin> set p \<and> a' = (a \<or> l < tLast t')"
  using assms
proof (induction l p a rule: advance.induct)
  case (1 l p a)
  show ?case
  proof (cases "l + 1 \<in> set p")
    case False
    with "1.prems" have "a' = a" "t' = \<lparr>tLast = l, tPending = p\<rparr>" by (auto simp: advance.simps [of l p a])
    with False "1.prems" show ?thesis by auto
  next
    case True
    have lt: "l < l + 1" using True "1.prems"(3) by blast
    have eq: "advance (l + 1) (removeAll (l + 1) p) True = (a', t')"
      using "1.prems"(1) True by (simp add: advance.simps [of l p a])
    have "\<forall>s\<in>set (removeAll (l + 1) p). l + 1 < s" using "1.prems"(3) less_succ_or by auto
    note I = "1.IH" [OF True eq distinct_removeAll [OF "1.prems"(2)] this]
    have IH: "distinct (tPending t')" "l + 1 \<le> tLast t'"
      "\<forall>s. l + 1 < s \<and> s \<le> tLast t' \<longrightarrow> s \<in> set p"
      "set (tPending t') = {s \<in> set p - {l + 1}. tLast t' < s}"
      "tLast t' + 1 \<notin> set p - {l + 1}" "a'"
      using I unfolding set_removeAll by blast+
    have "s \<in> set p" if "l < s" "s \<le> tLast t'" for s
      using IH(3) True less_succ_or [OF that(1)] that(2) by (cases "s = l + 1") simp_all
    moreover have "set (tPending t') = {s \<in> set p. tLast t' < s}"
    proof -
      have "\<not> tLast t' < l + 1" using IH(2) by (simp only: not_less)
      then show ?thesis unfolding IH(4) by auto
    qed
    moreover have gt: "l < tLast t'" using lt IH(2) by (rule order.strict_trans2)
    moreover have "tLast t' + 1 \<notin> set p" using IH(5) gt by auto
    ultimately show ?thesis using IH(1,6) by auto
  qed
qed

text \<open>Below the jump limit, the prefix advances over completed frames only, and as far as it can.\<close>

lemma trackerDone_near:
  assumes "tracker_inv t" and "tLast t < seq" and "seq \<le> tLast t + seqJumpLimit" and "trackerDone seq t = (adv, t')"
  shows "tracker_inv t' \<and> tLast t \<le> tLast t' \<and> adv = (tLast t < tLast t') \<and>
    (\<forall>s. tLast t < s \<and> s \<le> tLast t' \<longrightarrow> s = seq \<or> s \<in> set (tPending t)) \<and>
    tLast t' + 1 \<notin> insert seq (set (tPending t)) \<and>
    set (tPending t') \<subseteq> {s \<in> insert seq (set (tPending t)). tLast t' < s} \<and>
    (length (tPending t) < seqPendingLimit \<longrightarrow> set (tPending t') = {s \<in> insert seq (set (tPending t)). tLast t' < s})"
proof -
  let ?p = "List.insert seq (tPending t)"
  obtain a u where au: "advance (tLast t) ?p False = (a, u)" by fastforce
  have p: "distinct ?p" "\<forall>s\<in>set ?p. tLast t < s" using assms(1,2) by (auto simp: tracker_inv_def)
  note R = advance_result [OF au p]
  have n: "\<not> seq \<le> tLast t" "\<not> tLast t + seqJumpLimit < seq" using assms(2,3) by (simp_all add: not_le not_less)
  have t': "t' = (if length (tPending u) > seqPendingLimit then u\<lparr>tPending := []\<rparr> else u)" and "adv = a"
    using assms(4) au n by (auto simp: trackerDone_def)
  have "length (tPending u) = card (set (tPending u))" using R by (intro distinct_card [symmetric]) blast
  also have "\<dots> \<le> card (set ?p)" using R by (intro card_mono) auto
  also have "\<dots> \<le> length ?p" by (rule card_length)
  also have "\<dots> \<le> Suc (length (tPending t))" by (simp add: List.insert_def)
  finally have "length (tPending u) \<le> Suc (length (tPending t))" .
  then show ?thesis using R t' \<open>adv = a\<close> by (auto simp: tracker_inv_def)
qed

lemma trackerDone_result:
  assumes "tracker_inv t" and "trackerDone seq t = (adv, t')"
  shows "tracker_inv t' \<and> tLast t \<le> tLast t' \<and> adv = (tLast t < tLast t')"
proof -
  consider (old) "seq \<le> tLast t" | (jump) "\<not> seq \<le> tLast t" "seq > tLast t + seqJumpLimit"
    | (near) "tLast t < seq" "seq \<le> tLast t + seqJumpLimit" by force
  then show ?thesis
  proof cases
    case old
    then show ?thesis using assms by (auto simp: trackerDone_def)
  next
    case jump
    then show ?thesis using assms(2) by (auto simp: trackerDone_def tracker_inv_def)
  next
    case near
    then show ?thesis using trackerDone_near [OF assms(1) near assms(2)] by blast
  qed
qed

lemma closeGap_inv:
  assumes "tracker_inv t"
  shows "tLast (closeGap u t) = max (tLast t) u"
    and "tracker_inv (closeGap u t)"
  using assms by (auto simp: closeGap_def tracker_inv_def Let_def max_def)

text \<open>The tracker over a sequence of completions.\<close>

definition trackAll :: "u64 list \<Rightarrow> seqTracker \<Rightarrow> seqTracker" where
  "trackAll seqs t = foldl (\<lambda>t s. snd (trackerDone s t)) t seqs"

definition tracks :: "u64 \<Rightarrow> u64 set \<Rightarrow> seqTracker \<Rightarrow> bool" where
  "tracks v D t \<longleftrightarrow> tracker_inv t \<and> v \<le> tLast t \<and> (\<forall>s. v < s \<and> s \<le> tLast t \<longrightarrow> s \<in> D) \<and>
     set (tPending t) = {s \<in> D. tLast t < s} \<and> tLast t + 1 \<notin> D"

lemma near_arith:
  fixes v l s :: u64
  assumes "unat v + 200000 < 2 ^ 64" and "l \<le> v + seqJumpLimit" and "v \<le> l"
  shows "l < l + 1" and "s \<le> v + seqJumpLimit \<Longrightarrow> s \<le> l + seqJumpLimit"
proof -
  have v: "unat (v + seqJumpLimit) = unat v + 100000" using assms(1) by (simp add: seqJumpLimit_def unat_word_ariths)
  then have l: "unat l \<le> unat v + 100000" "unat v \<le> unat l" using assms(2,3) by (simp_all add: word_le_nat_alt)
  then have "unat (l + 1) = unat l + 1" and jl: "unat (l + seqJumpLimit) = unat l + 100000"
    using assms(1) by (simp_all add: unat_word_ariths seqJumpLimit_def)
  then show "l < l + 1" by (simp add: word_less_nat_alt)
  show "s \<le> l + seqJumpLimit" if "s \<le> v + seqJumpLimit" using that v jl l by (simp add: word_le_nat_alt)
qed

lemma tracks_step:
  assumes t: "tracks v D t" and v: "unat v + 200000 < 2 ^ 64" and D: "\<forall>s\<in>insert seq D. s \<le> v + seqJumpLimit"
    and len: "length (tPending t) < seqPendingLimit"
  shows "tracks v (insert seq D) (snd (trackerDone seq t))"
proof -
  obtain adv t' where eq: "trackerDone seq t = (adv, t')" by fastforce
  have inv: "tracker_inv t" and vl: "v \<le> tLast t" using t by (auto simp: tracks_def)
  have "v \<le> v + seqJumpLimit" using v by (simp add: word_le_nat_alt seqJumpLimit_def unat_word_ariths)
  then have "tLast t \<le> v + seqJumpLimit" using t D vl by (cases "v = tLast t") (auto simp: tracks_def)
  note A = near_arith [OF v this vl]
  show ?thesis
  proof (cases "seq \<le> tLast t")
    case True
    then have "t' = t" using eq by (auto simp: trackerDone_def)
    then show ?thesis using t eq True A(1) by (auto simp: tracks_def)
  next
    case False
    then have lt: "tLast t < seq" by (simp add: not_le)
    have "seq \<le> tLast t + seqJumpLimit" using D A(2) by simp
    note R = trackerDone_near [OF inv lt this eq]
    have ge: "tLast t \<le> tLast t'" using R by blast
    have cov: "s \<in> insert seq D" if "v < s" "s \<le> tLast t'" for s
      using that R t by (cases "s \<le> tLast t") (auto simp: tracks_def not_le)
    have pend: "set (tPending t') = {s \<in> insert seq D. tLast t' < s}"
      using R len t ge by (auto simp: tracks_def)
    have "v \<le> tLast t'" using vl ge by (rule order.trans)
    moreover from this have "tLast t' \<le> v + seqJumpLimit"
      using cov [of "tLast t'"] D \<open>v \<le> v + seqJumpLimit\<close> by (cases "v = tLast t'") auto
    moreover have "tLast t' + 1 \<notin> insert seq D"
    proof
      assume m: "tLast t' + 1 \<in> insert seq D"
      have "tLast t < tLast t' + 1"
        using ge near_arith(1) [OF v \<open>tLast t' \<le> v + seqJumpLimit\<close> \<open>v \<le> tLast t'\<close>] by (rule order.strict_trans1)
      then have "tLast t' + 1 \<in> insert seq (set (tPending t))" using m t by (auto simp: tracks_def)
      then show False using R by blast
    qed
    ultimately show ?thesis using R cov pend eq by (simp add: tracks_def)
  qed
qed

lemma length_trackerDone:
  assumes "tracker_inv t"
  shows "length (tPending (snd (trackerDone seq t))) \<le> Suc (length (tPending t))"
proof -
  consider "seq \<le> tLast t" | "\<not> seq \<le> tLast t" "seq > tLast t + seqJumpLimit"
    | (near) "tLast t < seq" "seq \<le> tLast t + seqJumpLimit" by force
  then show ?thesis
  proof cases
    case near
    obtain adv t' where eq: "trackerDone seq t = (adv, t')" by fastforce
    have "distinct (tPending t')" and sub: "set (tPending t') \<subseteq> insert seq (set (tPending t))"
      using trackerDone_near [OF assms near eq] by (auto simp: tracker_inv_def)
    then have "length (tPending t') = card (set (tPending t'))" by (simp add: distinct_card)
    also have "\<dots> \<le> card (insert seq (set (tPending t)))" using sub by (simp add: card_mono)
    also have "\<dots> \<le> Suc (length (tPending t))"
      using card_insert_le_m1 card_length [of "tPending t"] by (metis Suc_le_mono card_insert_disjoint card_insert_if finite_set le_SucI)
    finally show ?thesis using eq by simp
  qed (simp_all add: trackerDone_def)
qed

lemma trackAll_tracks:
  assumes "unat v + 200000 < 2 ^ 64" and "\<forall>s\<in>set seqs. s \<le> v + seqJumpLimit" and "length seqs \<le> seqPendingLimit"
  shows "tracks v (set seqs) (trackAll seqs (trackerInit v t0)) \<and>
    length (tPending (trackAll seqs (trackerInit v t0))) \<le> length seqs"
  using assms(2,3)
proof (induction seqs rule: rev_induct)
  case Nil
  show ?case by (auto simp: trackAll_def trackerInit_def tracks_def tracker_inv_def dest: leD)
next
  case (snoc s seqs)
  let ?t = "trackAll seqs (trackerInit v t0)"
  have IH: "tracks v (set seqs) ?t" "length (tPending ?t) \<le> length seqs" using snoc by auto
  have "tracks v (insert s (set seqs)) (snd (trackerDone s ?t))"
    using snoc.prems IH by (intro tracks_step [OF IH(1) assms(1)]) auto
  moreover have "length (tPending (snd (trackerDone s ?t))) \<le> Suc (length (tPending ?t))"
    using IH(1) by (intro length_trackerDone) (simp add: tracks_def)
  ultimately show ?case using IH(2) by (simp add: trackAll_def)
qed

section \<open>What each step leaves alone\<close>

lemma saveLastSeq_frame [simp]:
  "lastSeq (saveLastSeq e q r) = lastSeq r" "seqOrd (saveLastSeq e q r) = seqOrd r"
  "inflightSeq (saveLastSeq e q r) = inflightSeq r" "dedupSeq (saveLastSeq e q r) = dedupSeq r"
  "dedupCRC (saveLastSeq e q r) = dedupCRC r" "stored (saveLastSeq e q r) = stored r"
  "dlqDir (saveLastSeq e q r) = dlqDir r" "relayWAL (saveLastSeq e q r) = relayWAL r"
  by (simp_all add: saveLastSeq_def split: option.split)

lemma advanceSeq_frame [simp]:
  "lastSeq (advanceSeq cfg e q r) = max (lastSeq r) (sint q)" "seqOrd (advanceSeq cfg e q r) = seqOrd r"
  "inflightSeq (advanceSeq cfg e q r) = inflightSeq r" "dedupSeq (advanceSeq cfg e q r) = dedupSeq r"
  "dedupCRC (advanceSeq cfg e q r) = dedupCRC r" "stored (advanceSeq cfg e q r) = stored r"
  "dlqDir (advanceSeq cfg e q r) = dlqDir r" "relayWAL (advanceSeq cfg e q r) = relayWAL r"
  by (simp_all add: advanceSeq_def Let_def)

lemma markDone_frame [simp]:
  "inflightSeq (markDone cfg e q r) = inflightSeq r" "dedupSeq (markDone cfg e q r) = dedupSeq r"
  "dedupCRC (markDone cfg e q r) = dedupCRC r" "stored (markDone cfg e q r) = stored r"
  "dlqDir (markDone cfg e q r) = dlqDir r" "relayWAL (markDone cfg e q r) = relayWAL r"
  "seqOrd (markDone cfg e q r) = snd (trackerDone q (seqOrd r))"
  by (simp_all add: markDone_def Let_def split: prod.split)

lemma dedupRecord_frame [simp]:
  "lastSeq (dedupRecord s c r) = lastSeq r" "seqOrd (dedupRecord s c r) = seqOrd r"
  "inflightSeq (dedupRecord s c r) = inflightSeq r" "stored (dedupRecord s c r) = stored r"
  "dlqDir (dedupRecord s c r) = dlqDir r" "relayWAL (dedupRecord s c r) = relayWAL r"
  by (simp_all add: dedupRecord_def Let_def)

lemma relayForward_frame [simp]:
  "lastSeq (relayForward cd cfg e f raw r) = lastSeq r" "seqOrd (relayForward cd cfg e f raw r) = seqOrd r"
  "inflightSeq (relayForward cd cfg e f raw r) = inflightSeq r"
  "dedupSeq (relayForward cd cfg e f raw r) = dedupSeq r" "dedupCRC (relayForward cd cfg e f raw r) = dedupCRC r"
  "stored (relayForward cd cfg e f raw r) = stored r" "dlqDir (relayForward cd cfg e f raw r) = dlqDir r"
  by (simp_all add: relayForward_def Let_def split: option.split prod.split sum.split)

lemma removeInflight_frame [simp]:
  "lastSeq (removeInflight s r) = lastSeq r" "seqOrd (removeInflight s r) = seqOrd r"
  "dedupSeq (removeInflight s r) = dedupSeq r" "dedupCRC (removeInflight s r) = dedupCRC r"
  "stored (removeInflight s r) = stored r" "dlqDir (removeInflight s r) = dlqDir r"
  by (simp_all add: removeInflight_def)

lemma addInflight_frame [simp]:
  "lastSeq (addInflight s r) = lastSeq r" "seqOrd (addInflight s r) = seqOrd r"
  "dedupSeq (addInflight s r) = dedupSeq r" "dedupCRC (addInflight s r) = dedupCRC r"
  "stored (addInflight s r) = stored r" "dlqDir (addInflight s r) = dlqDir r"
  by (simp_all add: addInflight_def)

lemma tryCloseGap_frame:
  assumes "tryCloseGap cfg e seq r = (b, r')"
  shows "inflightSeq r' = inflightSeq r" "dedupSeq r' = dedupSeq r" "dedupCRC r' = dedupCRC r"
    "stored r' = stored r" "dlqDir r' = dlqDir r" "lastSeq r \<le> lastSeq r'"
    "seqOrd r' = (if b then closeGap (seq - 1) (seqOrd r) else seqOrd r)"
  using assms by (auto simp: tryCloseGap_def Let_def split: if_splits)

lemma noteGap_frame:
  "inflightSeq (noteGap cfg e i seq r) = inflightSeq r" "dedupSeq (noteGap cfg e i seq r) = dedupSeq r"
  "dedupCRC (noteGap cfg e i seq r) = dedupCRC r" "stored (noteGap cfg e i seq r) = stored r"
  "dlqDir (noteGap cfg e i seq r) = dlqDir r" "lastSeq r \<le> lastSeq (noteGap cfg e i seq r)"
  "seqOrd (noteGap cfg e i seq r) \<in> {seqOrd r, closeGap (seq - 1) (seqOrd r)}"
proof -
  obtain b r1 where eq: "(if i = 0 then tryCloseGap cfg e seq r else (False, r)) = (b, r1)" by fastforce
  have "inflightSeq r1 = inflightSeq r \<and> dedupSeq r1 = dedupSeq r \<and> dedupCRC r1 = dedupCRC r \<and>
      stored r1 = stored r \<and> dlqDir r1 = dlqDir r \<and> lastSeq r \<le> lastSeq r1 \<and>
      seqOrd r1 \<in> {seqOrd r, closeGap (seq - 1) (seqOrd r)}"
    using eq tryCloseGap_frame [of cfg e seq r b r1] by (auto split: if_splits)
  then show "inflightSeq (noteGap cfg e i seq r) = inflightSeq r" "dedupSeq (noteGap cfg e i seq r) = dedupSeq r"
    "dedupCRC (noteGap cfg e i seq r) = dedupCRC r" "stored (noteGap cfg e i seq r) = stored r"
    "dlqDir (noteGap cfg e i seq r) = dlqDir r" "lastSeq r \<le> lastSeq (noteGap cfg e i seq r)"
    "seqOrd (noteGap cfg e i seq r) \<in> {seqOrd r, closeGap (seq - 1) (seqOrd r)}"
    by (simp_all add: noteGap_def Let_def eq markGapWarned_def split: bool.split)
qed

lemma lastSeq_markDone: "lastSeq r \<le> lastSeq (markDone cfg e q r)"
  by (simp add: markDone_def Let_def split: prod.split)

section \<open>The window of recent frames\<close>

definition dedup_inv :: "Receiver \<Rightarrow> bool" where
  "dedup_inv r \<longleftrightarrow> distinct (dedupSeq r) \<and> set (dedupSeq r) = dom (dedupCRC r) \<and>
     length (dedupSeq r) \<le> dedupWindowCap"

lemma dedupRecord_inv:
  assumes "dedup_inv r"
  shows "dedup_inv (dedupRecord seq crc r)" and "dedupCRC (dedupRecord seq crc r) seq = Some crc"
    and "\<forall>s c. dedupCRC (dedupRecord seq crc r) s = Some c \<longrightarrow> s = seq \<and> c = crc \<or> dedupCRC r s = Some c"
proof -
  let ?q = "dedupSeq r @ [seq]"
  show "dedupCRC (dedupRecord seq crc r) seq = Some crc" by (simp add: dedupRecord_def Let_def)
  show "\<forall>s c. dedupCRC (dedupRecord seq crc r) s = Some c \<longrightarrow> s = seq \<and> c = crc \<or> dedupCRC r s = Some c"
    by (auto simp: dedupRecord_def Let_def split: if_splits)
  show "dedup_inv (dedupRecord seq crc r)"
  proof (cases "dedupCRC r seq = None")
    case False
    then show ?thesis using assms by (auto simp: dedupRecord_def dedup_inv_def Let_def insert_absorb)
  next
    case new: True
    then have fresh: "seq \<notin> set (dedupSeq r)" using assms by (auto simp: dedup_inv_def)
    show ?thesis
    proof (cases "length ?q > dedupWindowCap")
      case False
      then show ?thesis using assms new fresh by (auto simp: dedupRecord_def dedup_inv_def Let_def)
    next
      case True
      then have "dedupSeq r \<noteq> []" by (auto simp: dedupWindowCap_def)
      then obtain x xs where xs: "dedupSeq r = x # xs" by (cases "dedupSeq r") auto
      have "dedupRecord seq crc r = r\<lparr>dedupSeq := xs @ [seq], dedupCRC := (dedupCRC r)(x := None, seq \<mapsto> crc)\<rparr>"
        using True new xs by (simp add: dedupRecord_def Let_def)
      moreover have "set xs = dom (dedupCRC r) - {x}" using assms xs by (auto simp: dedup_inv_def)
      ultimately show ?thesis using assms fresh xs by (auto simp: dedup_inv_def)
    qed
  qed
qed

section \<open>Acknowledged means landed\<close>

text \<open>A frame has landed when its content was accepted by the database or it is a dead letter.\<close>

definition landed :: "codec \<Rightarrow> Receiver \<Rightarrow> Frame \<Rightarrow> bool" where
  "landed cd r f \<longleftrightarrow> (\<exists>raw. Decompress cd f = Inr raw \<and> raw \<in> set (stored r)) \<or>
     (\<exists>m. (m, fPayload f) \<in> set (dlqDir r))"

lemma landed_mono:
  "landed cd r f \<Longrightarrow> set (stored r) \<subseteq> set (stored r') \<Longrightarrow> set (dlqDir r) \<subseteq> set (dlqDir r') \<Longrightarrow> landed cd r' f"
  by (auto simp: landed_def)

definition recv_inv :: "codec \<Rightarrow> Receiver \<Rightarrow> bool" where
  "recv_inv cd r \<longleftrightarrow> tracker_inv (seqOrd r) \<and> dedup_inv r \<and>
     (\<forall>s c. dedupCRC r s = Some c \<longrightarrow> (\<exists>g. fSeq g = s \<and> fCRC g = c \<and> landed cd r g))"

lemma recv_inv_eqI:
  assumes "recv_inv cd r" and "dedupSeq r' = dedupSeq r" and "dedupCRC r' = dedupCRC r"
    and "set (stored r) \<subseteq> set (stored r')" and "set (dlqDir r) \<subseteq> set (dlqDir r')" and "tracker_inv (seqOrd r')"
  shows "recv_inv cd r'"
  using assms landed_mono [OF _ assms(4,5)] by (fastforce simp: recv_inv_def dedup_inv_def)

lemma tracker_inv_done: "tracker_inv t \<Longrightarrow> tracker_inv (snd (trackerDone q t))"
  using trackerDone_result [of t q] by (metis prod.collapse)

lemma recv_inv_record:
  assumes "recv_inv cd r" and "landed cd r f"
  shows "recv_inv cd (dedupRecord (fSeq f) (fCRC f) r)"
proof -
  have d: "dedup_inv r" using assms(1) by (simp add: recv_inv_def)
  have "landed cd (dedupRecord (fSeq f) (fCRC f) r) g" if "landed cd r g" for g
    using landed_mono [OF that] by simp
  then have "\<exists>g. fSeq g = s \<and> fCRC g = c \<and> landed cd (dedupRecord (fSeq f) (fCRC f) r) g"
    if "dedupCRC (dedupRecord (fSeq f) (fCRC f) r) s = Some c" for s c
    using dedupRecord_inv(3) [OF d] that assms unfolding recv_inv_def by metis
  then show ?thesis
    using assms(1) dedupRecord_inv(1) [OF d] by (simp add: recv_inv_def)
qed

lemma recv_inv_done:
  assumes "recv_inv cd r" and "landed cd r f"
  shows "recv_inv cd (dedupRecord (fSeq f) (fCRC f) (markDone cfg e (fSeq f) r))"
proof (rule recv_inv_record)
  show "recv_inv cd (markDone cfg e (fSeq f) r)"
    using assms(1) tracker_inv_done by (intro recv_inv_eqI [OF assms(1)]) (auto simp: recv_inv_def)
  show "landed cd (markDone cfg e (fSeq f) r) f" using landed_mono [OF assms(2)] by simp
qed

text \<open>A completed import: nothing is forgotten, success means landed, failure changes nothing.\<close>

definition grows :: "Receiver \<Rightarrow> Receiver \<Rightarrow> bool" where
  "grows r r' \<longleftrightarrow> lastSeq r \<le> lastSeq r' \<and> set (stored r) \<subseteq> set (stored r') \<and>
     set (dlqDir r) \<subseteq> set (dlqDir r') \<and> inflightSeq r' = inflightSeq r"

lemma grows_done: "grows r r' \<Longrightarrow> grows r (dedupRecord s c (markDone cfg e s r'))"
  using lastSeq_markDone [of r' cfg e s] by (auto simp: grows_def)

lemma importFrame_result:
  assumes inv: "recv_inv cd r" and raw: "Decompress cd f = Inr raw" and eq: "importFrame cd cfg e f raw r = (ack, r')"
  shows "(ack = AckFail \<and> r' = r) \<or> (ack = AckSuccess \<and> recv_inv cd r' \<and> landed cd r' f \<and> grows r r' \<and>
    seqOrd r' = snd (trackerDone (fSeq f) (seqOrd r)))"
proof (cases "ImportWrite (eImport e) raw")
  case None
  let ?r1 = "relayForward cd cfg e f raw (r\<lparr>stored := stored r @ [raw]\<rparr>)"
  let ?r2 = "dedupRecord (fSeq f) (fCRC f) (markDone cfg e (fSeq f) ?r1)"
  have l1: "landed cd ?r1 f" using raw by (simp add: landed_def)
  have i1: "recv_inv cd ?r1" using inv by (intro recv_inv_eqI [OF inv]) (auto simp: recv_inv_def)
  have i2: "recv_inv cd ?r2" by (rule recv_inv_done [OF i1 l1])
  have l2: "landed cd ?r2 f" by (rule landed_mono [OF l1]) simp_all
  have g2: "grows r ?r2" by (rule grows_done) (auto simp: grows_def)
  have "recv_inv cd (?r2\<lparr>writeTs := ts\<rparr>)" for ts
    using i2 by (intro recv_inv_eqI [OF i2]) (auto simp: recv_inv_def)
  moreover have "landed cd (?r2\<lparr>writeTs := ts\<rparr>) f" for ts using l2 by (simp add: landed_def)
  moreover have "grows r (?r2\<lparr>writeTs := ts\<rparr>)" for ts using g2 by (simp add: grows_def)
  ultimately show ?thesis
    using eq None i2 l2 g2
    by (cases "cLastWriteTs cfg \<and> 0 < LastSampleTimestamp raw") (auto simp: importFrame_def Let_def)
next
  case (Some err)
  obtain p st cat where c: "classifyWriteError err = (p, st, cat)" by (cases "classifyWriteError err") auto
  let ?m = "dlqMeta (fSeq f) cat st (import_err_text err) ''Zone_I'' raw"
  let ?r1 = "r\<lparr>dlqDir := dlqDir r @ [(?m, fPayload f)]\<rparr>"
  have l1: "landed cd ?r1 f" by (auto simp: landed_def)
  have i1: "recv_inv cd ?r1" using inv by (intro recv_inv_eqI [OF inv]) (auto simp: recv_inv_def)
  have "landed cd (dedupRecord (fSeq f) (fCRC f) (markDone cfg e (fSeq f) ?r1)) f"
    by (rule landed_mono [OF l1]) simp_all
  moreover have "grows r (dedupRecord (fSeq f) (fCRC f) (markDone cfg e (fSeq f) ?r1))"
    by (rule grows_done) (auto simp: grows_def)
  ultimately show ?thesis
    using eq Some c recv_inv_done [OF i1 l1, of cfg e]
    by (auto simp: importFrame_def writeDLQJSON_def split: if_splits option.splits)
qed

lemma complete_result:
  assumes inv: "recv_inv cd r" and eq: "complete cd cfg e f r = (ack, r')"
  shows "(ack = AckFail \<and> r' = removeInflight (fSeq f) r) \<or>
    (ack = AckSuccess \<and> landed cd r' f \<and> seqOrd r' = snd (trackerDone (fSeq f) (seqOrd r)))"
    and "recv_inv cd r'" and "lastSeq r \<le> lastSeq r'" and "set (stored r) \<subseteq> set (stored r')"
    and "set (dlqDir r) \<subseteq> set (dlqDir r')" and "inflightSeq r' = inflightSeq (removeInflight (fSeq f) r)"
proof -
  have rm: "recv_inv cd (removeInflight q s)" if "recv_inv cd s" for q s
    using that by (intro recv_inv_eqI [OF that]) (auto simp: recv_inv_def)
  have land: "landed cd (removeInflight q s) f" if "landed cd s f" for q s
    using landed_mono [OF that] by simp
  have infl: "inflightSeq (removeInflight q s) = inflightSeq (removeInflight q r)" if "inflightSeq s = inflightSeq r" for q s
    using that by (simp add: removeInflight_def split: option.split)
  consider (fail) "ack = AckFail" "r' = removeInflight (fSeq f) r"
    | (ok) r1 where "ack = AckSuccess" "r' = removeInflight (fSeq f) r1" "recv_inv cd r1" "landed cd r1 f"
        "grows r r1" "seqOrd r1 = snd (trackerDone (fSeq f) (seqOrd r))"
  proof (cases "Decompress cd f")
    case (Inl _)
    then show ?thesis using eq that(1) by (auto simp: complete_def)
  next
    case (Inr raw)
    show ?thesis
    proof (cases "TrimSpace raw = []")
      case True
      then show ?thesis using eq that(1) Inr by (simp add: complete_def)
    next
      case False
      obtain a r1 where im: "importFrame cd cfg e f raw r = (a, r1)" by fastforce
      have "ack = a" "r' = removeInflight (fSeq f) r1" using eq Inr False im by (simp_all add: complete_def)
      then show ?thesis using importFrame_result [OF inv Inr im] that by blast
    qed
  qed
  then have "((ack = AckFail \<and> r' = removeInflight (fSeq f) r) \<or>
      (ack = AckSuccess \<and> landed cd r' f \<and> seqOrd r' = snd (trackerDone (fSeq f) (seqOrd r)))) \<and>
    recv_inv cd r' \<and> lastSeq r \<le> lastSeq r' \<and> set (stored r) \<subseteq> set (stored r') \<and>
    set (dlqDir r) \<subseteq> set (dlqDir r') \<and> inflightSeq r' = inflightSeq (removeInflight (fSeq f) r)"
  proof cases
    case fail
    then show ?thesis using rm [OF inv] by simp
  next
    case ok
    then show ?thesis using rm [OF ok(3)] land [OF ok(4)] infl [of r1 "fSeq f"] by (simp add: grows_def)
  qed
  then show "(ack = AckFail \<and> r' = removeInflight (fSeq f) r) \<or>
      (ack = AckSuccess \<and> landed cd r' f \<and> seqOrd r' = snd (trackerDone (fSeq f) (seqOrd r)))"
    and "recv_inv cd r'" and "lastSeq r \<le> lastSeq r'" and "set (stored r) \<subseteq> set (stored r')"
    and "set (dlqDir r) \<subseteq> set (dlqDir r')" and "inflightSeq r' = inflightSeq (removeInflight (fSeq f) r)"
    by blast+
qed

lemma admit_reply:
  assumes "recv_inv cd r" and "admit cfg e i fb r = (Reply a, r')"
  shows "r' = r" and "a = AckSuccess \<Longrightarrow> \<exists>f. Decode fb = Inr f \<and>
    (IsHeartbeat f \<or> (\<exists>g. fSeq g = fSeq f \<and> fCRC g = fCRC f \<and> landed cd r g))"
  using assms by (auto simp: admit_def dedupHit_def recv_inv_def split: sum.splits if_splits option.splits)

lemma admit_proceed:
  assumes inv: "recv_inv cd r" and eq: "admit cfg e i fb r = (Proceed f, r')"
  shows "Decode fb = Inr f" and "\<not> IsHeartbeat f" and "recv_inv cd r'" and "lastSeq r \<le> lastSeq r'"
    and "stored r' = stored r" and "dlqDir r' = dlqDir r" and "inflightSeq r' = inflightSeq (addInflight (fSeq f) r)"
    and "seqOrd r' \<in> {seqOrd r, closeGap (fSeq f - 1) (seqOrd r)}"
proof -
  have d: "Decode fb = Inr f" "\<not> IsHeartbeat f" "r' = noteGap cfg e i (fSeq f) (addInflight (fSeq f) r)"
    using eq by (auto simp: admit_def split: sum.splits if_splits)
  note F = noteGap_frame [where cfg = cfg and e = e and i = i and seq = "fSeq f" and r = "addInflight (fSeq f) r"]
  show "Decode fb = Inr f" "\<not> IsHeartbeat f" by (rule d)+
  show "lastSeq r \<le> lastSeq r'" "stored r' = stored r" "dlqDir r' = dlqDir r"
    "inflightSeq r' = inflightSeq (addInflight (fSeq f) r)" using F d(3) by simp_all
  show so: "seqOrd r' \<in> {seqOrd r, closeGap (fSeq f - 1) (seqOrd r)}" using F(7) d(3) by simp
  have "tracker_inv (seqOrd r')" using so inv closeGap_inv(2) by (auto simp: recv_inv_def)
  then show "recv_inv cd r'" using F d(3) by (intro recv_inv_eqI [OF inv]) simp_all
qed

section \<open>Any number of handlers at once\<close>

text \<open>
  The receiver together with the handlers that are between admission and completion, the frames
  it has acknowledged so far, the numbers it has completed, and the numbers that its tracker has
  been told to skip (a gap closed by a new connection, a jump over the limit).
\<close>

record rsys =
  rcv :: Receiver
  running :: "Frame multiset"
  acked_frames :: "Frame set"
  finished :: "u64 set"
  skipped :: "u64 set"

definition ack_frame :: "byte \<Rightarrow> Frame \<Rightarrow> Frame set \<Rightarrow> Frame set" where
  "ack_frame a f A = (if a = AckSuccess then insert f A else A)"

inductive rstep :: "codec \<Rightarrow> RecvConfig \<Rightarrow> rsys \<Rightarrow> rsys \<Rightarrow> bool" for cd cfg where
  refuse: "admit cfg e i fb (rcv s) = (Reply a, r') \<Longrightarrow> Decode fb = Inl err \<Longrightarrow> rstep cd cfg s (s\<lparr>rcv := r'\<rparr>)"
| reply: "admit cfg e i fb (rcv s) = (Reply a, r') \<Longrightarrow> Decode fb = Inr f \<Longrightarrow>
    rstep cd cfg s (s\<lparr>rcv := r', acked_frames := ack_frame a f (acked_frames s)\<rparr>)"
| start: "admit cfg e i fb (rcv s) = (Proceed f, r') \<Longrightarrow>
    rstep cd cfg s (s\<lparr>rcv := r', running := add_mset f (running s),
      skipped := skipped s \<union> {q. tLast (seqOrd (rcv s)) < q \<and> q \<le> tLast (seqOrd r')}\<rparr>)"
| finish: "f \<in># running s \<Longrightarrow> complete cd cfg e f (rcv s) = (a, r') \<Longrightarrow>
    rstep cd cfg s (s\<lparr>rcv := r', running := running s - {#f#},
      acked_frames := ack_frame a f (acked_frames s),
      finished := (if a = AckSuccess then insert (fSeq f) (finished s) else finished s),
      skipped := (if a = AckSuccess \<and> fSeq f > tLast (seqOrd (rcv s)) + seqJumpLimit
        then skipped s \<union> {q. tLast (seqOrd (rcv s)) < q \<and> q < fSeq f} else skipped s)\<rparr>)"

inductive_cases rstepE: "rstep cd cfg s t"

definition inflight_count :: "(u64 \<rightharpoonup> nat) \<Rightarrow> u64 \<Rightarrow> nat" where
  "inflight_count m q = (case m q of None \<Rightarrow> 0 | Some n \<Rightarrow> n)"

definition inflight_ok :: "Receiver \<Rightarrow> Frame multiset \<Rightarrow> bool" where
  "inflight_ok r H \<longleftrightarrow> (\<forall>q. inflight_count (inflightSeq r) q = size (filter_mset (\<lambda>f. fSeq f = q) H) \<and>
     inflightSeq r q \<noteq> Some 0)"

definition acks_landed :: "codec \<Rightarrow> Receiver \<Rightarrow> Frame set \<Rightarrow> bool" where
  "acks_landed cd r A \<longleftrightarrow> (\<forall>f\<in>A. IsHeartbeat f \<or> (\<exists>g. fSeq g = fSeq f \<and> fCRC g = fCRC f \<and> landed cd r g))"

definition prefix_done :: "u64 \<Rightarrow> seqTracker \<Rightarrow> u64 set \<Rightarrow> u64 set \<Rightarrow> bool" where
  "prefix_done v t F K \<longleftrightarrow> set (tPending t) \<subseteq> F \<and> (\<forall>q. v < q \<and> q \<le> tLast t \<longrightarrow> q \<in> F \<union> K)"

definition sys_inv :: "codec \<Rightarrow> u64 \<Rightarrow> rsys \<Rightarrow> bool" where
  "sys_inv cd v s \<longleftrightarrow> recv_inv cd (rcv s) \<and> inflight_ok (rcv s) (running s) \<and>
     acks_landed cd (rcv s) (acked_frames s) \<and> prefix_done v (seqOrd (rcv s)) (finished s) (skipped s) \<and>
     (\<forall>q\<in>finished s. \<exists>g. fSeq g = q \<and> landed cd (rcv s) g)"

lemma inflight_ok_add:
  assumes ok: "inflight_ok r H" and eq: "inflightSeq r' = inflightSeq (addInflight (fSeq f) r)"
  shows "inflight_ok r' (add_mset f H)"
proof -
  have "inflight_count (inflightSeq r') q = inflight_count (inflightSeq r) q + (if q = fSeq f then 1 else 0)" for q
    using eq by (auto simp: inflight_count_def addInflight_def split: option.split)
  moreover have "inflightSeq r' q \<noteq> Some 0" for q
    using eq ok by (auto simp: inflight_ok_def addInflight_def split: option.splits if_splits)
  ultimately show ?thesis using ok by (simp add: inflight_ok_def)
qed

lemma inflight_ok_remove:
  assumes ok: "inflight_ok r H" and f: "f \<in># H" and eq: "inflightSeq r' = inflightSeq (removeInflight (fSeq f) r)"
  shows "inflight_ok r' (H - {#f#})"
proof -
  obtain H' where H: "H = add_mset f H'" using f by (metis insert_DiffM)
  have "inflight_count (inflightSeq r) q = size (filter_mset (\<lambda>g. fSeq g = q) H') + (if q = fSeq f then 1 else 0)" for q
    using ok H by (auto simp: inflight_ok_def)
  moreover have "inflight_count (inflightSeq r') q = inflight_count (inflightSeq r) q - (if q = fSeq f then 1 else 0)" for q
    using eq by (auto simp: inflight_count_def removeInflight_def split: option.split)
  moreover have "inflightSeq r' q \<noteq> Some 0" for q
    using eq ok by (auto simp: inflight_ok_def removeInflight_def split: option.splits if_splits)
  ultimately show ?thesis using H by (simp add: inflight_ok_def)
qed

lemma acks_landed_mono:
  assumes "acks_landed cd r A" and "set (stored r) \<subseteq> set (stored r')" and "set (dlqDir r) \<subseteq> set (dlqDir r')"
  shows "acks_landed cd r' A"
  using assms landed_mono [OF _ assms(2,3)] unfolding acks_landed_def by meson

lemma prefix_done_close:
  assumes "prefix_done v t F K" and "t' \<in> {t, closeGap u t}" and "tracker_inv t"
  shows "prefix_done v t' F (K \<union> {q. tLast t < q \<and> q \<le> tLast t'})"
proof -
  have "set (tPending t') \<subseteq> F" using assms(1,2) by (auto simp: prefix_done_def closeGap_def Let_def)
  moreover have "q \<in> F \<union> (K \<union> {q. tLast t < q \<and> q \<le> tLast t'})" if "v < q" "q \<le> tLast t'" for q
    using assms(1) that by (cases "q \<le> tLast t") (auto simp: prefix_done_def not_le)
  ultimately show ?thesis by (auto simp: prefix_done_def)
qed

lemma prefix_done_done:
  assumes p: "prefix_done v t F K" and inv: "tracker_inv t" and eq: "trackerDone seq t = (adv, t')"
  shows "prefix_done v t' (insert seq F)
    (if seq > tLast t + seqJumpLimit then K \<union> {q. tLast t < q \<and> q < seq} else K)"
proof -
  consider (old) "seq \<le> tLast t" | (jump) "\<not> seq \<le> tLast t" "seq > tLast t + seqJumpLimit"
    | (near) "tLast t < seq" "seq \<le> tLast t + seqJumpLimit" by force
  then show ?thesis
  proof cases
    case old
    then have "t' = t" using eq by (auto simp: trackerDone_def)
    then show ?thesis using p by (auto simp: prefix_done_def)
  next
    case jump
    then have t': "t' = \<lparr>tLast = seq, tPending = []\<rparr>" using eq by (auto simp: trackerDone_def)
    have "q \<in> insert seq F \<union> (K \<union> {q. tLast t < q \<and> q < seq})" if "v < q" "q \<le> seq" for q
      using p that by (cases "q \<le> tLast t") (auto simp: prefix_done_def not_le)
    then show ?thesis using jump(2) t' by (auto simp: prefix_done_def)
  next
    case near
    note R = trackerDone_near [OF inv near eq]
    have pend: "set (tPending t') \<subseteq> insert seq F" using R p by (auto simp: prefix_done_def)
    have "q \<in> insert seq F \<union> K" if "v < q" "q \<le> tLast t'" for q
      using p R that by (cases "q \<le> tLast t") (auto simp: prefix_done_def not_le)
    then show ?thesis using pend near(2) by (auto simp: prefix_done_def dest: leD)
  qed
qed

lemma sys_inv_start:
  assumes inv: "sys_inv cd v s" and eq: "admit cfg e i fb (rcv s) = (Proceed f, r')"
  shows "sys_inv cd v (s\<lparr>rcv := r', running := add_mset f (running s),
      skipped := skipped s \<union> {q. tLast (seqOrd (rcv s)) < q \<and> q \<le> tLast (seqOrd r')}\<rparr>)"
proof -
  have ri: "recv_inv cd (rcv s)" using inv by (simp add: sys_inv_def)
  note A = admit_proceed [OF ri eq]
  have "landed cd r' g" if "landed cd (rcv s) g" for g using that A(5,6) by (simp add: landed_def)
  then have fin: "\<forall>q\<in>finished s. \<exists>g. fSeq g = q \<and> landed cd r' g"
    using inv unfolding sys_inv_def by blast
  then show ?thesis
    using inv A(3,5,6) inflight_ok_add [OF _ A(7)] acks_landed_mono [of cd "rcv s" _ r']
      prefix_done_close [OF _ A(8), of v] ri
    by (simp add: sys_inv_def recv_inv_def)
qed

lemma sys_inv_finish:
  assumes inv: "sys_inv cd v s" and f: "f \<in># running s" and eq: "complete cd cfg e f (rcv s) = (a, r')"
  shows "sys_inv cd v (s\<lparr>rcv := r', running := running s - {#f#},
      acked_frames := ack_frame a f (acked_frames s),
      finished := (if a = AckSuccess then insert (fSeq f) (finished s) else finished s),
      skipped := (if a = AckSuccess \<and> fSeq f > tLast (seqOrd (rcv s)) + seqJumpLimit
        then skipped s \<union> {q. tLast (seqOrd (rcv s)) < q \<and> q < fSeq f} else skipped s)\<rparr>)"
proof -
  have ri: "recv_inv cd (rcv s)" using inv by (simp add: sys_inv_def)
  note C = complete_result [OF ri eq]
  have mono: "landed cd r' g" if "landed cd (rcv s) g" for g by (rule landed_mono [OF that C(4,5)])
  have al: "acks_landed cd r' (acked_frames s)" using inv acks_landed_mono [OF _ C(4,5)] by (simp add: sys_inv_def)
  have io: "inflight_ok r' (running s - {#f#})" using inv inflight_ok_remove [OF _ f C(6)] by (simp add: sys_inv_def)
  have fin: "\<forall>q\<in>finished s. \<exists>g. fSeq g = q \<and> landed cd r' g" using inv mono unfolding sys_inv_def by blast
  from C(1) show ?thesis
  proof
    assume "a = AckFail \<and> r' = removeInflight (fSeq f) (rcv s)"
    then show ?thesis using inv C(2) al io fin by (simp add: sys_inv_def ack_frame_def)
  next
    assume ok: "a = AckSuccess \<and> landed cd r' f \<and> seqOrd r' = snd (trackerDone (fSeq f) (seqOrd (rcv s)))"
    have "prefix_done v (seqOrd r') (insert (fSeq f) (finished s))
        (if fSeq f > tLast (seqOrd (rcv s)) + seqJumpLimit
         then skipped s \<union> {q. tLast (seqOrd (rcv s)) < q \<and> q < fSeq f} else skipped s)"
      using inv ok ri by (intro prefix_done_done [of _ "seqOrd (rcv s)" _ _ _ "fst (trackerDone (fSeq f) (seqOrd (rcv s)))"])
        (auto simp: sys_inv_def recv_inv_def)
    then show ?thesis using ok C(2) al io fin by (auto simp: sys_inv_def ack_frame_def acks_landed_def)
  qed
qed

lemma sys_inv_step:
  assumes "rstep cd cfg s t" and "sys_inv cd v s"
  shows "sys_inv cd v t"
  using assms
proof (induction rule: rstep.induct)
  case (refuse e i fb s a r' err)
  then show ?case using admit_reply(1) [OF _ refuse(1), of cd] by (simp add: sys_inv_def)
next
  case (reply e i fb s a r' f)
  have ri: "recv_inv cd (rcv s)" using reply by (simp add: sys_inv_def)
  show ?case using reply admit_reply [OF ri reply(1)]
    by (auto simp: sys_inv_def ack_frame_def acks_landed_def)
next
  case (start e i fb s f r')
  then show ?case by (intro sys_inv_start)
next
  case (finish f s e a r')
  then show ?case by (intro sys_inv_finish)
qed

lemma sys_inv_steps: "(rstep cd cfg)\<^sup>*\<^sup>* s t \<Longrightarrow> sys_inv cd v s \<Longrightarrow> sys_inv cd v t"
  by (induction rule: rtranclp_induct) (auto intro: sys_inv_step)

lemma lastSeq_step: "rstep cd cfg s t \<Longrightarrow> sys_inv cd v s \<Longrightarrow> lastSeq (rcv s) \<le> lastSeq (rcv t)"
proof (induction rule: rstep.induct)
  case (refuse e i fb s a r' err)
  then show ?case using admit_reply(1) [OF _ refuse(1), of cd] by (simp add: sys_inv_def)
next
  case (reply e i fb s a r' f)
  then show ?case using admit_reply(1) [OF _ reply(1), of cd] by (simp add: sys_inv_def)
next
  case (start e i fb s f r')
  then show ?case using admit_proceed(4) [OF _ start(1), of cd] by (simp add: sys_inv_def)
next
  case (finish f s e a r')
  then show ?case using complete_result(3) [OF _ finish(2)] by (simp add: sys_inv_def)
qed

lemma lastSeq_steps: "(rstep cd cfg)\<^sup>*\<^sup>* s t \<Longrightarrow> sys_inv cd v s \<Longrightarrow> lastSeq (rcv s) \<le> lastSeq (rcv t)"
  by (induction rule: rtranclp_induct) (use lastSeq_step sys_inv_steps in \<open>fastforce+\<close>)

definition sys_start :: "Receiver \<Rightarrow> rsys" where
  "sys_start r = \<lparr>rcv = r, running = {#}, acked_frames = {}, finished = {}, skipped = {}\<rparr>"

lemma New_inv:
  assumes "New cfg relay file = Inr r"
  shows "recv_inv cd r" and "inflightSeq r = Map.empty" and "tPending (seqOrd r) = []"
  using assms
  by (auto simp: New_def fresh_receiver_def recv_inv_def tracker_inv_def dedup_inv_def newSeqTracker_def
      trackerInit_def Let_def split: if_splits sum.splits)

lemma sys_start_inv:
  assumes "New cfg relay file = Inr r"
  shows "sys_inv cd (tLast (seqOrd r)) (sys_start r)"
  using New_inv(1) [OF assms, of cd] New_inv(2,3) [OF assms]
  by (auto simp: sys_inv_def sys_start_def inflight_ok_def inflight_count_def acks_landed_def prefix_done_def dest: leD)

section \<open>A run\<close>

definition demo_cfg :: RecvConfig where
  "demo_cfg = \<lparr>cLastSeqFile = False, cRelayDLQDir = False, cLastWriteTs = False\<rparr>"

definition demo_env :: env where
  "demo_env = \<lparr>eNow = 0, eImport = (\<lambda>raw. HttpResp 204 ([], None)), eDlq = None, eRelayDlq = None,
     eSeqSave = None, eErrText = (\<lambda>_. [])\<rparr>"

definition demo_frame :: Frame where
  "demo_frame = \<lparr>fVersion = Version, fType = TypeDataZstd, fSeq = 1, fCRC = ChecksumIEEE [0x61], fPayload = [0x61]\<rparr>"

definition demo_fb :: bytes where
  "demo_fb = encodeRaw TypeDataZstd 1 [0x61] (ChecksumIEEE [0x61])"

definition demo_recv :: Receiver where
  "demo_recv = fresh_receiver None None"

lemma demo_New: "New demo_cfg None None = Inr demo_recv"
  by (simp add: New_def demo_cfg_def demo_recv_def Let_def)

lemma demo_Decode: "Decode demo_fb = Inr demo_frame"
  using Decode_encodeRaw [of "[0x61]" TypeDataZstd 1] by (simp add: demo_fb_def demo_frame_def frame_consts)

lemma demo_admit: "admit demo_cfg demo_env 0 demo_fb demo_recv = (Proceed demo_frame, addInflight 1 demo_recv)"
  by (simp add: admit_def demo_Decode IsHeartbeat_def noteGap_def)
    (simp add: demo_frame_def demo_recv_def fresh_receiver_def)

lemma TrimSpace_letter: "TrimSpace [0x61] = [0x61]"
proof -
  have "trim_front space_seqs [0x61] = [0x61]" "trim_front (map rev space_seqs) [0x61] = [0x61]"
    by (rule trim_front_stop, auto simp: space_seqs_def has_prefix_def)+
  then show ?thesis by (simp add: TrimSpace_def)
qed

lemma demo_complete: "\<exists>r'. complete stored_codec demo_cfg demo_env demo_frame r = (AckSuccess, r')"
  by (simp add: complete_def Decompress_def demo_frame_def stored_codec_def limitedReadAll_def frame_consts
      TrimSpace_letter importFrame_def ImportWrite_def demo_env_def Let_def)

lemma demo_reach:
  "\<exists>s. (rstep stored_codec demo_cfg)\<^sup>*\<^sup>* (sys_start demo_recv) s \<and> demo_frame \<in> acked_frames s \<and>
    tLast (seqOrd (rcv s)) = 1"
proof -
  let ?s0 = "sys_start demo_recv" and ?r1 = "addInflight 1 demo_recv"
  let ?s1 = "?s0\<lparr>rcv := ?r1, running := add_mset demo_frame (running ?s0),
      skipped := skipped ?s0 \<union> {q. tLast (seqOrd (rcv ?s0)) < q \<and> q \<le> tLast (seqOrd ?r1)}\<rparr>"
  have 1: "rstep stored_codec demo_cfg ?s0 ?s1"
    using demo_admit by (intro rstep.start) (simp add: sys_start_def)
  obtain r2 where c: "complete stored_codec demo_cfg demo_env demo_frame (rcv ?s1) = (AckSuccess, r2)"
    using demo_complete by blast
  have "recv_inv stored_codec (rcv ?s1)"
    using admit_proceed(3) [OF New_inv(1) [OF demo_New] demo_admit] by simp
  from complete_result(1) [OF this c] have "seqOrd r2 = snd (trackerDone 1 newSeqTracker)"
    by (auto simp: demo_frame_def demo_recv_def fresh_receiver_def)
  also have "\<dots> = \<lparr>tLast = 1, tPending = []\<rparr>"
    by (simp add: trackerDone_def newSeqTracker_def seqJumpLimit_def advance.simps seqPendingLimit_def)
  finally have "seqOrd r2 = \<lparr>tLast = 1, tPending = []\<rparr>" .
  moreover have "rstep stored_codec demo_cfg ?s1 (?s1\<lparr>rcv := r2, running := running ?s1 - {#demo_frame#},
      acked_frames := ack_frame AckSuccess demo_frame (acked_frames ?s1),
      finished := (if AckSuccess = AckSuccess then insert (fSeq demo_frame) (finished ?s1) else finished ?s1),
      skipped := (if AckSuccess = AckSuccess \<and> fSeq demo_frame > tLast (seqOrd (rcv ?s1)) + seqJumpLimit
        then skipped ?s1 \<union> {q. tLast (seqOrd (rcv ?s1)) < q \<and> q < fSeq demo_frame} else skipped ?s1)\<rparr>)" (is "rstep _ _ _ ?s2")
    by (rule rstep.finish [OF _ c]) simp
  ultimately have "(rstep stored_codec demo_cfg)\<^sup>*\<^sup>* ?s0 ?s2 \<and> demo_frame \<in> acked_frames ?s2 \<and> tLast (seqOrd (rcv ?s2)) = 1"
    using 1 by (auto simp: ack_frame_def)
  then show ?thesis by blast
qed

section \<open>Properties of the receiver\<close>







text \<open>
  One frame, start to end. The answer is one of the two acknowledgement bytes; a positive one
  means heartbeat or landed as above, and for a number above the last one that this very frame
  has landed; a negative one leaves database, dead letters and the window of recent frames as
  they were, so the retransmission is not taken for a duplicate; the last number never shrinks.
\<close>

theorem HandleFrame_ack:
  assumes inv: "recv_inv cd r" and eq: "HandleFrame cd cfg e i fb r = (ack, r')"
  shows "recv_inv cd r' \<and> lastSeq r \<le> lastSeq r' \<and> (ack = AckSuccess \<or> ack = AckFail) \<and>
    (ack = AckSuccess \<longrightarrow> (\<exists>f. Decode fb = Inr f \<and>
       (IsHeartbeat f \<or> (\<exists>g. fSeq g = fSeq f \<and> fCRC g = fCRC f \<and> landed cd r' g)) \<and>
       (\<not> IsHeartbeat f \<and> word_of_int (lastSeq r) < fSeq f \<longrightarrow> landed cd r' f))) \<and>
    (ack = AckFail \<longrightarrow> stored r' = stored r \<and> dlqDir r' = dlqDir r \<and> dedupCRC r' = dedupCRC r)"
proof -
  obtain ad r1 where ad: "admit cfg e i fb r = (ad, r1)" by fastforce
  show ?thesis
  proof (cases ad)
    case (Reply a)
    then have "ack = a" "r' = r1" using eq ad by (simp_all add: HandleFrame_def)
    moreover have "a = AckSuccess \<or> a = AckFail" "\<And>f. a = AckSuccess \<Longrightarrow> Decode fb = Inr f \<Longrightarrow>
        \<not> IsHeartbeat f \<Longrightarrow> fSeq f \<le> word_of_int (lastSeq r)"
      using ad Reply by (auto simp: admit_def split: sum.splits if_splits)
    ultimately show ?thesis
      using admit_reply [OF inv ad [unfolded Reply]] inv by (auto dest: leD)
  next
    case (Proceed f)
    note A = admit_proceed [OF inv ad [unfolded Proceed]]
    have "dedupCRC r1 = dedupCRC r"
      using ad Proceed noteGap_frame(3) by (auto simp: admit_def split: sum.splits if_splits)
    moreover have c: "complete cd cfg e f r1 = (ack, r')" using eq ad Proceed by (simp add: HandleFrame_def)
    ultimately show ?thesis
      using complete_result [OF A(3) c] A by auto
  qed
qed

theorem HandleFrame_ack_witness:
  "\<exists>r'. HandleFrame stored_codec demo_cfg demo_env 0 demo_fb demo_recv = (AckSuccess, r') \<and> landed stored_codec r' demo_frame"
proof -
  obtain r' where eq: "HandleFrame stored_codec demo_cfg demo_env 0 demo_fb demo_recv = (AckSuccess, r')"
    using demo_complete by (auto simp: HandleFrame_def demo_admit)
  have "\<not> IsHeartbeat demo_frame" "word_of_int (lastSeq demo_recv) < fSeq demo_frame"
    by (simp_all add: IsHeartbeat_def demo_frame_def demo_recv_def fresh_receiver_def)
  with HandleFrame_ack [OF New_inv(1) [OF demo_New] eq] eq demo_Decode show ?thesis by auto
qed

text \<open>
  The tracker is exact: after any completions within the jump limit, in any order, its value
  is the end of the contiguous run of completed numbers that starts at its initial value.
\<close>

theorem tracker_exact:
  assumes "unat v + 200000 < 2 ^ 64" and "\<forall>s\<in>set seqs. s \<le> v + seqJumpLimit" and "length seqs \<le> seqPendingLimit"
  shows "v \<le> tLast (trackAll seqs (trackerInit v t0)) \<and> tLast (trackAll seqs (trackerInit v t0)) + 1 \<notin> set seqs \<and>
    (\<forall>q. v < q \<and> q \<le> tLast (trackAll seqs (trackerInit v t0)) \<longrightarrow> q \<in> set seqs)"
  using trackAll_tracks [OF assms, of t0] by (simp add: tracks_def)

theorem tracker_exact_witness:
  "tLast (trackAll [3, 1, 2, 5] (trackerInit 0 newSeqTracker)) = 3 \<and>
    tLast (trackAll [3, 1, 2, 5] (trackerInit 0 newSeqTracker)) + 1 \<notin> set [3, 1, 2, 5]"
proof
  show "tLast (trackAll [3, 1, 2, 5] (trackerInit 0 newSeqTracker)) = 3"
    by (simp add: trackAll_def trackerInit_def trackerDone_def seqJumpLimit_def advance.simps seqPendingLimit_def not_le)
  have "\<forall>s\<in>set [3, 1, 2, 5]. s \<le> 0 + seqJumpLimit" by (simp add: seqJumpLimit_def)
  from tracker_exact [OF _ this, of newSeqTracker]
  show "tLast (trackAll [3, 1, 2, 5] (trackerInit 0 newSeqTracker)) + 1 \<notin> set [3, 1, 2, 5]"
    by (simp add: seqPendingLimit_def)
qed

text \<open>
  The sequence number file round trip: what a successful save wrote, the next start reads
  back, for every 64-bit value; a failing save leaves the file as it was.
\<close>

theorem last_seq_file_roundtrip:
  assumes "in_i64 n"
  shows "if eSeqSave e = None then loadLastSeq (seqFile (saveLastSeq e n r)) = Inr n
    else seqFile (saveLastSeq e n r) = seqFile r"
  using Sscanf_show [OF assms] TrimSpace_line [OF show_int_ends, of n]
  by (auto simp: saveLastSeq_def loadLastSeq_def)

theorem last_seq_file_roundtrip_witness:
  "loadLastSeq (seqFile (saveLastSeq demo_env (- 42) demo_recv)) = Inr (- 42)"
  using last_seq_file_roundtrip [of "- 42" demo_env demo_recv] by (simp add: in_i64_def demo_env_def)

lemma inflight_between_iff: "inflight_between m s seq \<longleftrightarrow> (\<exists>q. s \<le> q \<and> q < seq \<and> m q \<noteq> None)"
proof (induction m s seq rule: inflight_between.induct)
  case (1 m s seq)
  show ?case
  proof (cases "s < seq \<and> m s = None")
    case True
    have "s \<noteq> - 1" using True word_order.extremum_strict by auto
    then have "s < s + 1" by (rule word_less_succ)
    have "s + 1 \<le> q" if "s \<le> q" "m q \<noteq> None" for q
      using True that inc_le [of s q] by (cases "q = s") (auto simp: order_less_le)
    moreover have "s \<le> q" if "s + 1 \<le> q" for q
      using order.strict_trans2 [OF \<open>s < s + 1\<close> that] by (rule less_imp_le)
    ultimately have "(\<exists>q. s + 1 \<le> q \<and> q < seq \<and> m q \<noteq> None) = (\<exists>q. s \<le> q \<and> q < seq \<and> m q \<noteq> None)"
      by blast
    then show ?thesis using 1 True by (simp add: inflight_between.simps [of m s seq])
  next
    case False
    then show ?thesis by (auto simp: inflight_between.simps [of m s seq])
  qed
qed

text \<open>
  A gap is closed only when it is safe: the tracker is moved over missing numbers by the
  first frame of a connection only if none of them is in flight on any connection, and it is
  moved exactly to the number before that frame.
\<close>

theorem gap_closed_safely:
  assumes "tryCloseGap cfg e seq r = (True, r')"
  shows "(\<forall>q. word_of_int (lastSeq r) + 1 \<le> q \<and> q < seq \<longrightarrow> inflightSeq r q = None) \<and>
    tLast (seqOrd r') = max (tLast (seqOrd r)) (seq - 1) \<and> inflightSeq r' = inflightSeq r \<and> stored r' = stored r"
proof -
  have "\<not> inflight_between (inflightSeq r) (word_of_int (lastSeq r) + 1) seq"
    using assms by (auto simp: tryCloseGap_def Let_def split: if_splits)
  moreover have "tLast (closeGap (seq - 1) (seqOrd r)) = max (tLast (seqOrd r)) (seq - 1)"
    by (auto simp: closeGap_def Let_def max_def not_le not_less)
  ultimately show ?thesis using tryCloseGap_frame [OF assms] by (auto simp: inflight_between_iff)
qed

theorem gap_closed_safely_witness:
  "\<exists>r'. tryCloseGap demo_cfg demo_env 3 demo_recv = (True, r') \<and> tLast (seqOrd r') = 2"
proof -
  obtain r' where eq: "tryCloseGap demo_cfg demo_env 3 demo_recv = (True, r')"
    by (simp add: tryCloseGap_def Let_def inflight_between_iff demo_recv_def fresh_receiver_def not_le)
  with gap_closed_safely [OF eq] show ?thesis
    by (simp add: demo_recv_def fresh_receiver_def newSeqTracker_def max_def)
qed

end
