(* ===== verification/Receiver_Restart.thy ===== *)
theory Receiver_Restart
  imports Receiver_Safety
begin

text \<open>
  Restarting the receiver, \<^verbatim>\<open>src/internal/receiver/receiver.go\<close>: the file of the last
  sequence number in every state a run can leave behind, and the receiver that starts from it.
\<close>

section \<open>The file in a run\<close>

definition file_ok :: "Receiver \<Rightarrow> bool" where
  "file_ok r \<longleftrightarrow> (\<exists>n. loadLastSeq (seqFile r) = Inr n \<and> n \<le> lastSeq r)"

lemma file_ok_mono: "file_ok r \<Longrightarrow> seqFile r' = seqFile r \<Longrightarrow> lastSeq r \<le> lastSeq r' \<Longrightarrow> file_ok r'"
  unfolding file_ok_def by (metis order_trans)

lemma load_saved: "in_i64 n \<Longrightarrow> loadLastSeq (Some (show_int n @ [newline])) = Inr n"
  using Sscanf_show [of n] TrimSpace_line [OF show_int_ends, of n] by (simp add: loadLastSeq_def)

lemma sint_i64: "in_i64 (sint (q :: u64))"
  using sint_range_size [of q] by (simp add: in_i64_def word_size)

lemma advanceSeq_file_ok:
  assumes "file_ok r"
  shows "file_ok (advanceSeq cfg e q r)"
proof -
  have "seqFile (advanceSeq cfg e q r) = seqFile r \<or> seqFile (advanceSeq cfg e q r) = Some (show_int (sint q) @ [newline])"
    by (simp add: advanceSeq_def saveLastSeq_def Let_def split: option.split)
  then show ?thesis
    using file_ok_mono [OF assms, of "advanceSeq cfg e q r"] load_saved [OF sint_i64 [of q]] by (auto simp: file_ok_def)
qed

lemma markDone_file_ok:
  assumes "file_ok r"
  shows "file_ok (markDone cfg e q r)"
proof -
  have "file_ok (r\<lparr>seqOrd := t\<rparr>)" for t using assms by (simp add: file_ok_def)
  then show ?thesis using advanceSeq_file_ok by (simp add: markDone_def Let_def split: prod.split)
qed

lemma tryCloseGap_file_ok:
  assumes "file_ok r" and "tryCloseGap cfg e seq r = (b, r')"
  shows "file_ok r'"
proof -
  have "file_ok (r\<lparr>seqOrd := t\<rparr>)" for t using assms(1) by (simp add: file_ok_def)
  then show ?thesis using assms advanceSeq_file_ok by (auto simp: tryCloseGap_def Let_def split: if_splits)
qed

lemma noteGap_file_ok:
  assumes "file_ok r"
  shows "file_ok (noteGap cfg e i seq r)"
proof -
  have upd: "file_ok (x\<lparr>gapWarned := g\<rparr>)" "file_ok (markGapWarned e seq x)" if "file_ok x" for x g
    using that by (simp_all add: file_ok_def markGapWarned_def)
  obtain b r1 where r1: "(if i = 0 then tryCloseGap cfg e seq r else (False, r)) = (b, r1)" by fastforce
  then have "file_ok r1" using tryCloseGap_file_ok assms by (auto split: if_splits)
  then show ?thesis using upd assms r1 by (simp add: noteGap_def Let_def split: bool.split)
qed

lemma admit_file_ok:
  assumes "file_ok r" and "admit cfg e i fb r = (a, r')"
  shows "file_ok r'"
proof -
  have "file_ok (addInflight q r)" for q using assms(1) by (simp add: file_ok_def addInflight_def)
  then show ?thesis using assms noteGap_file_ok by (auto simp: admit_def split: sum.splits if_splits)
qed

lemma complete_file_ok:
  assumes "file_ok r" and "complete cd cfg e f r = (a, r')"
  shows "file_ok r'"
proof -
  have upd: "file_ok (dedupRecord s c x)" "file_ok (removeInflight s x)" "file_ok (x\<lparr>writeTs := w\<rparr>)"
    "file_ok (x\<lparr>dlqDir := d\<rparr>)" "file_ok (x\<lparr>stored := v\<rparr>)" "file_ok (relayForward cd cfg e f raw x)"
    if "file_ok x" for x s c w d v raw
    using that by (simp_all add: file_ok_def dedupRecord_def removeInflight_def relayForward_def Let_def split: option.split prod.split sum.split)
  have "file_ok r1" if "importFrame cd cfg e f raw r = (b, r1)" for raw b r1
    using that assms(1) upd markDone_file_ok
    by (auto simp: importFrame_def Let_def split: option.splits prod.splits sum.splits if_splits)
  then show ?thesis using assms upd(2) by (auto simp: complete_def split: sum.splits prod.splits if_splits)
qed

lemma rstep_file_ok: "rstep cd cfg s t \<Longrightarrow> file_ok (rcv s) \<Longrightarrow> file_ok (rcv t)"
  by (induction rule: rstep.induct) (auto intro: admit_file_ok complete_file_ok)

lemma rsteps_file_ok: "(rstep cd cfg)\<^sup>*\<^sup>* s t \<Longrightarrow> file_ok (rcv s) \<Longrightarrow> file_ok (rcv t)"
  by (induction rule: rtranclp_induct) (auto intro: rstep_file_ok)

lemma New_file_ok:
  assumes "New cfg relay file = Inr r" and "cLastSeqFile cfg"
  shows "file_ok r"
  using assms by (auto simp: New_def Let_def file_ok_def fresh_receiver_def split: sum.splits)

section \<open>Starting again\<close>

text \<open>
  A receiver starts again from whatever a run left behind: the file of the last sequence
  number can always be read, the number in it is not ahead of the one the run had reached, and the
  restarted tracker continues exactly from it with nothing in flight. Frames between the two numbers
  are taken again, none is taken for done that was not.
\<close>

lemma receiver_starts_again:
  assumes "New cfg relay file = Inr r" and "cLastSeqFile cfg" and "(rstep cd cfg)\<^sup>*\<^sup>* (sys_start r) s"
  shows "\<exists>r2. New cfg relay2 (seqFile (rcv s)) = Inr r2 \<and> lastSeq r2 \<le> lastSeq (rcv s) \<and>
    tLast (seqOrd r2) = word_of_int (lastSeq r2) \<and> tPending (seqOrd r2) = [] \<and> inflightSeq r2 = Map.empty"
proof -
  have "file_ok (rcv s)"
    using rsteps_file_ok [OF assms(3)] New_file_ok [OF assms(1,2)] by (simp add: sys_start_def)
  then obtain n where n: "loadLastSeq (seqFile (rcv s)) = Inr n" "n \<le> lastSeq (rcv s)" by (auto simp: file_ok_def)
  then obtain r2 where r2: "New cfg relay2 (seqFile (rcv s)) = Inr r2" "lastSeq r2 = n"
      "seqOrd r2 = trackerInit (word_of_int n) newSeqTracker"
    using assms(2) by (auto simp: New_def Let_def fresh_receiver_def)
  then show ?thesis using n New_inv(2,3) [OF r2(1)] by (intro exI [of _ r2]) (simp add: trackerInit_def)
qed

definition file_cfg :: RecvConfig where
  "file_cfg = \<lparr>cLastSeqFile = True, cRelayDLQDir = False, cLastWriteTs = True\<rparr>"

lemma file_cfg_run:
  "\<exists>r s. New file_cfg None (Some (show_int 0 @ [newline])) = Inr r \<and> (rstep stored_codec file_cfg)\<^sup>*\<^sup>* (sys_start r) s \<and>
    demo_frame \<in># running s"
proof -
  obtain r where r: "New file_cfg None (Some (show_int 0 @ [newline])) = Inr r" "lastSeq r = 0"
    using load_saved [of 0] by (auto simp: New_def file_cfg_def in_i64_def Let_def)
  obtain r' where "admit file_cfg demo_env 0 demo_fb (rcv (sys_start r)) = (Proceed demo_frame, r')"
    using r(2) demo_Decode by (simp add: admit_def sys_start_def IsHeartbeat_def demo_frame_def)
  from rstep.start [OF this, of stored_codec] obtain s where s: "rstep stored_codec file_cfg (sys_start r) s" "demo_frame \<in># running s"
    by fastforce
  have "(rstep stored_codec file_cfg)\<^sup>*\<^sup>* (sys_start r) s" by (rule r_into_rtranclp [of "rstep stored_codec file_cfg", OF s(1)])
  then show ?thesis using r(1) s(2) by blast
qed

end
