(* ===== verification/Process.thy ===== *)
theory Process
  imports Startup Logger Tcp_Server Wal_Names Receiver_Restart
begin

text \<open>
  The two programs, \<^verbatim>\<open>src/cmd/sender/main.go\<close> and \<^verbatim>\<open>src/cmd/receiver/main.go\<close>:
  from the configuration file to the components they start. The file, the environment, the network
  and the clock are arguments. What the components then do is in the theories of the components.
\<close>

section \<open>The sender\<close>

datatype run_err =
    RunConf conf_err
  | RunLog string
  | RunClient client_err
  | RunWal wal_err
  | RunReceiver string
  | RunListen string

record sender_process =
  spLog :: logger
  spVm :: VmClient
  spWal :: wal
  spMetrics :: Metrics
  spPoller :: PollerConfig
  spTcp :: ClientConfig
  spSender :: SenderConfig
  spAuth :: "Auth option"

definition startMetrics :: "wal \<Rightarrow> dir_entry list option \<Rightarrow> Metrics" where
  "startMetrics w listing = update (CallSetWALBytes (DiskUsage listing))
     (update (CallSetWALPending (int (PendingCount w))) (update (CallSetCursor (Cursor w)) newMetrics))"

text \<open>
  \<open>web a\<close> and \<open>pnow a\<close> are the network and the clock at the \<open>a\<close>-th probe, which has
  thirty seconds; \<open>listing\<close> is the directory when its size is taken.
\<close>

definition runSender :: "(string \<Rightarrow> bytes) \<Rightarrow> (bytes \<Rightarrow> string + SenderConf) \<Rightarrow> string + bytes \<Rightarrow> (bytes \<Rightarrow> string option) \<Rightarrow>
    (nat \<Rightarrow> web) \<Rightarrow> (nat \<Rightarrow> int) \<Rightarrow> int \<Rightarrow> int \<Rightarrow> dir_entry list option \<Rightarrow> disk \<Rightarrow> (run_err + sender_process) \<times> disk" where
  "runSender ge yaml file mkdir web pnow now t listing d =
     (case LoadSender ge yaml file of
        Inl e \<Rightarrow> (Inl (RunConf e), d)
      | Inr c \<Rightarrow>
     (case NewLogger mkdir (SLog c) of
        Inl e \<Rightarrow> (Inl (RunLog e), d)
      | Inr lg \<Rightarrow>
     (case NewVmClient (Source c) of
        Inl e \<Rightarrow> (Inl (RunClient e), d)
      | Inr vc \<Rightarrow>
     (case startSender c (\<lambda>a. vmProbeOldestData vc (Some 30000000000) (web a) (pnow a)) now t d of
        (Inl e, d1) \<Rightarrow> (Inl (RunWal e), d1)
      | (Inr w, d1) \<Rightarrow>
          (Inr \<lparr>spLog = lg, spVm = vc, spWal = w, spMetrics = startMetrics w listing,
             spPoller = NewPoller (pollerConfig c), spTcp = NewClient (clientConfig c),
             spSender = NewSender (senderLoopConfig c), spAuth = MonitorAuth (SMonitor c)\<rparr>, d1)))))"

text \<open>The end of the program: the loops have returned, the WAL is closed.\<close>

definition stopSender :: "int \<Rightarrow> sender_process \<Rightarrow> disk" where
  "stopSender t p = dsk (snd (Close t (spWal p)))"

section \<open>The receiver\<close>

record receiver_process =
  rpLog :: logger
  rpVm :: VmClient
  rpConfig :: RecvConfig
  rpReceiver :: Receiver
  rpServerConfig :: ServerConfig
  rpServer :: server
  rpAuth :: "Auth option"

definition runReceiver :: "(string \<Rightarrow> bytes) \<Rightarrow> (bytes \<Rightarrow> string + ReceiverConf) \<Rightarrow> string + bytes \<Rightarrow> (bytes \<Rightarrow> string option) \<Rightarrow>
    bytes option \<Rightarrow> string option \<Rightarrow> run_err + receiver_process" where
  "runReceiver ge yaml file mkdir seqfile listenErr =
     (case LoadReceiver ge yaml file of
        Inl e \<Rightarrow> Inl (RunConf e)
      | Inr c \<Rightarrow>
     (case NewLogger mkdir (RLog c) of
        Inl e \<Rightarrow> Inl (RunLog e)
      | Inr lg \<Rightarrow>
     (case NewVmClient (Target c) of
        Inl e \<Rightarrow> Inl (RunClient e)
      | Inr vc \<Rightarrow>
     (let rc = (receiverConfig c)\<lparr>cLastWriteTs := True\<rparr>; sc = NewServer (serverConfig c) in
      case New rc None seqfile of
        Inl e \<Rightarrow> Inl (RunReceiver e)
      | Inr r \<Rightarrow>
     (case ListenTCP listenErr new_server of
        Inl e \<Rightarrow> Inl (RunListen e)
      | Inr s \<Rightarrow>
          Inr \<lparr>rpLog = lg, rpVm = vc, rpConfig = rc, rpReceiver = r, rpServerConfig = sc, rpServer = s\<lparr>sServing := True\<rparr>,
            rpAuth = MonitorAuth (RMonitor c)\<rparr>)))))"

definition stopReceiver :: "receiver_process \<Rightarrow> receiver_process" where
  "stopReceiver p = p\<lparr>rpServer := CloseServer ((rpServer p)\<lparr>sCancelled := True\<rparr>)\<rparr>"

section \<open>Properties of the programs\<close>

lemma PendingCount_pending: "PendingCount w = length (pending w)"
  by (simp add: PendingCount_def pending_def)

text \<open>
  C7: Restart after a crash. From the directory a crash left behind the sender program starts
  when its configuration, its log and its client can be set up, whatever the probes of the
  database answer: every frame the checkpoint does not acknowledge is pending again, in order, and
  the cursor is not after the saved one, so that no window between them is left out; with the
  policy of the last start it is exactly the saved one. The poller, the sender and the TCP client
  start with settings in their ranges, and the metrics show the cursor and the number of
  pending frames.
\<close>

theorem sender_restarts:
  assumes "crash_dir d c st lay n" and "ckpt_gives d c False" and "outcomes d = []" and "\<not> flocked d" and "0 < CursorNs c"
    and "LoadSender ge yaml file = Inr conf" and "NewLogger mkdir (SLog conf) = Inr lg" and "NewVmClient (Source conf) = Inr vc"
  shows "\<exists>p. runSender ge yaml file mkdir web pnow now t listing d = (Inr p, dsk (spWal p)) \<and> wal_inv (spWal p) \<and>
    pending (spWal p) = map numbered (drop n (layout_frames lay)) \<and> 0 < Cursor (spWal p) \<and> Cursor (spWal p) \<le> CursorNs c \<and>
    (policy_of (backfillSpec conf) = BackfillNs c \<longrightarrow> Cursor (spWal p) = CursorNs c) \<and>
    poller_ok (spPoller p) \<and> sender_ok (spSender p) \<and> client_ok (spTcp p) \<and>
    mCursor (spMetrics p) = Cursor (spWal p) \<and> mWalPending (spMetrics p) = int (length (pending (spWal p)))"
proof -
  let ?probe = "\<lambda>a. vmProbeOldestData vc (Some 30000000000) (web a) (pnow a)"
  obtain w where w: "startSender conf ?probe now t d = (Inr w, dsk w)" "wal_inv w"
    "pending w = map numbered (drop n (layout_frames lay))" "0 < Cursor w" "Cursor w \<le> CursorNs c"
    "policy_of (backfillSpec conf) = BackfillNs c \<longrightarrow> Cursor w = CursorNs c"
    using startSender_resumes [OF assms(1-5), of conf ?probe now t] by blast
  let ?p = "\<lparr>spLog = lg, spVm = vc, spWal = w, spMetrics = startMetrics w listing,
     spPoller = NewPoller (pollerConfig conf), spTcp = NewClient (clientConfig conf),
     spSender = NewSender (senderLoopConfig conf), spAuth = MonitorAuth (SMonitor conf)\<rparr>"
  have "runSender ge yaml file mkdir web pnow now t listing d = (Inr ?p, dsk w)"
    using w(1) assms(6-8) by (simp add: runSender_def)
  then show ?thesis
    using w(2-6) loaded_poller_ok [OF assms(6)] loaded_sender_ok [OF assms(6)]
    by (intro exI [of _ ?p]) (simp add: startMetrics_def PendingCount_pending)
qed

lemma demo_file_log: "NewLogger (\<lambda>_. None) (SLog demo_file) = Inr \<lparr>lgLevel = InfoLevel, lgSink = LogStderr\<rparr>"
  by (simp add: NewLogger_def demo_file_def lower_def str_def Let_def)

lemma demo_file_policy: "backfillSpec demo_file = BackfillAll"
proof -
  have "TrimSpace (Sync_Backfill demo_file) = dur_text [(0, str ''d'', 86400000000000)]"
    by (simp only: demo_file_def SenderConf.simps, rule TrimSpace_dur) (simp_all add: conf_units_def)
  moreover have "dur_text [(0, str ''d'', 86400000000000)] \<notin> {[], str ''0'', str ''0s''}" by (simp add: str_def dec_digits.simps)
  ultimately show ?thesis using demo_durs(3) by (simp add: backfillSpec_def Let_def conf_units_def)
qed

theorem sender_restarts_witness:
  "\<exists>p. runSender (\<lambda>_. []) (\<lambda>_. Inr demo_file) (Inr []) (\<lambda>_. None) (\<lambda>_. demo_web) (\<lambda>_. 1000) 1000 3 None stopped_disk =
      (Inr p, dsk (spWal p)) \<and> pending (spWal p) = [(1, small_frame)] \<and> Cursor (spWal p) = 400 \<and>
    poller_ok (spPoller p) \<and> mCursor (spMetrics p) = 400 \<and> mWalPending (spMetrics p) = 1"
proof -
  let ?c = "zero_checkpoint\<lparr>SegStart := 1, AckedBytes := 24, NextSeq := 5, CursorNs := 400, BackfillNs := BackfillAllNs\<rparr>"
  let ?lay = "[(1, [small_frame, small_frame], [0, 0])] :: seg_layout list"
  have "crash_dir stopped_disk ?c [(0, [0x17])] ?lay 1"
    using small_frame_wf by (simp add: crash_dir_def stopped_disk_def crashed_disk_def seg_file_def seg_wf_def
        zero_checkpoint_def recordHeadLen_def HeaderSize_def)
  moreover have "ckpt_gives stopped_disk ?c False" "outcomes stopped_disk = []" "\<not> flocked stopped_disk" "0 < CursorNs ?c"
    by (simp_all add: ckpt_gives_def stopped_disk_def crashed_disk_def empty_disk_def)
  moreover have "policy_of (backfillSpec demo_file) = BackfillNs ?c" by (simp add: policy_of_def demo_file_policy)
  moreover have "NewVmClient (Source demo_file) = Inr demo_client" using demo_client_new by (simp add: demo_file_def)
  ultimately show ?thesis
    using sender_restarts [of stopped_disk ?c "[(0, [0x17])]" ?lay 1 "\<lambda>_. []" "\<lambda>_. Inr demo_file" "Inr []" demo_file "\<lambda>_. None" _ demo_client
      "\<lambda>_. demo_web" "\<lambda>_. 1000" 1000 3 None] demo_file_loads demo_file_log
    by (auto simp: layout_frames_def numbered_def small_frame_seq)
qed


definition demo_rconf :: ReceiverConf where
  "demo_rconf = \<lparr>Target = demo_vm, RTCP_Listen = str '':1'', RTCP_ReadTimeout = [], RTCP_MaxInflight = 0, RTCP_MaxConns = 0,
     Dedup_Cap = 0, Dedup_LastSeqFile = str ''f'', DLQ_Dir = [], Relay_Addr = [], Relay_WALDir = [], Relay_Timeout = [],
     Relay_DLQDir = [], RMonitor = \<lparr>mon_Addr = [], mon_Username = [], mon_Password = []\<rparr>,
     RLog = \<lparr>log_Level = [], log_File = [], log_MaxMB = 0, log_MaxBackups = 0\<rparr>\<rparr>"

lemma demo_rconf_runs:
  assumes "New file_cfg None seqfile = Inr r"
  shows "\<exists>p. runReceiver (\<lambda>_. []) (\<lambda>_. Inr demo_rconf) (Inr []) (\<lambda>_. None) seqfile None = Inr p \<and>
    rpConfig p = file_cfg \<and> rpReceiver p = r"
proof -
  have "validateReceiver demo_rconf = None"
    by (simp add: validateReceiver_def demo_rconf_def demo_vm_def str_def validateDur_def)
  moreover have "applyReceiverEnv (\<lambda>_. []) demo_rconf = demo_rconf" by (simp add: applyReceiverEnv_def env_or_def)
  ultimately have "LoadReceiver (\<lambda>_. []) (\<lambda>_. Inr demo_rconf) (Inr []) = Inr demo_rconf"
    by (simp add: LoadReceiver_def loadFile_def)
  moreover have "NewVmClient (Target demo_rconf) = Inr demo_client" using demo_client_new by (simp add: demo_rconf_def)
  moreover have "(receiverConfig demo_rconf)\<lparr>cLastWriteTs := True\<rparr> = file_cfg"
    by (simp add: receiverConfig_def demo_rconf_def file_cfg_def str_def)
  moreover have "NewLogger (\<lambda>_. None) (RLog demo_rconf) = Inr \<lparr>lgLevel = InfoLevel, lgSink = LogStderr\<rparr>"
    by (simp add: NewLogger_def demo_rconf_def lower_def str_def Let_def)
  ultimately show ?thesis using assms by (simp add: runReceiver_def ListenTCP_def new_server_def Let_def)
qed


end
