(* ===== verification/Backpressure.thy ===== *)
theory Backpressure
  imports Poller_Safety Metrics
begin

text \<open>
  The loop around the poller, \<^verbatim>\<open>Poller.Run\<close> of \<^verbatim>\<open>src/internal/sender/poller.go\<close>:
  the usage of the disk that holds the WAL as a floating point ratio, the backpressure states with
  the metrics they set, and the time the poller was paused. Readings of the clock are arguments,
  in nanoseconds of the monotonic clock.
\<close>

section \<open>Disk usage\<close>

record statfs =
  Blocks :: u64
  Bavail :: u64
  Bsize :: u64

text \<open>\<^verbatim>\<open>None\<close> is a failed system call.\<close>

definition WalDiskUsageRatio :: "statfs option \<Rightarrow> float64" where
  "WalDiskUsageRatio res =
     (case res of
        None \<Rightarrow> Fin False 0
      | Some st \<Rightarrow>
          let total = Blocks st * Bsize st; avail = Bavail st * Bsize st in
          if total = 0 then Fin False 0
          else fin False (rnd (of_int (uint (total - avail))) / rnd (of_int (uint total))))"

fun f64_val :: "float64 \<Rightarrow> rat" where
  "f64_val (Fin neg a) = (if neg then - a else a)"
| "f64_val (Inf neg) = (if neg then - (2 ^ 1024) else 2 ^ 1024)"

section \<open>The loop\<close>

fun bpCode :: "bpState \<Rightarrow> int" where
  "bpCode bpNormal = 0"
| "bpCode bpDegraded = 1"
| "bpCode bpPaused = 2"

text \<open>The states are ordered by how much they hold back.\<close>

lemma bpCode_inject: "bpCode a = bpCode b \<longleftrightarrow> a = b"
  by (cases a; cases b) simp_all

instantiation bpState :: linorder
begin

definition less_eq_bpState :: "bpState \<Rightarrow> bpState \<Rightarrow> bool" where
  "less_eq_bpState a b \<longleftrightarrow> bpCode a \<le> bpCode b"

definition less_bpState :: "bpState \<Rightarrow> bpState \<Rightarrow> bool" where
  "less_bpState a b \<longleftrightarrow> bpCode a < bpCode b"

instance
  by standard (auto simp: less_eq_bpState_def less_bpState_def bpCode_inject)

end

text \<open>A fuller disk never holds back less.\<close>

lemma bpNext_mono: "q \<le> q' \<Longrightarrow> bpNext q st \<le> bpNext q' st"
  by (cases st) (auto simp: bpNext_def less_eq_bpState_def bpRedTrigger_def bpYellowTrigger_def bpGreenResume_def)

text \<open>\<^verbatim>\<open>int64(d.Seconds())\<close> of a duration that is not negative.\<close>

definition whole_seconds :: "nat \<Rightarrow> int" where
  "whole_seconds d = int64_of_float (fin False (of_nat (d div 1000000000) + rnd (of_nat (d mod 1000000000) / 1000000000)))"

record poll_loop =
  plState :: bpState
  plPausedStart :: nat
  plMetrics :: Metrics
  plPoller :: poller

text \<open>
  One tick: the state changes on the usage; \<open>now\<close> is the clock where the paused time is
  measured, \<open>now2\<close> where its start is taken again.
\<close>

definition runState :: "float64 \<Rightarrow> nat \<Rightarrow> nat \<Rightarrow> poll_loop \<Rightarrow> poll_loop" where
  "runState usage now now2 s =
     (let u = f64_val usage in
      case plState s of
        bpNormal \<Rightarrow>
          if u \<ge> bpRedTrigger then s\<lparr>plState := bpPaused, plPausedStart := now2\<rparr>
          else if u \<ge> bpYellowTrigger then s\<lparr>plState := bpDegraded\<rparr> else s
      | bpDegraded \<Rightarrow>
          if u \<ge> bpRedTrigger then s\<lparr>plState := bpPaused, plPausedStart := now2\<rparr>
          else if u < bpGreenResume then s\<lparr>plState := bpNormal\<rparr> else s
      | bpPaused \<Rightarrow>
          let s1 = s\<lparr>plMetrics := update (CallAddPausedSeconds (whole_seconds (now - plPausedStart s))) (plMetrics s),
            plPausedStart := now2\<rparr>
          in if u < bpGreenResume then s1\<lparr>plState := bpNormal\<rparr> else s1)"

definition runTick :: "codec \<Rightarrow> PollerConfig \<Rightarrow> statfs option \<Rightarrow> nat \<Rightarrow> nat \<Rightarrow> poll_round \<Rightarrow> poll_loop \<Rightarrow> poll_loop" where
  "runTick cd cfg fs now now2 e s =
     (let usage = WalDiskUsageRatio fs;
          s1 = runState usage now now2 s;
          m = update (CallSetWALDiskRatio usage) (update (CallSetBackpressureStatus (bpCode (plState s1))) (plMetrics s1))
      in if plState s1 = bpPaused then s1\<lparr>plMetrics := update CallIncPollSkip m\<rparr>
         else s1\<lparr>plMetrics := m, plPoller := pollOnce cd cfg e (plPoller s1)\<rparr>)"

section \<open>The ratio\<close>

lemma rnd_one [simp]: "rnd 1 = 1"
  using rnd_nat [of 1] by simp

lemma big_power: "(1 :: rat) < 2 ^ 1024"
  by (rule one_less_power) simp_all

lemma fin_le_one: "0 \<le> q \<Longrightarrow> q \<le> 1 \<Longrightarrow> fin neg q = Fin neg (rnd q)"
  using rnd_mono [of q 1] big_power by (simp add: fin_def not_le)

lemma WalDiskUsageRatio_unit:
  assumes "Bavail st \<le> Blocks st" and "unat (Blocks st) * unat (Bsize st) < 2 ^ 64"
  shows "\<exists>q. WalDiskUsageRatio (Some st) = Fin False q \<and> 0 \<le> q \<and> q \<le> 1"
proof -
  define total avail where "total = Blocks st * Bsize st" and "avail = Bavail st * Bsize st"
  have le: "unat (Bavail st) * unat (Bsize st) \<le> unat (Blocks st) * unat (Bsize st)"
    using assms(1) by (intro mult_right_mono) (simp_all add: word_le_nat_alt)
  have t: "unat total = unat (Blocks st) * unat (Bsize st)" "unat avail = unat (Bavail st) * unat (Bsize st)"
    using assms(2) order.strict_trans1 [OF le assms(2)] by (simp_all add: total_def avail_def unat_mult_lem [symmetric])
  then have "avail \<le> total" using le by (simp add: word_le_nat_alt)
  then have "uint (total - avail) = uint total - uint avail" by (simp add: uint_sub_lem [symmetric] word_le_def)
  then have "uint (total - avail) \<le> uint total" by simp
  then have d: "0 \<le> (of_int (uint (total - avail)) :: rat)" "(of_int (uint (total - avail)) :: rat) \<le> of_int (uint total)"
    by (simp_all only: of_int_le_iff of_int_0_le_iff uint_ge_0)
  show ?thesis
  proof (cases "total = 0")
    case True
    then show ?thesis by (simp add: WalDiskUsageRatio_def total_def Let_def)
  next
    case False
    let ?a = "rnd (of_int (uint (total - avail)))" and ?b = "rnd (of_int (uint total))"
    have "uint total \<noteq> 0" using False by (simp add: uint_0_iff)
    then have "1 \<le> uint total" using uint_ge_0 [of total] by linarith
    then have "(1 :: rat) \<le> of_int (uint total)" by (simp only: of_int_1_le_iff)
    then have b: "1 \<le> ?b" using rnd_mono [of 1 "of_int (uint total)"] by simp
    have ab: "0 \<le> ?a" "?a \<le> ?b" using d by (auto intro: rnd_nonneg rnd_mono)
    then have q: "0 \<le> ?a / ?b" "?a / ?b \<le> 1" using b by (simp_all add: divide_le_eq)
    have "WalDiskUsageRatio (Some st) = Fin False (rnd (?a / ?b))"
      using False fin_le_one [OF q] by (simp add: WalDiskUsageRatio_def total_def avail_def Let_def)
    then show ?thesis using rnd_nonneg [OF q(1)] rnd_mono [OF q] by simp
  qed
qed

section \<open>The loop follows the states\<close>

lemma runState_next: "plState (runState usage now now2 s) = bpNext (f64_val usage) (plState s)"
  "plPoller (runState usage now now2 s) = plPoller s"
  by (cases "plState s"; simp add: runState_def bpNext_def Let_def)+

text \<open>The loop without its metrics is the tick of the poller.\<close>

lemma runTick_tick:
  "(plState (runTick cd cfg fs now now2 e s), plPoller (runTick cd cfg fs now now2 e s)) =
    tick cd cfg (f64_val (WalDiskUsageRatio fs)) e (plState s, plPoller s)"
  by (simp add: runTick_def tick_def Let_def runState_next)

section \<open>Seconds\<close>

lemma rnd_upper:
  assumes "q = 0 \<or> 1 / 10 ^ 12 \<le> q"
  shows "rnd q \<le> q + q / 2 ^ 53"
proof (cases "q = 0")
  case False
  have "(2 :: rat) powi (- 1022) \<le> 2 powi (- 40)" by (rule power_int_increasing) simp_all
  moreover have "(2 :: rat) powi (- 40) \<le> 1 / 10 ^ 12" by (simp add: power_int_def power_one_over)
  ultimately have "2 powi (- 1022) \<le> q" using assms False by linarith
  moreover have "0 < q" using assms False zero_less_power [of "10 :: rat" 12] by auto
  ultimately show ?thesis using rnd_error [of q] by linarith
qed (simp add: rnd_def)

lemma rnd_zero_or_large:
  assumes "q = 0 \<or> 1 / 10 ^ 9 \<le> q"
  shows "rnd q = 0 \<or> 1 / 10 ^ 12 \<le> rnd q"
proof (cases "q = 0")
  case False
  have "(2 :: rat) powi (- 1022) \<le> 2 powi (- 30)" by (rule power_int_increasing) simp_all
  moreover have "(2 :: rat) powi (- 30) \<le> 1 / 10 ^ 9" by (simp add: power_int_def power_one_over)
  ultimately have "0 < q" "2 powi (- 1022) \<le> q" using assms False by auto
  then have "q - q / 2 ^ 53 \<le> rnd q" using rnd_error [of q] by linarith
  then show ?thesis using assms False by auto
qed (simp add: rnd_def)

lemma whole_seconds_small:
  assumes "d < 1000000000"
  shows "whole_seconds d = 0"
proof -
  let ?q = "(of_nat d :: rat) / 1000000000"
  have "(of_nat d :: rat) \<le> of_nat 999999999" using assms by (simp only: of_nat_le_iff)
  then have hi: "?q \<le> 999999999 / 1000000000" by simp
  have lo: "?q = 0 \<or> 1 / 10 ^ 9 \<le> ?q" by (cases "d = 0") (simp_all add: divide_right_mono)
  then have "?q = 0 \<or> 1 / 10 ^ 12 \<le> ?q" by auto
  from rnd_upper [OF this] have r1: "rnd ?q \<le> ?q + ?q / 2 ^ 53" .
  from rnd_upper [OF rnd_zero_or_large [OF lo]] have r2: "rnd (rnd ?q) \<le> rnd ?q + rnd ?q / 2 ^ 53" .
  have "0 \<le> rnd (rnd ?q)" by (intro rnd_nonneg) simp
  moreover have "rnd (rnd ?q) < 1" using hi r1 r2 by simp
  ultimately have "\<lfloor>rnd (rnd ?q)\<rfloor> = 0" "\<not> 2 ^ 1024 \<le> rnd (rnd ?q)" using big_power by (simp_all add: floor_eq_iff)
  then show ?thesis using assms by (simp add: whole_seconds_def fin_def in_i64_def)
qed

section \<open>Properties of the loop\<close>

lemma runTick_state: "plState (runTick cd cfg fs now now2 e s) = plState (runState (WalDiskUsageRatio fs) now now2 s)"
  by (simp add: runTick_def Let_def)

lemma runTick_metrics:
  "mBpStatus (plMetrics (runTick cd cfg fs now now2 e s)) = bpCode (plState (runTick cd cfg fs now now2 e s))"
  "mWalDiskRatio (plMetrics (runTick cd cfg fs now now2 e s)) = int64_of_float (f64_scale 10000 (WalDiskUsageRatio fs))"
  "mPausedSecs (plMetrics (runTick cd cfg fs now now2 e s)) = mPausedSecs (plMetrics (runState (WalDiskUsageRatio fs) now now2 s))"
  "plPausedStart (runTick cd cfg fs now now2 e s) = plPausedStart (runState (WalDiskUsageRatio fs) now now2 s)"
  by (simp_all add: runTick_def Let_def)

lemma ratio_scaled:
  assumes "0 \<le> q" and "q \<le> 1"
  shows "int64_of_float (f64_scale 10000 (Fin False q)) \<in> {0..10000}"
proof -
  let ?r = "rnd (q * 10000)"
  have r: "0 \<le> ?r" "?r \<le> 10000"
    using rnd_nonneg [of "q * 10000"] rnd_mono [of "q * 10000" 10000] rnd_nat [of 10000] assms by simp_all
  have "(10000 :: rat) < 2 ^ 14" by simp
  also have "\<dots> \<le> 2 ^ 1024" by (rule power_increasing) simp_all
  finally have "fin False (q * 10000) = Fin False ?r" using r by (simp add: fin_def not_le)
  moreover have "0 \<le> \<lfloor>?r\<rfloor>" "\<lfloor>?r\<rfloor> \<le> 10000" using r by (simp_all add: floor_le_iff)
  ultimately show ?thesis by (simp add: in_i64_def)
qed


definition full_fs :: statfs where
  "full_fs = \<lparr>Blocks = 1000, Bavail = 0, Bsize = 4096\<rparr>"

definition demo_loop :: poll_loop where
  "demo_loop = \<lparr>plState = bpNormal, plPausedStart = 0, plMetrics = newMetrics, plPoller = new_poller small_wal\<rparr>"

lemma full_fs_ratio: "WalDiskUsageRatio (Some full_fs) = Fin False 1"
proof -
  have "(1 :: rat) \<le> rnd 4096000" using rnd_mono [of 1 4096000] by simp
  then show ?thesis using fin_le_one [of 1 False] by (simp add: WalDiskUsageRatio_def full_fs_def)
qed


text \<open>The ticks of a run, each with its reading of the clock.\<close>

fun runTicks :: "codec \<Rightarrow> PollerConfig \<Rightarrow> (statfs option \<times> nat \<times> poll_round) list \<Rightarrow> poll_loop \<Rightarrow> poll_loop" where
  "runTicks cd cfg [] s = s"
| "runTicks cd cfg ((fs, now, e) # ts) s = runTicks cd cfg ts (runTick cd cfg fs now now e s)"

fun tick_time :: "statfs option \<times> nat \<times> poll_round \<Rightarrow> nat" where
  "tick_time (fs, now, e) = now"

lemma runState_paused:
  assumes "plState s = bpPaused \<longrightarrow> now - plPausedStart s < 1000000000" and "in_i64 (mPausedSecs (plMetrics s))"
  shows "mPausedSecs (plMetrics (runState u now now2 s)) = mPausedSecs (plMetrics s)"
    "plState (runState u now now2 s) = bpPaused \<Longrightarrow> plPausedStart (runState u now now2 s) = now2"
  using assms whole_seconds_small [of "now - plPausedStart s"]
  by (cases "plState s"; auto simp: runState_def Let_def wrap64_id split: if_splits)+

text \<open>
  C37: The metric of the paused time misses short ticks: when the ticks of the loop are less than
  a second apart, as with the default interval of half a second, the paused seconds are never
  counted, however long the poller is paused, because each tick rounds down and starts again.
\<close>

theorem paused_seconds_lost:
  assumes "successively (\<lambda>a b. b - a < 1000000000) (map tick_time ts)"
    and "plState s = bpNormal" and "in_i64 (mPausedSecs (plMetrics s))"
  shows "mPausedSecs (plMetrics (runTicks cd cfg ts s)) = mPausedSecs (plMetrics s)"
proof -
  have "mPausedSecs (plMetrics (runTicks cd cfg ts s)) = mPausedSecs (plMetrics s)"
    if "successively (\<lambda>a b. b - a < 1000000000) (t0 # map tick_time ts)" "plState s = bpPaused \<longrightarrow> plPausedStart s = t0"
      "in_i64 (mPausedSecs (plMetrics s))" for t0
    using that
  proof (induction ts arbitrary: s t0)
    case (Cons t ts)
    obtain fs now e where t: "t = (fs, now, e)" by (cases t)
    let ?s = "runTick cd cfg fs now now e s" and ?r = "runState (WalDiskUsageRatio fs) now now s"
    have "plState s = bpPaused \<longrightarrow> now - plPausedStart s < 1000000000" using Cons.prems t by simp
    note R = runState_paused [OF this Cons.prems(3)]
    have "mPausedSecs (plMetrics ?s) = mPausedSecs (plMetrics s)" using R(1) by (simp add: runTick_metrics)
    moreover have "plState ?s = bpPaused \<longrightarrow> plPausedStart ?s = now" using R(2) by (simp add: runTick_metrics runTick_state)
    moreover have "successively (\<lambda>a b. b - a < 1000000000) (now # map tick_time ts)" using Cons.prems(1) t by simp
    ultimately show ?case using Cons.IH [of now ?s] Cons.prems(3) t by simp
  qed simp
  moreover have "successively (\<lambda>a b. b - a < 1000000000) (hd (map tick_time ts) # map tick_time ts)"
    using assms(1) by (cases ts) auto
  ultimately show ?thesis using assms(2,3) by simp
qed

theorem paused_seconds_lost_witness:
  "let s' = runTicks stored_codec demo_pcfg [(Some full_fs, 1000000000, demo_round), (Some full_fs, 1900000000, demo_round),
     (Some full_fs, 2800000000, demo_round)] demo_loop
   in plState s' = bpPaused \<and> mPausedSecs (plMetrics s') = 0"
proof -
  let ?ts = "[(Some full_fs, 1000000000, demo_round), (Some full_fs, 1900000000, demo_round), (Some full_fs, 2800000000, demo_round)]"
  have "plState (runTicks stored_codec demo_pcfg ?ts demo_loop) = bpPaused"
    by (simp add: runTick_state runState_next full_fs_ratio demo_loop_def bpNext_def bpRedTrigger_def bpGreenResume_def)
  then show ?thesis using paused_seconds_lost [of ?ts demo_loop stored_codec demo_pcfg]
    by (simp add: demo_loop_def newMetrics_def in_i64_def Let_def)
qed

end
