(* ===== verification/Link_Proxy.thy ===== *)
theory Link_Proxy
  imports Transport Go_Text
begin

text \<open>
  The counting proxy of the benchmark, \<^verbatim>\<open>src/bench/linkproxy/main.go\<close>, and what it is
  to the program: a link between sender and receiver. What a read returns and how a write ends are
  events; a failing write may have delivered a part.
\<close>

section \<open>Links\<close>

text \<open>
  A link delivers a part of what is put in, from its start and in order. Whatever happens on it,
  the server behind it serves the frames that were sent.
\<close>

locale byte_link =
  fixes forward :: "'e \<Rightarrow> bytes \<Rightarrow> bytes"
  assumes forward_prefix: "prefix (forward e bs) bs"
begin

lemma forward_two: "prefix (forward e2 (forward e1 bs)) bs"
  using forward_prefix prefix_order.order_trans by blast

lemma server_behind_link:
  assumes "(conn_step cfg)\<^sup>*\<^sup>* (new_conn (forward e bs)) c" and "0 < MaxInflight cfg" and "prefix bs (concat fs)"
    and "\<forall>f\<in>set fs. framed f"
  shows "prefix (map snd (seen c)) fs" and "\<forall>k < length (wire c). answers c (int k) = Some (wire c ! k)"
proof -
  have p: "prefix (forward e bs) (concat fs)" using forward_prefix assms(3) prefix_order.order_trans by blast
  note inv = conn_steps_inv [OF assms(1,2)] and st = stream_inv [OF assms(1,2) p assms(4)]
  show "prefix (map snd (seen c)) fs" using st by blast
  show "\<forall>k < length (wire c). answers c (int k) = Some (wire c ! k)" using wire_answers(2) [OF inv] st by blast
qed

end

section \<open>The proxy\<close>

definition bufLen :: nat where "bufLen = 65536"

text \<open>
  One round: how many bytes are there to read, whether the read ends with an error, and how the
  write ends, \<open>Some k\<close> for a failure after \<open>k\<close> bytes.
\<close>

type_synonym pipe_event = "nat \<times> bool \<times> nat option"

fun pipe_loop :: "pipe_event list \<Rightarrow> bytes \<Rightarrow> bytes \<times> u64 \<Rightarrow> bytes \<times> u64" where
  "pipe_loop [] src st = st"
| "pipe_loop ((n, err, w) # es) src (dst, count) =
     (let b = take (min n bufLen) src in
      if b = [] then (if err then (dst, count) else pipe_loop es src (dst, count))
      else (case w of
              Some k \<Rightarrow> (dst @ take k b, count)
            | None \<Rightarrow>
                if err then (dst @ b, count + word_of_nat (length b))
                else pipe_loop es (drop (length b) src) (dst @ b, count + word_of_nat (length b))))"

definition proxied :: "pipe_event list \<Rightarrow> bytes \<Rightarrow> bytes" where
  "proxied es src = fst (pipe_loop es src ([], 0))"

record proxy =
  txBytes :: u64
  rxBytes :: u64
  proxyConns :: int

text \<open>
  \<^verbatim>\<open>handle\<close>: the connection is counted while it is served; it is forwarded both ways
  unless the target cannot be reached. What each side received is returned.
\<close>

definition handleProxy :: "bool \<Rightarrow> pipe_event list \<Rightarrow> bytes \<Rightarrow> pipe_event list \<Rightarrow> bytes \<Rightarrow> proxy \<Rightarrow> (bytes \<times> bytes) \<times> proxy" where
  "handleProxy dialled fwd up back down p =
     (let p1 = p\<lparr>proxyConns := wrap64 (proxyConns p + 1)\<rparr> in
      if \<not> dialled then (([], []), p1\<lparr>proxyConns := wrap64 (proxyConns p1 - 1)\<rparr>)
      else
        let r = pipe_loop back down ([], rxBytes p1); t = pipe_loop fwd up ([], txBytes p1) in
        ((fst t, fst r), p1\<lparr>rxBytes := snd r, txBytes := snd t, proxyConns := wrap64 (proxyConns p1 - 1)\<rparr>))"

definition proxy_page :: "proxy \<Rightarrow> bytes" where
  "proxy_page p = str ''linkproxy_tx_bytes_total '' @ dec_digits (unat (txBytes p)) @ [newline] @
     str ''linkproxy_rx_bytes_total '' @ dec_digits (unat (rxBytes p)) @ [newline] @
     str ''linkproxy_conns '' @ show_int (proxyConns p) @ [newline]"

section \<open>The proxy is a link\<close>

lemma pipe_result:
  "\<exists>d k. pipe_loop es src (dst, count) = (dst @ d, count + word_of_nat k) \<and> prefix d src \<and> k \<le> length d \<and>
     ((\<forall>e\<in>set es. snd (snd e) = None) \<longrightarrow> k = length d)"
proof (induction es src "(dst, count)" arbitrary: dst count rule: pipe_loop.induct)
  case (2 n err w es src dst count)
  let ?b = "take (min n bufLen) src"
  have pb: "prefix ?b src" by (simp add: take_is_prefix)
  have "?b = [] \<or> ?b \<noteq> []" by blast
  then consider (stop) "?b = []" err | (wait) "?b = []" "\<not> err" | (part) k where "?b \<noteq> []" "w = Some k"
    | (last) "?b \<noteq> []" "w = None" err | (more) "?b \<noteq> []" "w = None" "\<not> err" by (cases w; cases err) (blast+)
  then show ?case
  proof cases
    case wait
    from 2(1) [OF refl wait] obtain d k where
      "pipe_loop es src (dst, count) = (dst @ d, count + word_of_nat k)" "prefix d src" "k \<le> length d"
      "(\<forall>e\<in>set es. snd (snd e) = None) \<longrightarrow> k = length d" by blast
    then show ?thesis using wait by (intro exI [of _ d] exI [of _ k]) (simp add: Let_def)
  next
    case (part k)
    have "prefix (take k ?b) src" using pb take_is_prefix prefix_order.order_trans by blast
    then show ?thesis using part by (intro exI [of _ "take k ?b"] exI [of _ 0]) (auto simp: Let_def)
  next
    case last
    then show ?thesis using pb by (intro exI [of _ ?b] exI [of _ "length ?b"]) (simp add: Let_def)
  next
    case more
    let ?st = "(dst @ ?b, count + word_of_nat (length ?b))"
    from 2(2) [OF refl more] obtain d k where
      dk: "pipe_loop es (drop (length ?b) src) ?st = ((dst @ ?b) @ d, (count + word_of_nat (length ?b)) + word_of_nat k)"
        "prefix d (drop (length ?b) src)" "k \<le> length d" "(\<forall>e\<in>set es. snd (snd e) = None) \<longrightarrow> k = length d" by blast
    have "prefix (?b @ d) (?b @ drop (length ?b) src)" using dk(2) by simp
    moreover have "?b @ drop (length ?b) src = src" by (metis append_eq_conv_conj pb prefix_def)
    ultimately have "prefix (?b @ d) src" by (simp only:)
    then show ?thesis using more dk(1,3,4)
      by (intro exI [of _ "?b @ d"] exI [of _ "length ?b + k"]) (auto simp: Let_def add.assoc simp del: length_take)
  qed simp_all
qed simp

interpretation proxy_link: byte_link proxied
proof
  fix es bs
  obtain d k where "pipe_loop es bs ([], 0) = ([] @ d, 0 + word_of_nat k)" "prefix d bs" using pipe_result [of es bs "[]" 0] by blast
  then show "prefix (proxied es bs) bs" by (simp add: proxied_def)
qed

section \<open>Properties of the proxy\<close>

text \<open>
  C40: A proxy in the connection changes nothing the program relies on: whatever reads and writes
  on it do, the server behind it reads a prefix of the frames that were sent and answers the k-th
  of them with the k-th byte; and the proxy counts no byte that it did not deliver, all of them
  when no write fails.
\<close>

theorem proxy_transparent:
  assumes "(conn_step cfg)\<^sup>*\<^sup>* (new_conn (proxied es (concat fs))) c" and "0 < MaxInflight cfg" and "\<forall>f\<in>set fs. framed f"
  shows "prefix (map snd (seen c)) fs \<and> (\<forall>k < length (wire c). answers c (int k) = Some (wire c ! k)) \<and>
    (\<exists>n. snd (pipe_loop es (concat fs) ([], 0)) = word_of_nat n \<and> n \<le> length (proxied es (concat fs)) \<and>
      ((\<forall>e\<in>set es. snd (snd e) = None) \<longrightarrow> n = length (proxied es (concat fs))))"
proof -
  have "\<exists>n. snd (pipe_loop es (concat fs) ([], 0)) = word_of_nat n \<and> n \<le> length (proxied es (concat fs)) \<and>
      ((\<forall>e\<in>set es. snd (snd e) = None) \<longrightarrow> n = length (proxied es (concat fs)))"
  proof -
    obtain d k where "pipe_loop es (concat fs) ([], 0) = ([] @ d, 0 + word_of_nat k)" "k \<le> length d"
      "(\<forall>e\<in>set es. snd (snd e) = None) \<longrightarrow> k = length d" using pipe_result [of es "concat fs" "[]" 0] by blast
    then show ?thesis by (intro exI [of _ k]) (simp add: proxied_def)
  qed
  then show ?thesis using proxy_link.server_behind_link [OF assms(1,2) _ assms(3)] by simp
qed

theorem proxy_transparent_witness:
  "\<exists>c. (conn_step demo_server)\<^sup>*\<^sup>* (new_conn (proxied [(16, False, None), (100, False, None)] demo_bytes)) c \<and>
    wire c = [AckSuccess] \<and> map snd (seen c) = [demo_bytes] \<and> answers c 0 = Some AckSuccess"
proof -
  let ?es = "[(16, False, None), (100, False, None)] :: pipe_event list"
  have len: "length demo_bytes = 20" by (simp add: demo_bytes_def encodeRaw_def putHeader_def)
  have p: "proxied ?es demo_bytes = demo_bytes"
    using len append_take_drop_id [of 16 demo_bytes] by (auto simp: proxied_def bufLen_def Let_def)
  obtain c where c: "(conn_step demo_server)\<^sup>*\<^sup>* (new_conn demo_bytes) c" "wire c = [AckSuccess]" "map snd (seen c) = [demo_bytes]"
    using one_frame_served [OF demo_bytes_framed demo_server_inflight, of AckSuccess] by auto
  have run: "(conn_step demo_server)\<^sup>*\<^sup>* (new_conn (proxied ?es (concat [demo_bytes]))) c" using c(1) by (simp add: p)
  have "\<forall>k < length (wire c). answers c (int k) = Some (wire c ! k)"
    using proxy_transparent [OF run demo_server_inflight] demo_bytes_framed by simp
  then have "answers c (int 0) = Some (wire c ! 0)" using c(2) by (metis length_Cons zero_less_Suc)
  then show ?thesis using c by (intro exI [of _ c]) (simp add: p)
qed

end
