(* ===== verification/Receiver_Site.thy ===== *)
theory Receiver_Site
  imports Tcp_Server Receiver_Safety
begin

text \<open>
  The receiving process as \<^verbatim>\<open>src/cmd/receiver/main.go\<close> starts it: the TCP server with the
  receiver as its frame handler. One step relation interleaves the accept loop, the readers and
  writers of the connections, and the handlers, each of which is admitted and completed in its own
  time, also when its connection has ended meanwhile. A run projects to a run of the server and
  to a run of the receiver, and every positive answer on a connection is an acknowledgement of
  the receiver for the frame it answers.
\<close>

section \<open>The site\<close>

text \<open>
  \<open>hist\<close> are the connections accepted so far, the ended ones too, by their number;
  \<open>tasks\<close> the handlers between admission and completion: connection, position of the
  frame on it, and the decoded frame.
\<close>

record site =
  srv :: server
  rsy :: rsys
  hist :: "u64 \<rightharpoonup> server_conn"
  tasks :: "((u64 \<times> int) \<times> Frame) list"

definition site_start :: "Receiver \<Rightarrow> site" where
  "site_start r = \<lparr>srv = new_server, rsy = sys_start r, hist = (\<lambda>_. None), tasks = []\<rparr>"

definition putConn :: "u64 \<Rightarrow> server_conn \<Rightarrow> site \<Rightarrow> site" where
  "putConn i c S = S\<lparr>srv := (srv S)\<lparr>sConns := (if i \<in> dom (sConns (srv S)) then (sConns (srv S))(i \<mapsto> c) else sConns (srv S))\<rparr>,
     hist := (hist S)(i \<mapsto> c)\<rparr>"

text \<open>What a connection does besides its handlers: its reader, its writer, and its peer.\<close>

definition conn_io :: "ServerConfig \<Rightarrow> server_conn \<Rightarrow> server_conn \<Rightarrow> bool" where
  "conn_io cfg c c' \<longleftrightarrow> (\<exists>ok. readStep cfg ok c = Some c') \<or> (\<exists>ok. writeStep ok c = Some c') \<or> c' = stopReading c"

text \<open>The effects of a handler on the receiver: an immediate answer, the admission, the completion.\<close>

definition answerNow :: "byte \<Rightarrow> bytes \<Rightarrow> Receiver \<Rightarrow> rsys \<Rightarrow> rsys" where
  "answerNow a fb r R = R\<lparr>rcv := r,
     acked_frames := (case Decode fb of Inl _ \<Rightarrow> acked_frames R | Inr f \<Rightarrow> ack_frame a f (acked_frames R))\<rparr>"

definition handlerStarts :: "Frame \<Rightarrow> Receiver \<Rightarrow> rsys \<Rightarrow> rsys" where
  "handlerStarts f r R = R\<lparr>rcv := r, running := add_mset f (running R),
     skipped := skipped R \<union> {q. tLast (seqOrd (rcv R)) < q \<and> q \<le> tLast (seqOrd r)}\<rparr>"

definition handlerEnds :: "byte \<Rightarrow> Frame \<Rightarrow> Receiver \<Rightarrow> rsys \<Rightarrow> rsys" where
  "handlerEnds a f r R = R\<lparr>rcv := r, running := running R - {#f#},
     acked_frames := ack_frame a f (acked_frames R),
     finished := (if a = AckSuccess then insert (fSeq f) (finished R) else finished R),
     skipped := (if a = AckSuccess \<and> fSeq f > tLast (seqOrd (rcv R)) + seqJumpLimit
       then skipped R \<union> {q. tLast (seqOrd (rcv R)) < q \<and> q < fSeq f} else skipped R)\<rparr>"

text \<open>
  A new connection gets a number that no earlier one had, which holds for the first \<open>2 ^ 64\<close>
  of them.
\<close>

inductive site_step :: "codec \<Rightarrow> RecvConfig \<Rightarrow> ServerConfig \<Rightarrow> site \<Rightarrow> site \<Rightarrow> bool" for cd rcfg scfg where
  server: "srv_step scfg (srv S) v \<Longrightarrow> sConns v \<subseteq>\<^sub>m sConns (srv S) \<Longrightarrow> site_step cd rcfg scfg S (S\<lparr>srv := v\<rparr>)"
| connect: "sServing (srv S) \<Longrightarrow> sListening (srv S) \<Longrightarrow> sConnSeq (srv S) + 1 \<notin> dom (hist S) \<Longrightarrow>
    v = serveConn scfg bs (srv S) \<Longrightarrow> site_step cd rcfg scfg S (S\<lparr>srv := v, hist := hist S ++ sConns v\<rparr>)"
| io: "sConns (srv S) i = Some c \<Longrightarrow> conn_io scfg c c' \<Longrightarrow> site_step cd rcfg scfg S (putConn i c' S)"
| reply: "hist S i = Some c \<Longrightarrow> k \<in> handling c \<Longrightarrow> (i, k) \<notin> fst ` set (tasks S) \<Longrightarrow> seen c ! nat k = (j, fb) \<Longrightarrow>
    admit rcfg e (unat j) fb (rcv (rsy S)) = (Reply a, r) \<Longrightarrow>
    site_step cd rcfg scfg S (putConn i (handlerDone k a c) (S\<lparr>rsy := answerNow a fb r (rsy S)\<rparr>))"
| start: "hist S i = Some c \<Longrightarrow> k \<in> handling c \<Longrightarrow> (i, k) \<notin> fst ` set (tasks S) \<Longrightarrow> seen c ! nat k = (j, fb) \<Longrightarrow>
    admit rcfg e (unat j) fb (rcv (rsy S)) = (Proceed f, r) \<Longrightarrow>
    site_step cd rcfg scfg S (S\<lparr>rsy := handlerStarts f r (rsy S), tasks := ((i, k), f) # tasks S\<rparr>)"
| finish: "tasks S = ts @ ((i, k), f) # us \<Longrightarrow> hist S i = Some c \<Longrightarrow> complete cd rcfg e f (rcv (rsy S)) = (a, r) \<Longrightarrow>
    site_step cd rcfg scfg S (putConn i (handlerDone k a c) (S\<lparr>rsy := handlerEnds a f r (rsy S), tasks := ts @ us\<rparr>))"

section \<open>The receiver's steps\<close>

lemma rstep_answer:
  assumes "admit cfg e j fb (rcv R) = (Reply a, r)"
  shows "rstep cd cfg R (answerNow a fb r R)"
proof (cases "Decode fb")
  case (Inl err)
  then show ?thesis using rstep.refuse [where cd = cd, OF assms Inl] by (simp add: answerNow_def)
next
  case (Inr f)
  then show ?thesis using rstep.reply [where cd = cd, OF assms Inr] by (simp add: answerNow_def)
qed

lemma rstep_starts: "admit cfg e j fb (rcv R) = (Proceed f, r) \<Longrightarrow> rstep cd cfg R (handlerStarts f r R)"
  unfolding handlerStarts_def by (rule rstep.start)

lemma rstep_ends: "f \<in># running R \<Longrightarrow> complete cd cfg e f (rcv R) = (a, r) \<Longrightarrow> rstep cd cfg R (handlerEnds a f r R)"
  unfolding handlerEnds_def by (rule rstep.finish)

lemma acked_grows: "A \<subseteq> ack_frame a f A"
  by (auto simp: ack_frame_def)

section \<open>The invariant\<close>

definition acks_known :: "Frame set \<Rightarrow> server_conn \<Rightarrow> bool" where
  "acks_known A c \<longleftrightarrow> (\<forall>k < length (seen c). answers c (int k) = Some AckSuccess \<longrightarrow>
     (\<exists>f. Decode (snd (seen c ! k)) = Inr f \<and> f \<in> A))"

definition task_ok :: "(u64 \<rightharpoonup> server_conn) \<Rightarrow> (u64 \<times> int) \<times> Frame \<Rightarrow> bool" where
  "task_ok H t = (case t of ((i, k), f) \<Rightarrow>
     \<exists>c. H i = Some c \<and> k \<in> handling c \<and> Decode (snd (seen c ! nat k)) = Inr f)"

definition site_inv :: "codec \<Rightarrow> RecvConfig \<Rightarrow> ServerConfig \<Rightarrow> Receiver \<Rightarrow> site \<Rightarrow> bool" where
  "site_inv cd rcfg scfg r S \<longleftrightarrow> (srv_step scfg)\<^sup>*\<^sup>* new_server (srv S) \<and> (rstep cd rcfg)\<^sup>*\<^sup>* (sys_start r) (rsy S) \<and>
     sConns (srv S) \<subseteq>\<^sub>m hist S \<and> running (rsy S) = mset (map snd (tasks S)) \<and> distinct (map fst (tasks S)) \<and>
     (\<forall>t\<in>set (tasks S). task_ok (hist S) t) \<and>
     (\<forall>i c. hist S i = Some c \<longrightarrow> (\<exists>bs. (conn_step scfg)\<^sup>*\<^sup>* (new_conn bs) c) \<and> acks_known (acked_frames (rsy S)) c)"

lemma site_inv_conn:
  assumes "site_inv cd rcfg scfg r S" and "hist S i = Some c"
  shows "\<exists>bs. (conn_step scfg)\<^sup>*\<^sup>* (new_conn bs) c" and "acks_known (acked_frames (rsy S)) c"
  using assms by (auto simp: site_inv_def)

lemma site_inv_task: "site_inv cd rcfg scfg r S \<Longrightarrow> t \<in> set (tasks S) \<Longrightarrow> task_ok (hist S) t"
  by (simp add: site_inv_def)

lemma site_start_inv: "site_inv cd rcfg scfg r (site_start r)"
  by (simp add: site_inv_def site_start_def new_server_def sys_start_def)

lemma task_ok_mono:
  assumes "task_ok H t" and "\<And>i c. H i = Some c \<Longrightarrow> \<exists>c'. H' i = Some c' \<and> handling c \<subseteq> handling c' \<and>
      (\<forall>k\<in>handling c. seen c' ! nat k = seen c ! nat k)"
  shows "task_ok H' t"
  using assms unfolding task_ok_def by (fastforce split: prod.splits)

lemma task_ok_sub: "task_ok H t \<Longrightarrow> H \<subseteq>\<^sub>m H' \<Longrightarrow> task_ok H' t"
  by (erule task_ok_mono) (metis domI map_le_def order_refl)

lemma acks_known_mono: "acks_known A c \<Longrightarrow> A \<subseteq> B \<Longrightarrow> acks_known B c"
  unfolding acks_known_def by blast

lemma handling_seen:
  assumes "conn_inv cfg bs c" and "k \<in> handling c"
  shows "0 \<le> k" and "nat k < length (seen c)"
proof -
  have "k \<in> {wIdx c ..< rIdx c}" "0 \<le> wIdx c" "int (length (seen c)) = rIdx c" using assms by (auto simp: conn_inv_def)
  then show "0 \<le> k" "nat k < length (seen c)" by auto
qed

lemma readStep_keeps:
  assumes "readStep cfg ok c = Some c'"
  shows "answers c' = answers c" and "handling c \<subseteq> handling c'" and "\<exists>s. seen c' = seen c @ s"
  using assms
  by (auto simp: readStep_def stopReading_def split: if_splits readout.splits option.splits bool.splits)

lemma writeStep_keeps:
  assumes "writeStep ok c = Some c'"
  shows "answers c' = answers c" and "handling c' = handling c" and "seen c' = seen c"
  using assms by (auto simp: writeStep_def split: if_splits option.splits)

lemma conn_io_keeps:
  assumes "conn_io cfg c c'"
  shows "conn_step cfg c c'" and "answers c' = answers c" and "handling c \<subseteq> handling c'" and "\<exists>s. seen c' = seen c @ s"
proof -
  show "conn_step cfg c c'" using assms by (auto simp: conn_io_def intro: conn_step.intros)
  show "answers c' = answers c" "handling c \<subseteq> handling c'" "\<exists>s. seen c' = seen c @ s"
    using assms readStep_keeps [of cfg _ c c'] writeStep_keeps [of _ c c'] by (auto simp: conn_io_def stopReading_def)
qed

lemma putConn_simps [simp]:
  "rsy (putConn i c S) = rsy S" "tasks (putConn i c S) = tasks S" "hist (putConn i c S) = (hist S)(i \<mapsto> c)"
  by (simp_all add: putConn_def)

lemma putConn_srv:
  assumes "(srv_step scfg)\<^sup>*\<^sup>* new_server (srv S)" and "sConns (srv S) \<subseteq>\<^sub>m hist S" and "hist S i = Some c" and "conn_step scfg c c'"
  shows "(srv_step scfg)\<^sup>*\<^sup>* new_server (srv (putConn i c' S))" and "sConns (srv (putConn i c' S)) \<subseteq>\<^sub>m (hist S)(i \<mapsto> c')"
proof -
  show "sConns (srv (putConn i c' S)) \<subseteq>\<^sub>m (hist S)(i \<mapsto> c')" using assms(2) by (auto simp: putConn_def map_le_def)
  show "(srv_step scfg)\<^sup>*\<^sup>* new_server (srv (putConn i c' S))"
  proof (cases "i \<in> dom (sConns (srv S))")
    case True
    then have "sConns (srv S) i = Some c" using assms(2,3) by (metis map_le_def)
    from srv_step.conn [OF this assms(4)] True show ?thesis
      by (simp add: putConn_def rtranclp.rtrancl_into_rtrancl [OF assms(1)])
  next
    case False
    then show ?thesis using assms(1) by (simp add: putConn_def)
  qed
qed

lemma map_add_sub: "m \<subseteq>\<^sub>m n \<Longrightarrow> n ++ m = n"
  by (force simp: map_le_def map_add_def fun_eq_iff split: option.split)

lemma connect_inv:
  assumes inv: "site_inv cd rcfg scfg r S" and on: "sServing (srv S)" "sListening (srv S)"
    and fresh: "sConnSeq (srv S) + 1 \<notin> dom (hist S)" and v: "v = serveConn scfg bs (srv S)"
  shows "site_inv cd rcfg scfg r (S\<lparr>srv := v, hist := hist S ++ sConns v\<rparr>)"
proof -
  let ?i = "sConnSeq (srv S) + 1"
  have run: "(srv_step scfg)\<^sup>*\<^sup>* new_server v"
  proof (rule rtranclp.rtrancl_into_rtrancl)
    show "(srv_step scfg)\<^sup>*\<^sup>* new_server (srv S)" using inv by (simp add: site_inv_def)
    show "srv_step scfg (srv S) v" unfolding v by (rule srv_step.connect [OF on])
  qed
  have le: "sConns (srv S) \<subseteq>\<^sub>m hist S" using inv by (simp add: site_inv_def)
  have "sConns v \<in> {sConns (srv S), (sConns (srv S))(?i \<mapsto> new_conn bs)}"
    using v by (auto simp: serveConn_def acceptConn_def)
  then have hist: "hist S ++ sConns v = hist S \<or> hist S ++ sConns v = (hist S)(?i \<mapsto> new_conn bs)"
    using map_add_sub [OF le] by auto
  have ok: "(\<exists>bs. (conn_step scfg)\<^sup>*\<^sup>* (new_conn bs) c) \<and> acks_known (acked_frames (rsy S)) c"
    if c: "(hist S ++ sConns v) i = Some c" for i c
  proof (cases "hist S i = Some c")
    case True
    then show ?thesis using site_inv_conn [OF inv] by blast
  next
    case False
    then have "((hist S)(?i \<mapsto> new_conn bs)) i = Some c" using hist c by metis
    then have "c = new_conn bs" using False by (auto split: if_splits)
    moreover have "acks_known A (new_conn bs)" for A by (simp add: acks_known_def new_conn_def)
    ultimately show ?thesis by blast
  qed
  have "hist S \<subseteq>\<^sub>m hist S ++ sConns v" using hist fresh by (auto simp: map_le_def)
  then have "task_ok (hist S ++ sConns v) t" if "t \<in> set (tasks S)" for t
    by (rule task_ok_sub [OF site_inv_task [OF inv that]])
  then show ?thesis using inv run ok by (simp add: site_inv_def map_le_map_add)
qed

lemma io_inv:
  assumes inv: "site_inv cd rcfg scfg r S" and c: "sConns (srv S) i = Some c" and io: "conn_io scfg c c'"
    and mi: "0 < MaxInflight scfg"
  shows "site_inv cd rcfg scfg r (putConn i c' S)"
proof -
  note K = conn_io_keeps [OF io]
  have run: "(srv_step scfg)\<^sup>*\<^sup>* new_server (srv S)" "sConns (srv S) \<subseteq>\<^sub>m hist S" using inv by (simp_all add: site_inv_def)
  then have h: "hist S i = Some c" using c by (metis domI map_le_def)
  obtain bs where bs: "(conn_step scfg)\<^sup>*\<^sup>* (new_conn bs) c" using site_inv_conn(1) [OF inv h] ..
  have ci: "conn_inv scfg bs c" by (rule conn_steps_inv [OF bs mi])
  obtain s where s: "seen c' = seen c @ s" using K(4) ..
  have "acks_known (acked_frames (rsy S)) c'" unfolding acks_known_def
  proof (intro allI impI)
    fix k assume k: "k < length (seen c')" "answers c' (int k) = Some AckSuccess"
    then have "k < length (seen c)" using ci K(2) by (force simp: conn_inv_def)
    then show "\<exists>f. Decode (snd (seen c' ! k)) = Inr f \<and> f \<in> acked_frames (rsy S)"
      using site_inv_conn(2) [OF inv h] k(2) K(2) s by (simp add: acks_known_def nth_append)
  qed
  moreover have "(conn_step scfg)\<^sup>*\<^sup>* (new_conn bs) c'" using bs K(1) by (rule rtranclp.rtrancl_into_rtrancl)
  moreover have "task_ok ((hist S)(i \<mapsto> c')) t" if "t \<in> set (tasks S)" for t
  proof (rule task_ok_mono [OF site_inv_task [OF inv that]])
    fix j d assume "hist S j = Some d"
    then show "\<exists>d'. ((hist S)(i \<mapsto> c')) j = Some d' \<and> handling d \<subseteq> handling d' \<and> (\<forall>k\<in>handling d. seen d' ! nat k = seen d ! nat k)"
      using h K(3) s handling_seen(2) [OF ci] by (cases "j = i") (auto simp: nth_append)
  qed
  ultimately show ?thesis using inv putConn_srv [OF run h K(1)] by (auto simp: site_inv_def)
qed

text \<open>A handler returns: its answer is known to the receiver, and the other handlers go on.\<close>

lemma handler_inv:
  assumes inv: "site_inv cd rcfg scfg r S" and h: "hist S i = Some c" and k: "k \<in> handling c" and mi: "0 < MaxInflight scfg"
    and R: "rstep cd rcfg (rsy S) R" "acked_frames (rsy S) \<subseteq> acked_frames R"
    and ts: "running R = mset (map snd ts)" "distinct (map fst ts)" "set ts \<subseteq> set (tasks S)" "(i, k) \<notin> fst ` set ts"
    and a: "a = AckSuccess \<Longrightarrow> \<exists>f. Decode (snd (seen c ! nat k)) = Inr f \<and> f \<in> acked_frames R"
  shows "site_inv cd rcfg scfg r (putConn i (handlerDone k a c) (S\<lparr>rsy := R, tasks := ts\<rparr>))"
proof -
  let ?S = "S\<lparr>rsy := R, tasks := ts\<rparr>" and ?c = "handlerDone k a c"
  have st: "conn_step scfg c ?c" by (rule conn_step.handler [OF k])
  obtain bs where bs: "(conn_step scfg)\<^sup>*\<^sup>* (new_conn bs) c" using site_inv_conn(1) [OF inv h] ..
  have run: "(srv_step scfg)\<^sup>*\<^sup>* new_server (srv ?S)" "sConns (srv ?S) \<subseteq>\<^sub>m hist ?S" "hist ?S i = Some c"
    using inv h by (simp_all add: site_inv_def)
  have rec: "(rstep cd rcfg)\<^sup>*\<^sup>* (sys_start r) R"
    using R(1) inv by (auto simp: site_inv_def intro: rtranclp.rtrancl_into_rtrancl)
  have "acks_known (acked_frames R) ?c"
    using acks_known_mono [OF site_inv_conn(2) [OF inv h] R(2)] a handling_seen [OF conn_steps_inv [OF bs mi] k]
    by (auto simp: acks_known_def handlerDone_def)
  moreover have "(conn_step scfg)\<^sup>*\<^sup>* (new_conn bs) ?c" using bs st by (rule rtranclp.rtrancl_into_rtrancl)
  moreover have "task_ok ((hist S)(i \<mapsto> ?c)) t" if "t \<in> set ts" for t
  proof -
    have "task_ok (hist S) t" using ts(3) that by (intro site_inv_task [OF inv]) blast
    moreover have "fst t \<noteq> (i, k)" using ts(4) that by force
    ultimately show ?thesis using h by (auto simp: task_ok_def handlerDone_def split: prod.splits if_splits)
  qed
  moreover have "acks_known (acked_frames R) d \<and> (\<exists>bs. (conn_step scfg)\<^sup>*\<^sup>* (new_conn bs) d)" if "hist S j = Some d" for j d
    using site_inv_conn [OF inv that] acks_known_mono R(2) by blast
  ultimately show ?thesis using putConn_srv [OF run st] rec ts(1,2) unfolding site_inv_def by auto
qed

lemma reply_inv:
  assumes inv: "site_inv cd rcfg scfg r S" and h: "hist S i = Some c" and k: "k \<in> handling c"
    and new: "(i, k) \<notin> fst ` set (tasks S)" and fb: "seen c ! nat k = (j, fb)"
    and ad: "admit rcfg e (unat j) fb (rcv (rsy S)) = (Reply a, r')" and mi: "0 < MaxInflight scfg"
  shows "site_inv cd rcfg scfg r (putConn i (handlerDone k a c) (S\<lparr>rsy := answerNow a fb r' (rsy S)\<rparr>))"
proof -
  have "site_inv cd rcfg scfg r (putConn i (handlerDone k a c) (S\<lparr>rsy := answerNow a fb r' (rsy S), tasks := tasks S\<rparr>))"
  proof (rule handler_inv [OF inv h k mi rstep_answer [OF ad] _ _ _ _ new])
    show "acked_frames (rsy S) \<subseteq> acked_frames (answerNow a fb r' (rsy S))"
      using acked_grows by (auto simp: answerNow_def split: sum.split)
    show "running (answerNow a fb r' (rsy S)) = mset (map snd (tasks S))" "distinct (map fst (tasks S))"
      using inv by (simp_all add: site_inv_def answerNow_def)
    assume "a = AckSuccess"
    then obtain f where "Decode fb = Inr f" using ad by (auto simp: admit_def frame_consts split: sum.splits if_splits)
    then show "\<exists>f. Decode (snd (seen c ! nat k)) = Inr f \<and> f \<in> acked_frames (answerNow a fb r' (rsy S))"
      using fb \<open>a = AckSuccess\<close> by (simp add: answerNow_def ack_frame_def)
  qed simp
  then show ?thesis by simp
qed

lemma start_inv:
  assumes inv: "site_inv cd rcfg scfg r S" and h: "hist S i = Some c" and k: "k \<in> handling c"
    and new: "(i, k) \<notin> fst ` set (tasks S)" and fb: "seen c ! nat k = (j, fb)"
    and ad: "admit rcfg e (unat j) fb (rcv (rsy S)) = (Proceed f, r')"
  shows "site_inv cd rcfg scfg r (S\<lparr>rsy := handlerStarts f r' (rsy S), tasks := ((i, k), f) # tasks S\<rparr>)"
proof -
  have "Decode fb = Inr f" using ad by (auto simp: admit_def split: sum.splits if_splits)
  then have "task_ok (hist S) ((i, k), f)" using h k fb by (simp add: task_ok_def)
  moreover have "(rstep cd rcfg)\<^sup>*\<^sup>* (sys_start r) (handlerStarts f r' (rsy S))"
    using inv rstep_starts [OF ad] by (auto simp: site_inv_def intro: rtranclp.rtrancl_into_rtrancl)
  moreover have "acked_frames (handlerStarts f r' (rsy S)) = acked_frames (rsy S)"
    "running (handlerStarts f r' (rsy S)) = add_mset f (running (rsy S))" by (simp_all add: handlerStarts_def)
  ultimately show ?thesis using inv new by (simp add: site_inv_def)
qed

lemma finish_inv:
  assumes inv: "site_inv cd rcfg scfg r S" and ts: "tasks S = ts @ ((i, k), f) # us" and h: "hist S i = Some c"
    and co: "complete cd rcfg e f (rcv (rsy S)) = (a, r')" and mi: "0 < MaxInflight scfg"
  shows "site_inv cd rcfg scfg r (putConn i (handlerDone k a c) (S\<lparr>rsy := handlerEnds a f r' (rsy S), tasks := ts @ us\<rparr>))"
proof -
  have "task_ok (hist S) ((i, k), f)" using ts by (intro site_inv_task [OF inv]) simp
  then have k: "k \<in> handling c" "Decode (snd (seen c ! nat k)) = Inr f" using h by (auto simp: task_ok_def)
  have run: "running (rsy S) = mset (map snd (tasks S))" "distinct (map fst (tasks S))" using inv by (simp_all add: site_inv_def)
  then have "rstep cd rcfg (rsy S) (handlerEnds a f r' (rsy S))" using ts co by (intro rstep_ends) auto
  then show ?thesis
  proof (rule handler_inv [OF inv h k(1) mi])
    show "acked_frames (rsy S) \<subseteq> acked_frames (handlerEnds a f r' (rsy S))" using acked_grows by (simp add: handlerEnds_def)
    show "running (handlerEnds a f r' (rsy S)) = mset (map snd (ts @ us))" using run(1) ts by (simp add: handlerEnds_def)
    show "distinct (map fst (ts @ us))" "(i, k) \<notin> fst ` set (ts @ us)" using run(2) ts by auto
    show "set (ts @ us) \<subseteq> set (tasks S)" using ts by auto
    show "\<exists>g. Decode (snd (seen c ! nat k)) = Inr g \<and> g \<in> acked_frames (handlerEnds a f r' (rsy S))" if "a = AckSuccess"
      using k(2) that by (simp add: handlerEnds_def ack_frame_def)
  qed
qed

lemma site_step_inv:
  assumes "site_step cd rcfg scfg S S'" and "site_inv cd rcfg scfg r S" and "0 < MaxInflight scfg"
  shows "site_inv cd rcfg scfg r S'"
  using assms
proof (induction rule: site_step.induct)
  case (server S v)
  then have "(srv_step scfg)\<^sup>*\<^sup>* new_server v" by (auto simp: site_inv_def intro: rtranclp.rtrancl_into_rtrancl)
  then show ?case using server by (auto simp: site_inv_def intro: map_le_trans)
next
  case (connect S v bs)
  then show ?case by (intro connect_inv)
next
  case (io S i c c')
  then show ?case by (intro io_inv)
next
  case (reply S i c k j fb e a r')
  then show ?case by (intro reply_inv)
next
  case (start S i c k j fb e f r')
  then show ?case by (intro start_inv)
next
  case (finish S ts i k f us c e a r')
  then show ?case by (intro finish_inv)
qed

text \<open>
  A run of the site is a run of the server and a run of the receiver, and an answer of one is an
  acknowledgement of the other.
\<close>

lemma site_run_inv:
  assumes "(site_step cd rcfg scfg)\<^sup>*\<^sup>* (site_start r) S" and "0 < MaxInflight scfg"
  shows "site_inv cd rcfg scfg r S"
  using assms(1)
proof (induction rule: rtranclp_induct)
  case base
  show ?case by (rule site_start_inv)
next
  case (step S S')
  then show ?case using site_step_inv assms(2) by blast
qed

section \<open>A connection of the sender at the site\<close>

text \<open>
  What is assumed of the network: a connection of the sender (the frames it wrote, the bytes it
  read) from which an answer came is a connection the server accepted, on which a prefix of
  the written bytes arrives, and the bytes read are a prefix of those the server wrote.
\<close>

definition carried :: "site \<Rightarrow> bytes list \<times> byte list \<Rightarrow> bool" where
  "carried S l \<longleftrightarrow> snd l = [] \<or> (\<exists>i c. hist S i = Some c \<and>
     prefix (concat (map snd (seen c)) @ input c) (concat (fst l)) \<and> prefix (snd l) (wire c))"

lemma carried_answer:
  assumes run: "(site_step cd rcfg scfg)\<^sup>*\<^sup>* (site_start r) S" and mi: "0 < MaxInflight scfg"
    and l: "carried S (sent, rd)" and fr: "\<forall>f\<in>set sent. framed f" and z: "(fb, AckSuccess) \<in> set (zip sent rd)"
  shows "\<exists>f. Decode fb = Inr f \<and> f \<in> acked_frames (rsy S)"
proof -
  obtain k where k: "k < length sent" "k < length rd" "sent ! k = fb" "rd ! k = AckSuccess"
    using z by (auto simp: in_set_zip)
  then obtain i c where c: "hist S i = Some c" "prefix (concat (map snd (seen c)) @ input c) (concat sent)" "prefix rd (wire c)"
    using l by (auto simp: carried_def)
  note C = site_inv_conn [OF site_run_inv [OF run mi] c(1)]
  obtain bs where bs: "(conn_step scfg)\<^sup>*\<^sup>* (new_conn bs) c" using C(1) ..
  have inv: "conn_inv scfg bs c" by (rule conn_steps_inv [OF bs mi])
  then have "prefix bs (concat sent)" using c(2) by (simp add: conn_inv_def)
  then have st: "prefix (map snd (seen c)) sent" "refused c = None" using stream_inv [OF bs mi _ fr] by auto
  have kw: "k < length (wire c)" "wire c ! k = AckSuccess" using c(3) k by (auto simp: prefix_def nth_append)
  have "int (length (wire c)) \<le> int (length (seen c))" using wire_answers(1) [OF inv st(2)] inv by (simp add: conn_inv_def)
  then have ks: "k < length (seen c)" using kw(1) by simp
  have "snd (seen c ! k) = fb" using st(1) ks k(3) by (auto simp: prefix_def nth_append)
  moreover have "answers c (int k) = Some AckSuccess" using wire_answers(2) [OF inv st(2) kw(1)] kw(2) by simp
  ultimately show ?thesis using C(2) ks by (auto simp: acks_known_def)
qed

lemma acked_landed:
  assumes "New rcfg relay file = Inr r" and "(site_step cd rcfg scfg)\<^sup>*\<^sup>* (site_start r) S" and "0 < MaxInflight scfg"
  shows "acks_landed cd (rcv (rsy S)) (acked_frames (rsy S))"
proof -
  have "(rstep cd rcfg)\<^sup>*\<^sup>* (sys_start r) (rsy S)" using site_run_inv [OF assms(2,3)] by (simp add: site_inv_def)
  from sys_inv_steps [OF this sys_start_inv [OF assms(1)]] show ?thesis by (simp add: sys_inv_def)
qed

section \<open>A frame at the site\<close>

text \<open>A site that listens, accepts a connection and answers its only frame.\<close>

lemma site_snoc:
  "(site_step cd rcfg scfg)\<^sup>*\<^sup>* S T \<Longrightarrow> site_step cd rcfg scfg T U \<Longrightarrow> (site_step cd rcfg scfg)\<^sup>*\<^sup>* S U"
  by (rule rtranclp.rtrancl_into_rtrancl)

lemma open_site:
  assumes "MaxConns scfg \<le> 0"
  shows "\<exists>S. (site_step cd rcfg scfg)\<^sup>*\<^sup>* (site_start r) S \<and> sConns (srv S) = [1 \<mapsto> new_conn bs] \<and>
    hist S = [1 \<mapsto> new_conn bs] \<and> rsy S = sys_start r \<and> tasks S = []"
proof -
  let ?S0 = "site_start r" let ?v1 = "new_server\<lparr>sListening := True\<rparr>" let ?v2 = "?v1\<lparr>sServing := True\<rparr>"
  let ?v3 = "serveConn scfg bs ?v2"
  let ?S1 = "?S0\<lparr>srv := ?v1\<rparr>" let ?S2 = "?S1\<lparr>srv := ?v2\<rparr>" let ?S3 = "?S2\<lparr>srv := ?v3, hist := hist ?S2 ++ sConns ?v3\<rparr>"
  have "srv_step scfg (srv ?S0) ?v1"
    by (rule srv_step.listen) (simp_all add: ListenTCP_def site_start_def new_server_def)
  then have s1: "site_step cd rcfg scfg ?S0 ?S1" by (rule site_step.server) (simp add: site_start_def)
  have "srv_step scfg (srv ?S1) ?v2" by (simp add: srv_step.serve)
  then have s2: "site_step cd rcfg scfg ?S1 ?S2" by (rule site_step.server) simp
  have s3: "site_step cd rcfg scfg ?S2 ?S3" by (rule site_step.connect) (simp_all add: site_start_def)
  have "(site_step cd rcfg scfg)\<^sup>*\<^sup>* ?S0 ?S3" by (rule site_snoc [OF site_snoc [OF site_snoc [OF rtranclp.rtrancl_refl s1] s2] s3])
  moreover have "sConns ?v3 = [1 \<mapsto> new_conn bs]" using assms by (simp add: serveConn_def acceptConn_def new_server_def)
  ultimately show ?thesis by (intro exI [of _ ?S3]) (simp add: site_start_def)
qed

lemma demo_site: "\<exists>S. (site_step stored_codec demo_cfg demo_server)\<^sup>*\<^sup>* (site_start demo_recv) S \<and> carried S ([demo_fb], [AckSuccess])"
proof -
  let ?step = "site_step stored_codec demo_cfg demo_server"
  have fr: "framed demo_fb" by (rule Decode_framed [OF demo_Decode])
  obtain S where S: "?step\<^sup>*\<^sup>* (site_start demo_recv) S" "sConns (srv S) = [1 \<mapsto> new_conn demo_fb]" "hist S = [1 \<mapsto> new_conn demo_fb]"
    "rsy S = sys_start demo_recv" "tasks S = []"
    using open_site [of demo_server stored_codec demo_cfg demo_recv demo_fb] by (auto simp: demo_server_def NewServer_def demo_listen_def)
  obtain c where c: "readStep demo_server True (new_conn demo_fb) = Some c" "seen c = [(0, demo_fb)]" "input c = []"
    "handling c = {0}" "writing c" "wIdx c = 0" "wire c = []" using one_frame_read [OF fr demo_server_inflight] by blast
  obtain c' where c': "writeStep True (handlerDone 0 AckSuccess c) = Some c'" "wire c' = [AckSuccess]" "seen c' = seen c" "input c' = input c"
    using one_frame_written [OF c(5-7)] by blast
  let ?S1 = "putConn 1 c S"
  have s1: "?step S ?S1" using S(2) c(1) by (intro site_step.io) (auto simp: conn_io_def)
  let ?S2 = "?S1\<lparr>rsy := handlerStarts demo_frame (addInflight 1 demo_recv) (rsy ?S1), tasks := ((1, 0), demo_frame) # tasks ?S1\<rparr>"
  have s2: "?step ?S1 ?S2"
  proof (rule site_step.start)
    show "hist ?S1 1 = Some c" by simp
    show "0 \<in> handling c" using c(4) by blast
    show "(1, 0) \<notin> fst ` set (tasks ?S1)" using S(5) by simp
    show "seen c ! nat 0 = (0, demo_fb)" using c(2) by simp
    show "admit demo_cfg demo_env (unat 0) demo_fb (rcv (rsy ?S1)) = (Proceed demo_frame, addInflight 1 demo_recv)"
      using demo_admit S(4) by (simp add: sys_start_def)
  qed
  obtain r where r: "complete stored_codec demo_cfg demo_env demo_frame (rcv (rsy ?S2)) = (AckSuccess, r)" using demo_complete by blast
  let ?S3 = "putConn 1 (handlerDone 0 AckSuccess c) (?S2\<lparr>rsy := handlerEnds AckSuccess demo_frame r (rsy ?S2), tasks := [] @ []\<rparr>)"
  have s3: "?step ?S2 ?S3" using S(5) by (intro site_step.finish [OF _ _ r]) simp_all
  have s4: "?step ?S3 (putConn 1 c' ?S3)" using S(2) c'(1) by (intro site_step.io) (auto simp: conn_io_def putConn_def)
  have "?step\<^sup>*\<^sup>* (site_start demo_recv) (putConn 1 c' ?S3)"
    by (rule site_snoc [OF site_snoc [OF site_snoc [OF site_snoc [OF S(1) s1] s2] s3] s4])
  moreover have "carried (putConn 1 c' ?S3) ([demo_fb], [AckSuccess])"
    unfolding carried_def using c(2,3) c'(2-4) by (intro disjI2 exI [of _ 1] exI [of _ c']) simp
  ultimately show ?thesis by blast
qed

end
