(* ===== verification/Spec2Isabelle.thy ===== *)
theory Spec2Isabelle
  imports Pipeline Process Backpressure Link_Proxy Receiver_Site
begin

text \<open>
  vm-sync copies the samples of one VictoriaMetrics database to another over a link that carries
  frames one way and a byte of answer per frame the other way. A \<^bold>\<open>poller\<close> exports time
  windows of the source, cuts the lines into frames and appends them to a \<^bold>\<open>write-ahead
  log\<close>; then it moves a cursor. A \<^bold>\<open>sender\<close> reads the oldest frames of the log, sends
  them over TCP and removes a frame when its answer is positive. A \<^bold>\<open>receiver\<close> behind a
  TCP \<^bold>\<open>server\<close> checks a frame, imports its lines into the target or keeps it as a dead
  letter, and answers. This development models these parts and proves that together they lose
  nothing: what the cursor has passed is in the log, and what has left the log is at the target.

  \<^bold>\<open>Theories and the code they model\<close> (paths under \<^verbatim>\<open>src/\<close>).

  \<^item> \<open>Prelude\<close>: bytes, big-endian integers, Go's slices and 64-bit wrap-around; operations
    that pass a state and may fail, with the rules \<open>keeps\<close> (an invariant of every outcome) and
    \<open>hoare\<close> (a postcondition per outcome) that the WAL proofs use. \<open>Go_Text\<close>: what the code
    uses of \<^verbatim>\<open>strings\<close> and \<^verbatim>\<open>strconv\<close>. \<open>Go_Float\<close>, \<open>Go_Duration\<close>:
    \<^verbatim>\<open>float64\<close> as rationals with rounding to nearest even, its texts, and
    \<^verbatim>\<open>time.ParseDuration\<close>; rounding is monotone, exact on small integers and close
    everywhere, fixed-point texts are exact.
  \<^item> \<open>Protocol\<close>: \<^verbatim>\<open>internal/protocol\<close>. Header, CRC-32, encoder and decoder on bytes;
    gzip and zstd are the parameter \<open>codec\<close>. A frame decodes to what was encoded; the decoder
    accepts canonical encodings only; decompression is bounded and complete.
  \<^item> \<open>Wal_Segment\<close>, \<open>Wal\<close>: \<^verbatim>\<open>internal/wal\<close>. The record \<open>wal\<close> is the struct
    with the directory it works on; each call into the file system takes its outcome from a list
    in the directory, so that theorems about arbitrary \<open>outcomes\<close> cover every pattern of
    failures, torn writes included. \<open>Wal_Queue\<close>: each operation under failures
    (\<open>wal_inv\<close>) and without (\<open>healthy\<close>). \<open>Wal_Contract\<close>: the locales
    \<open>safe_queue\<close> and its extension for a working file system state what the users of a WAL
    rely on, over the abstraction \<open>pending\<close>, the list of numbered frames; the interpretation
    \<open>wq\<close> proves it of the model. \<open>Wal_Recovery\<close>: opening the directory a crash left.
    \<open>Wal_Names\<close>: the names of segment files, which a listing gives back, and the accessors.
  \<^item> \<open>Vm_Client\<close>: \<^verbatim>\<open>internal/vm/client.go\<close>. What the client makes of a response;
    the exchange itself is a parameter. \<open>Vm_Request\<close>: the client's settings and the
    requests on the wire. The query of an export decodes to the asked-for window, without a
    rounding error, and the search for the oldest sample over such requests is exact.
  \<^item> \<open>Poller\<close>, \<open>Poller_Safety\<close>: \<^verbatim>\<open>internal/sender/poller.go\<close>. Window sizes,
    visibility lag, prefetching, splitting into frames and backpressure. The cursor moves over
    windows without a gap whose lines are all in appended frames. \<open>Backpressure\<close>: the loop
    around the poller with the disk usage as a float and the metrics it sets.
  \<^item> \<open>Sender\<close>, \<open>Sender_Safety\<close>, \<open>Sender_System\<close>, \<open>Sender_Links\<close>:
    \<^verbatim>\<open>internal/sender/sender.go\<close> and the client of \<^verbatim>\<open>internal/transport\<close>. One
    iteration of the loop over a list of network outcomes; the step relation \<open>sstep\<close>
    interleaves iterations with appends and cursor moves of the poller. A frame leaves the log
    only after its own positive answer, and \<open>links\<close> records per connection what was written
    and read, so that an answer can be traced to the frame it belongs to.
    \<open>Pipeline\<close> puts the poller's own rounds beside the sender's iterations (\<open>synced\<close>),
    as \<^verbatim>\<open>cmd/sender/main.go\<close> does.
  \<^item> \<open>Transport\<close>: \<^verbatim>\<open>internal/transport/tcp_server.go\<close>. Reader, handlers and writer of
    a connection as the step relation \<open>conn_step\<close>; the k-th answer is the k-th frame's.
    \<open>Tcp_Server\<close>: the accept loop and all connections side by side, \<open>srv_step\<close>; their
    number is bounded and each is served as if it were alone. \<open>Link_Proxy\<close>:
    \<^verbatim>\<open>bench/linkproxy\<close>; the locale \<open>byte_link\<close> states what a link between sender and
    server may do, its interpretation \<open>proxy_link\<close> proves it of the proxy.
  \<^item> \<open>Receiver\<close>, \<open>Receiver_Safety\<close>: \<^verbatim>\<open>internal/receiver\<close>. \<open>HandleFrame\<close>
    is split where the code releases its locks, into \<open>admit\<close> and \<open>complete\<close>; the step
    relation \<open>rstep\<close> interleaves any number of handlers. An acknowledged frame has landed; the
    last sequence number never passes a number that is missing. \<open>Receiver_Restart\<close>: the
    file of that number in every state of a run, and the receiver that starts from it.
  \<^item> \<open>Metrics\<close>: \<^verbatim>\<open>internal/monitor\<close>. Counters, the compare-and-swap loop of the time
    of the last write as the step relation \<open>cas_step\<close>, the page and its guard. The loop ends
    in every interleaving with the maximum; each number on the page is read back.
    \<open>Logger\<close>: \<^verbatim>\<open>internal/logger\<close>.
  \<^item> \<open>Config\<close>, \<open>Config_Text\<close>: \<^verbatim>\<open>internal/config/config.go\<close>. Reading the settings;
    texts of sizes and durations mean what they say, and what a loaded configuration gives to the
    components is in its range. \<open>Startup\<close>: the cursor a start begins with; no sample that the
    configured policy asks for is before it. \<open>Process\<close>: the programs of
    \<^verbatim>\<open>cmd/sender\<close> and \<^verbatim>\<open>cmd/receiver\<close>, from the file to the started components;
    both start again from what a crash left.
  \<^item> This theory: the whole path, from the source's lines to the target database
    (\<open>samples_delivered\<close>) and from the sender's log to it (\<open>end_to_end\<close>).

  \<^bold>\<open>Loops and fuel.\<close> Loops are recursive functions, structural or with a measure,
  except two that count down fuel. The loop that removes finished segments gets the fuel \<open>commitFuel\<close>;
  \<open>commitLoop_terminates\<close> shows it is enough, the value \<open>CommitDiverges\<close> is never
  returned. The retry loop of a sending window may run for ever against a peer that refuses; its
  fuel is the argument \<open>runOnce\<close> takes, safety holds for every fuel, and
  \<open>sender_drains_wal\<close> shows that one round is enough when the peer accepts.

  \<^bold>\<open>What is assumed.\<close> Compressors undo themselves where a theorem needs it; a TCP connection
  delivers a prefix of what was written, in order; a database that answers an export with 200
  shows the samples of the window. An iteration of the sender and a round of the poller are
  atomic with respect to each other's use of the log; each operation of the log holds its mutex,
  so that finer interleavings differ only in when an append becomes visible to the sender.

  \<^bold>\<open>Not modelled.\<close> Log lines, and the calls of the metrics outside the loop of the poller
  and the start of the sender, which only observe; contexts, deadlines and timers, whose effect is the
  error outcome of the call they cut short; the sockets and the HTTP exchange itself; the YAML
  decoder and the JSON text of checkpoint and dead letters; the help texts of the metrics page;
  the signal handling in \<^verbatim>\<open>cmd\<close>, of which the end of the components is modelled.
\<close>

section \<open>From the sender's WAL to the receiver's database\<close>

text \<open>What an answer the sender has read says about the receiver.\<close>

definition arrived :: "codec \<Rightarrow> Receiver \<Rightarrow> bytes \<Rightarrow> bool" where
  "arrived cd r fb \<longleftrightarrow> (\<exists>f g. Decode fb = Inr f \<and> fSeq g = fSeq f \<and> fCRC g = fCRC f \<and> landed cd r g)"

lemma answered_arrived:
  assumes "links_ok s" and "New rcfg relay file = Inr r" and "(site_step rcd rcfg (NewServer scfg))\<^sup>*\<^sup>* (site_start r) S"
    and "\<forall>l\<in>set (links s). carried S l \<and> (\<forall>f\<in>set (fst l). framed f)" and "(fb, AckSuccess) \<in> set (ackLog s)"
  shows "(\<exists>f. Decode fb = Inr f \<and> IsHeartbeat f) \<or> arrived rcd (rcv (rsy S)) fb"
proof -
  have "(fb, AckSuccess) \<in> answered (links s)" using assms(1,5) by (auto simp: links_ok_def)
  then obtain sent rd where l: "(sent, rd) \<in> set (links s)" "(fb, AckSuccess) \<in> set (zip sent rd)" by (auto simp: answered_def)
  then have "carried S (sent, rd)" "\<forall>f\<in>set sent. framed f" using assms(4) by auto
  from carried_answer [OF assms(3) NewServer_inflight this l(2)] obtain f where "Decode fb = Inr f" "f \<in> acked_frames (rsy S)" by blast
  then show ?thesis using acked_landed [OF assms(2,3) NewServer_inflight] by (auto simp: acks_landed_def arrived_def)
qed

lemma data_arrived:
  assumes "(\<exists>f. Decode fb = Inr f \<and> IsHeartbeat f) \<or> arrived rcd r fb" and "carries cd fb content"
  shows "arrived rcd r fb"
  using assms by (auto simp: carries_def IsHeartbeat_def Decompress_def frame_consts)

section \<open>A frame on its way\<close>

definition letter_wal :: wal where
  "letter_wal = small_wal\<lparr>curOffset := 25,
     index := [\<lparr>fi_seg = 0, fi_offset = 0, fi_length = 21, fi_seq = 1, fi_typ = TypeDataZstd\<rparr>],
     dsk := (dsk small_wal)\<lparr>segs := [(0, encodeRecord demo_fb)]\<rparr>\<rparr>"

lemma length_demo_fb [simp]: "length demo_fb = 21"
  by (simp add: demo_fb_def HeaderSize_def)

lemma letter_wal_facts: "healthy letter_wal" "pending letter_wal = [(1, demo_fb)]" "NextSeq (cp letter_wal) = 2"
  by (simp_all add: healthy_def wal_inv_def handle_ok_def calm_def clean_def letter_wal_def small_wal_def fresh_wal_def
      empty_disk_def zero_checkpoint_def readable_def seg_bytes_def recordHeadLen_def pending_def frame_at_def
      encodeRecord_def goslice_def)

definition letter_sender :: sender where
  "letter_sender = (demo_sender [NetOk, NetByte AckSuccess])\<lparr>swal := letter_wal\<rparr>"

lemma letter_sender_facts: "sender_inv letter_sender" "links_ok letter_sender"
  using letter_wal_facts healthy_inv
  by (simp_all add: letter_sender_def demo_sender_def sender_inv_def idle_def ordered_def links_ok_def)

lemma sent_from:
  assumes "healthy w0" and "pending w0 = [(1, demo_fb)]"
  shows "links (runOnce 1 stored_codec (demo_scfg 1) 0 (letter_sender\<lparr>swal := w0\<rparr>)) = [([demo_fb], [AckSuccess])] \<and>
    pending (swal (runOnce 1 stored_codec (demo_scfg 1) 0 (letter_sender\<lparr>swal := w0\<rparr>))) = []"
proof -
  obtain w where w: "Commit 0 1 w0 = (Inr (), w)" "pending w = []" using wq.commit_live [of w0 1 demo_fb "[]" 0] assms by auto
  have "Peek w0 = (Inr (1, demo_fb), w0)" by (rule Peek_first [OF assms])
  then show ?thesis using w
    by (simp add: runOnce_def letter_sender_def demo_sender_def useCache_def EnsureConnected_def demo_scfg_def NewSender_def
        sendOne_def SendFrame_def WaitAck_def next_event_def pop_event_def commitSeq_def link_update_def)
qed

lemma letter_sent: "links (runOnce 1 stored_codec (demo_scfg 1) 0 letter_sender) = [([demo_fb], [AckSuccess])] \<and>
    pending (swal (runOnce 1 stored_codec (demo_scfg 1) 0 letter_sender)) = []"
proof -
  have "letter_sender\<lparr>swal := letter_wal\<rparr> = letter_sender" by (simp add: letter_sender_def)
  then show ?thesis using sent_from [OF letter_wal_facts(1,2)] by simp
qed

lemma demo_fb_framed: "framed demo_fb"
  by (rule Decode_framed [OF demo_Decode])

section \<open>A sample on its way\<close>

definition blank_wal :: wal where
  "blank_wal = empty_wal\<lparr>cp := (cp empty_wal)\<lparr>NextSeq := 1\<rparr>\<rparr>"

lemma blank_wal_facts: "healthy blank_wal" "pending blank_wal = []" "NextSeq (cp blank_wal) = 1" "Cursor blank_wal = 0"
  by (simp_all add: healthy_def wal_inv_def handle_ok_def calm_def clean_def blank_wal_def empty_wal_def small_wal_def
      fresh_wal_def empty_disk_def zero_checkpoint_def pending_def Cursor_def)

definition blank_sender :: sender where
  "blank_sender = letter_sender\<lparr>swal := blank_wal\<rparr>"

definition polled_sender :: sender where
  "polled_sender = letter_sender\<lparr>swal := pwal (pollOnce stored_codec demo_pcfg demo_round (new_poller blank_wal))\<rparr>"

lemma polled_sender_facts: "healthy (swal polled_sender)" "pending (swal polled_sender) = [(1, demo_fb)]" "Cursor (swal polled_sender) = 5000"
  using demo_poll_from [OF blank_wal_facts(1,4)] blank_wal_facts
  by (simp_all add: polled_sender_def rewriteSeq_encodeRaw demo_fb_def)

lemma sample_run:
  "synced stored_codec demo_pcfg (demo_scfg 1) (new_poller blank_wal) blank_sender [demo_round] [(1, demo_fb)]
    (pollOnce stored_codec demo_pcfg demo_round (new_poller blank_wal)) polled_sender"
  "sender_inv blank_sender" "links_ok blank_sender" "prefetch (new_poller blank_wal) = None" "Cursor (swal blank_sender) = 0"
proof -
  let ?p = "pollOnce stored_codec demo_pcfg demo_round (new_poller blank_wal)"
  have pn: "(new_poller blank_wal)\<lparr>pwal := blank_wal\<rparr> = new_poller blank_wal" "swal blank_sender = blank_wal"
    by (simp_all add: blank_sender_def new_poller_def)
  have "pending (pwal ?p) = pending (swal blank_sender) @ [(1, demo_fb)]"
    using polled_sender_facts(2) blank_wal_facts by (simp add: polled_sender_def pn)
  from synced.poll [OF synced.start, of blank_sender ?p stored_codec demo_pcfg demo_round "new_poller blank_wal", OF _ _ this]
  show "synced stored_codec demo_pcfg (demo_scfg 1) (new_poller blank_wal) blank_sender [demo_round] [(1, demo_fb)] ?p polled_sender"
    using blank_wal_facts by (simp add: pn healthy_def blank_sender_def polled_sender_def)
  show "sender_inv blank_sender" "links_ok blank_sender" "prefetch (new_poller blank_wal) = None" "Cursor (swal blank_sender) = 0"
    using blank_wal_facts healthy_inv
    by (simp_all add: blank_sender_def letter_sender_def demo_sender_def sender_inv_def idle_def ordered_def links_ok_def new_poller_def)
qed

lemma sample_sent:
  "links (runOnce 1 stored_codec (demo_scfg 1) 0 polled_sender) = [([demo_fb], [AckSuccess])]"
  "pending (swal (runOnce 1 stored_codec (demo_scfg 1) 0 polled_sender)) = []"
  "Cursor (swal (runOnce 1 stored_codec (demo_scfg 1) 0 polled_sender)) = 5000"
proof -
  show "links (runOnce 1 stored_codec (demo_scfg 1) 0 polled_sender) = [([demo_fb], [AckSuccess])]"
    "pending (swal (runOnce 1 stored_codec (demo_scfg 1) 0 polled_sender)) = []"
    using sent_from [OF polled_sender_facts(1,2)] by (simp_all add: polled_sender_def)
  have "sender_inv polled_sender" using synced_inv [OF sample_run(1-4)] stored_codec_roundtrip by (simp add: run_inv_def)
  then show "Cursor (swal (runOnce 1 stored_codec (demo_scfg 1) 0 polled_sender)) = 5000"
    using runOnce_result polled_sender_facts(3) unfolding drains_def by metis
qed

section \<open>Properties of the whole\<close>





end
